(* ===== verification/Prelude.thy ===== *)
theory Prelude
  imports Main "HOL-Library.Word" "HOL-Library.Monad_Syntax"
begin

text \<open>
  Shared vocabulary of the development: the fixed-width integers of the C code, the byte
  order of the host and the socket API's conversions (\<open>htons\<close>, \<open>ntohl\<close>, ...), bounded
  reads and writes of byte arrays, and the generic lemmas the component theories use.

  The value \<open>None\<close> of an \<open>option\<close> result stands for undefined behaviour of the C
  program throughout: an access outside an object, a dereference of a null or dangling
  pointer, or a loop that does not end.
\<close>

unbundle bit_operations_syntax

section \<open>Machine integers and bytes\<close>

type_synonym byte = "8 word"
type_synonym u8 = "8 word"
type_synonym u16 = "16 word"
type_synonym u32 = "32 word"
type_synonym bytes = "byte list"

named_theorems wire_simps \<open>reading and writing fields of a byte buffer\<close>

subsection \<open>Bytes of a word, least significant first\<close>

definition le16 :: "u16 \<Rightarrow> bytes" where
  "le16 w = [ucast w, ucast (drop_bit 8 w)]"

definition le32 :: "u32 \<Rightarrow> bytes" where
  "le32 w = [ucast w, ucast (drop_bit 8 w), ucast (drop_bit 16 w), ucast (drop_bit 24 w)]"

fun of_le16 :: "bytes \<Rightarrow> u16" where
  "of_le16 [a, b] = ucast a OR push_bit 8 (ucast b)"
| "of_le16 _ = 0"

fun of_le32 :: "bytes \<Rightarrow> u32" where
  "of_le32 [a, b, c, d] =
     ucast a OR push_bit 8 (ucast b) OR push_bit 16 (ucast c) OR push_bit 24 (ucast d)"
| "of_le32 _ = 0"

lemma length_le16 [simp]: "length (le16 w) = 2"
  by (simp add: le16_def)

lemma length_le32 [simp]: "length (le32 w) = 4"
  by (simp add: le32_def)

lemma of_le16_le16 [simp]: "of_le16 (le16 w) = w"
  by (rule bit_word_eqI) (auto simp: le16_def bit_simps)

lemma of_le32_le32 [simp]: "of_le32 (le32 w) = w"
proof (rule bit_word_eqI)
  fix n :: nat
  have "n < 24 \<or> 24 + (n - 24) = n" by arith
  then show "bit (of_le32 (le32 w)) n = bit w n" if "n < LENGTH(32)"
    using that by (auto simp: le32_def bit_simps)
qed

lemma bit_byte_high:
  "\<not> bit (a :: byte) (8 + n)" "\<not> bit (a :: byte) (16 + n)" "\<not> bit (a :: byte) (24 + n)"
  using bit_imp_le_length [of a "8 + n"] bit_imp_le_length [of a "16 + n"]
    bit_imp_le_length [of a "24 + n"] by auto

lemma le16_of_le16: "length bs = 2 \<Longrightarrow> le16 (of_le16 bs) = bs"
  by (cases bs rule: of_le16.cases)
    (auto simp: le16_def bit_simps bit_byte_high intro!: bit_word_eqI)

lemma le32_of_le32: "length bs = 4 \<Longrightarrow> le32 (of_le32 bs) = bs"
  by (cases bs rule: of_le32.cases)
    (auto simp: le32_def bit_simps bit_byte_high intro!: bit_word_eqI)

lemma le16_inj: "le16 a = le16 b \<longleftrightarrow> a = b"
  by (metis of_le16_le16)

lemma le32_inj: "le32 a = le32 b \<longleftrightarrow> a = b"
  by (metis of_le32_le32)

subsection \<open>Widening conversions\<close>

lemma unat_ucast_up:
  "LENGTH('a::len) \<le> LENGTH('b::len) \<Longrightarrow> unat (ucast (w :: 'a word) :: 'b word) = unat w"
proof -
  assume "LENGTH('a) \<le> LENGTH('b)"
  then have "(2::nat) ^ LENGTH('a) \<le> 2 ^ LENGTH('b)" by simp
  then have "unat w < 2 ^ LENGTH('b)"
    by (rule order_less_le_trans [OF unsigned_less])
  then show ?thesis by (simp add: unsigned_ucast_eq take_bit_nat_eq_self)
qed

lemma ucast_ucast_up:
  "LENGTH('a::len) \<le> LENGTH('b::len) \<Longrightarrow> ucast (ucast (w :: 'a word) :: 'b word) = w"
  by (rule bit_word_eqI) (auto simp: bit_simps)

lemma ucast_eq_up_iff:
  "LENGTH('a::len) \<le> LENGTH('b::len) \<Longrightarrow>
   (ucast (v :: 'a word) :: 'b word) = ucast w \<longleftrightarrow> v = w"
  by (metis ucast_ucast_up)

lemma xor_right_cancel:
  fixes a b c :: "'a::len word"
  assumes "a XOR c = b XOR c"
  shows "a = b"
proof -
  have "(a XOR c) XOR c = (b XOR c) XOR c" using assms by (rule arg_cong)
  then show ?thesis by (simp add: xor.assoc)
qed

lemma xor_left_cancel: "c XOR a = c XOR b \<Longrightarrow> a = b" for a :: "'a::len word"
  by (rule xor_right_cancel [of a c b]) (simp add: xor.commute)

subsection \<open>Byte order of the host\<close>

datatype endian = Little | Big

text \<open>
  \<open>store\<close> and \<open>load\<close> are what \<open>memcpy\<close> between an integer object and a byte array does on
  a host of the given byte order. The conversions of \<open>arpa/inet.h\<close> swap the bytes on a
  little-endian host and are the identity on a big-endian one; \<open>ntoh*\<close> is the same
  function as \<open>hton*\<close>.
\<close>

definition store16 :: "endian \<Rightarrow> u16 \<Rightarrow> bytes" where
  "store16 e w = (case e of Little \<Rightarrow> le16 w | Big \<Rightarrow> rev (le16 w))"

definition store32 :: "endian \<Rightarrow> u32 \<Rightarrow> bytes" where
  "store32 e w = (case e of Little \<Rightarrow> le32 w | Big \<Rightarrow> rev (le32 w))"

definition load16 :: "endian \<Rightarrow> bytes \<Rightarrow> u16" where
  "load16 e bs = of_le16 (case e of Little \<Rightarrow> bs | Big \<Rightarrow> rev bs)"

definition load32 :: "endian \<Rightarrow> bytes \<Rightarrow> u32" where
  "load32 e bs = of_le32 (case e of Little \<Rightarrow> bs | Big \<Rightarrow> rev bs)"

definition htons :: "endian \<Rightarrow> u16 \<Rightarrow> u16" where
  "htons e w = (case e of Little \<Rightarrow> of_le16 (rev (le16 w)) | Big \<Rightarrow> w)"

definition htonl :: "endian \<Rightarrow> u32 \<Rightarrow> u32" where
  "htonl e w = (case e of Little \<Rightarrow> of_le32 (rev (le32 w)) | Big \<Rightarrow> w)"

abbreviation ntohs :: "endian \<Rightarrow> u16 \<Rightarrow> u16" where
  "ntohs \<equiv> htons"

abbreviation ntohl :: "endian \<Rightarrow> u32 \<Rightarrow> u32" where
  "ntohl \<equiv> htonl"

lemma length_store [simp]:
  "length (store16 e w) = 2" "length (store32 e v) = 4"
  by (auto simp: store16_def store32_def split: endian.splits)

lemma load_store [simp]:
  "load16 e (store16 e w) = w" "load32 e (store32 e v) = v"
  by (auto simp: store16_def store32_def load16_def load32_def split: endian.splits)

text \<open>Stored after \<open>hton*\<close>, a value lies in network order whatever the host.\<close>

lemma store_hton [simp]:
  "store16 e (htons e w) = rev (le16 w)" "store32 e (htonl e v) = rev (le32 v)"
  by (auto simp: store16_def store32_def htons_def htonl_def le16_of_le16 le32_of_le32
      split: endian.splits)

lemma load_rev_le [simp]:
  "htons e (load16 e (rev (le16 w))) = w" "htonl e (load32 e (rev (le32 v))) = v"
  by (auto simp: load16_def load32_def htons_def htonl_def le16_of_le16 le32_of_le32
      split: endian.splits)

lemma hton_hton [simp]: "htons e (htons e w) = w" "htonl e (htonl e v) = v"
  by (auto simp: htons_def htonl_def le16_of_le16 le32_of_le32 split: endian.splits)

lemma htonl_eq_0 [simp]: "htonl e w = 0 \<longleftrightarrow> w = 0"
proof -
  have "htonl e 0 = 0" by (simp add: htonl_def le32_def split: endian.splits)
  then show ?thesis by (metis hton_hton(2))
qed

lemma ntoh_load_inj:
  assumes "length bs = 4" "length cs = 4" "htonl e (load32 e bs) = htonl e (load32 e cs)"
  shows "bs = cs"
proof -
  have "load32 e bs = load32 e cs" using assms(3) by (metis hton_hton(2))
  then show ?thesis using assms(1,2)
    by (cases e) (simp_all add: load32_def, metis le32_of_le32, metis le32_of_le32 length_rev rev_rev_ident)
qed

section \<open>Byte arrays\<close>

text \<open>
  An array object is the list of its bytes; its length is its capacity. An access that
  leaves the object is \<open>None\<close>.
\<close>

definition read_bytes :: "bytes \<Rightarrow> nat \<Rightarrow> nat \<Rightarrow> bytes option" where
  "read_bytes m off n = (if off + n \<le> length m then Some (take n (drop off m)) else None)"

definition write_bytes :: "bytes \<Rightarrow> nat \<Rightarrow> bytes \<Rightarrow> bytes option" where
  "write_bytes m off bs =
     (if off + length bs \<le> length m
      then Some (take off m @ bs @ drop (off + length bs) m) else None)"

lemma length_read_bytes: "read_bytes m off n = Some bs \<Longrightarrow> length bs = n"
  by (auto simp: read_bytes_def split: if_splits)

lemma read_bytes_Some_iff: "(\<exists>bs. read_bytes m off n = Some bs) \<longleftrightarrow> off + n \<le> length m"
  by (simp add: read_bytes_def)

lemma length_write_bytes: "write_bytes m off bs = Some m' \<Longrightarrow> length m' = length m"
  by (auto simp: write_bytes_def split: if_splits)

text \<open>
  Filling an array from the front: after \<open>n\<close> bytes the array is what has been written
  followed by the untouched rest, and the next write extends the written part.
\<close>

lemma write_at_start [wire_simps]:
  "length bs \<le> length b \<Longrightarrow> write_bytes b 0 bs = Some (bs @ drop (length bs) b)"
  by (simp add: write_bytes_def)

lemma write_at [wire_simps]:
  "n = length w \<Longrightarrow> n + length bs \<le> length b \<Longrightarrow>
   write_bytes (w @ drop n b) n bs = Some ((w @ bs) @ drop (n + length bs) b)"
  by (simp add: write_bytes_def add.commute)

lemma read_written [wire_simps]:
  "n = length w \<Longrightarrow> read_bytes (w @ rest) 0 n = Some w"
  by (simp add: read_bytes_def)

lemma read_last_written [wire_simps]:
  "n = length w \<Longrightarrow> k = length bs \<Longrightarrow> read_bytes ((w @ bs) @ rest) n k = Some bs"
  by (simp add: read_bytes_def)

lemma read_whole [wire_simps]:
  "n = length w \<Longrightarrow> read_bytes w 0 n = Some w"
  by (simp add: read_bytes_def)

section \<open>Lists\<close>

lemma list_update_neq: "i < length xs \<Longrightarrow> b \<noteq> xs ! i \<Longrightarrow> xs[i := b] \<noteq> xs"
  by (metis nth_list_update_eq)

end
