(* ===== verification/Packet.thy ===== *)
theory Packet
  imports Prelude
begin

text \<open>
  The segment format of the protocol: \<open>src/src/packet/packet.c\<close> and \<open>packet.h\<close>.

  \<^item> \<open>pkt\<close> is \<open>struct pkt\<close>, its bit-fields kept at their width (2, 1 and 5 bits), its
    \<open>payload\<close> pointer an optional byte list (\<open>None\<close> is the null pointer).
  \<^item> The setters return the status code and the structure after the call.
  \<^item> \<open>pkt_decode\<close> and \<open>pkt_encode\<close> take the byte order of the host and the CRC-32 of zlib
    (\<open>crc\<close>, a parameter: zlib is not part of the repository) and return \<open>None\<close> where the
    C code leaves an array. \<open>ok\<close> says whether the \<open>malloc\<close> of the payload succeeds.
\<close>

section \<open>Constants and types of packet.h\<close>

abbreviation PTYPE_DATA :: u32 where "PTYPE_DATA \<equiv> 1"
abbreviation PTYPE_ACK :: u32 where "PTYPE_ACK \<equiv> 2"
abbreviation PTYPE_NACK :: u32 where "PTYPE_NACK \<equiv> 3"

abbreviation MAX_PAYLOAD_SIZE :: nat where "MAX_PAYLOAD_SIZE \<equiv> 512"
abbreviation MAX_WINDOW_SIZE :: nat where "MAX_WINDOW_SIZE \<equiv> 31"
abbreviation MAX_PKT_SIZE :: nat where "MAX_PKT_SIZE \<equiv> 512 + 16"

datatype pkt_status_code =
    PKT_OK | E_TYPE | E_TR | E_LENGTH | E_CRC | E_WINDOW | E_SEQNUM | E_NOMEM
  | E_NOHEADER | E_UNCONSISTENT

record pkt =
  p_type :: "2 word"
  p_tr :: "1 word"
  p_window :: "5 word"
  p_length :: u16
  p_seqnum :: u8
  p_timestamp :: u32
  p_crc1 :: u32
  p_payload :: "bytes option"
  p_crc2 :: u32

text \<open>The structure \<open>memset\<close> to zero.\<close>

definition zero_pkt :: pkt where
  "zero_pkt = \<lparr>p_type = 0, p_tr = 0, p_window = 0, p_length = 0, p_seqnum = 0,
     p_timestamp = 0, p_crc1 = 0, p_payload = None, p_crc2 = 0\<rparr>"

section \<open>Allocation\<close>

text \<open>
  \<open>pkt_new\<close> asks \<open>calloc\<close> for zero elements, so nothing is zeroed and the structure it
  returns has whatever contents the allocator's block had: the argument is what
  \<open>calloc\<close> returns.
\<close>

definition pkt_new :: "pkt option \<Rightarrow> pkt option" where
  "pkt_new block = (case block of None \<Rightarrow> None | Some p \<Rightarrow> Some p)"

section \<open>Accessors\<close>

definition pkt_get_type :: "pkt \<Rightarrow> u32" where
  "pkt_get_type p = ucast (p_type p)"

definition pkt_get_tr :: "pkt \<Rightarrow> u8" where
  "pkt_get_tr p = ucast (p_tr p)"

definition pkt_get_window :: "pkt \<Rightarrow> u8" where
  "pkt_get_window p = ucast (p_window p)"

definition pkt_get_seqnum :: "pkt \<Rightarrow> u8" where
  "pkt_get_seqnum p = p_seqnum p"

definition pkt_get_length :: "pkt \<Rightarrow> u16" where
  "pkt_get_length p = p_length p"

definition pkt_get_timestamp :: "pkt \<Rightarrow> u32" where
  "pkt_get_timestamp p = p_timestamp p"

definition pkt_get_crc1 :: "pkt \<Rightarrow> u32" where
  "pkt_get_crc1 p = p_crc1 p"

definition pkt_get_crc2 :: "pkt \<Rightarrow> u32" where
  "pkt_get_crc2 p = p_crc2 p"

definition pkt_get_payload :: "pkt \<Rightarrow> bytes option" where
  "pkt_get_payload p = (if p_length p \<noteq> 0 then p_payload p else None)"

section \<open>Setters\<close>

definition pkt_set_type :: "pkt \<Rightarrow> u32 \<Rightarrow> pkt_status_code \<times> pkt" where
  "pkt_set_type p type =
     (if type < 1 \<or> type > 3 then (E_TYPE, p) else (PKT_OK, p\<lparr>p_type := ucast type\<rparr>))"

definition pkt_set_tr :: "pkt \<Rightarrow> u8 \<Rightarrow> pkt_status_code \<times> pkt" where
  "pkt_set_tr p tr = (if tr > 1 then (E_TR, p) else (PKT_OK, p\<lparr>p_tr := ucast tr\<rparr>))"

definition pkt_set_window :: "pkt \<Rightarrow> u8 \<Rightarrow> pkt_status_code \<times> pkt" where
  "pkt_set_window p window =
     (if unat window > MAX_WINDOW_SIZE then (E_WINDOW, p)
      else (PKT_OK, p\<lparr>p_window := ucast window\<rparr>))"

definition pkt_set_seqnum :: "pkt \<Rightarrow> u8 \<Rightarrow> pkt_status_code \<times> pkt" where
  "pkt_set_seqnum p seqnum = (PKT_OK, p\<lparr>p_seqnum := seqnum\<rparr>)"

definition pkt_set_length :: "pkt \<Rightarrow> u16 \<Rightarrow> pkt_status_code \<times> pkt" where
  "pkt_set_length p len =
     (if unat len > MAX_PAYLOAD_SIZE then (E_LENGTH, p) else (PKT_OK, p\<lparr>p_length := len\<rparr>))"

definition pkt_set_timestamp :: "pkt \<Rightarrow> u32 \<Rightarrow> pkt_status_code \<times> pkt" where
  "pkt_set_timestamp p timestamp = (PKT_OK, p\<lparr>p_timestamp := timestamp\<rparr>)"

definition pkt_set_crc1 :: "pkt \<Rightarrow> u32 \<Rightarrow> pkt_status_code \<times> pkt" where
  "pkt_set_crc1 p crc1 = (PKT_OK, p\<lparr>p_crc1 := crc1\<rparr>)"

definition pkt_set_crc2 :: "pkt \<Rightarrow> u32 \<Rightarrow> pkt_status_code \<times> pkt" where
  "pkt_set_crc2 p crc2 = (PKT_OK, p\<lparr>p_crc2 := crc2\<rparr>)"

text \<open>
  \<open>data\<close> is the memory from the argument pointer to the end of its object. Copying no byte
  from a null pointer is allowed, as the callers rely on it.
\<close>

definition pkt_set_payload ::
  "bool \<Rightarrow> pkt \<Rightarrow> bytes option \<Rightarrow> u16 \<Rightarrow> (pkt_status_code \<times> pkt) option" where
  "pkt_set_payload ok p data len =
     (if unat len > MAX_PAYLOAD_SIZE then Some (E_LENGTH, p)
      else if \<not> ok then Some (E_NOMEM, p\<lparr>p_payload := None\<rparr>)
      else case pkt_set_length p len of (st, q) \<Rightarrow>
        if st \<noteq> PKT_OK then Some (E_LENGTH, q)
        else if len = 0 then Some (PKT_OK, q\<lparr>p_payload := Some []\<rparr>)
        else case data of None \<Rightarrow> None
          | Some m \<Rightarrow> do {
              bs \<leftarrow> read_bytes m 0 (unat len);
              Some (PKT_OK, q\<lparr>p_payload := Some bs\<rparr>)
            })"

definition predict_header_length :: "pkt \<Rightarrow> int" where
  "predict_header_length p =
     (if pkt_get_type p = PTYPE_DATA then
        if unat (p_length p) > MAX_PAYLOAD_SIZE then -1 else 8
      else if p_length p \<noteq> 0 then -1 else 10)"

section \<open>Decoding\<close>

definition pkt_decode ::
  "(bytes \<Rightarrow> u32) \<Rightarrow> endian \<Rightarrow> bool \<Rightarrow> bytes option \<Rightarrow> nat \<Rightarrow> pkt
   \<Rightarrow> (pkt_status_code \<times> pkt) option" where
  "pkt_decode crc e ok data len p0 =
     (case data of None \<Rightarrow> Some (E_UNCONSISTENT, p0)
      | Some m \<Rightarrow>
        if len > MAX_PAYLOAD_SIZE + 16 \<or> len < 10 then Some (E_LENGTH, p0)
        else do {
          hb \<leftarrow> read_bytes m 0 1;
          let head = hd hb;
          let cur = 1;
          let p = zero_pkt\<lparr>p_type := ucast (drop_bit 6 (head AND 0xC0)),
                            p_tr := ucast (drop_bit 5 (head AND 0x20)),
                            p_window := ucast (head AND 0x1F)\<rparr>;
          let (st, p) = pkt_set_type p (ucast (p_type p));
          if st \<noteq> PKT_OK then Some (st, p) else do {
          let (st, p) = pkt_set_tr p (ucast (p_tr p));
          if st \<noteq> PKT_OK then Some (st, p) else do {
          let (st, p) = pkt_set_window p (ucast (p_window p));
          if st \<noteq> PKT_OK then Some (st, p) else do {
          (st, p, cur) \<leftarrow>
            (if ucast (p_type p) = PTYPE_DATA then do {
               lb \<leftarrow> read_bytes m cur 2;
               let p = p\<lparr>p_length := load16 e lb\<rparr>;
               let (st, p) = pkt_set_length p (ntohs e (p_length p));
               Some (st, p, cur + 2)
             } else Some (PKT_OK, p, cur));
          if st \<noteq> PKT_OK then Some (st, p) else do {
          sb \<leftarrow> read_bytes m cur 1;
          let (st, p) = pkt_set_seqnum p (hd sb);
          let cur = cur + 1;
          tb \<leftarrow> read_bytes m cur 4;
          let (st, p) = pkt_set_timestamp p (load32 e tb);
          let cur = cur + 4;
          cb \<leftarrow> read_bytes m cur 4;
          let cur = cur + 4;
          let p = p\<lparr>p_crc1 := ntohl e (load32 e cb)\<rparr>;
          let tr = p_tr p;
          let (st, p) = pkt_set_tr p 0;
          hdr \<leftarrow> read_bytes m 0 (cur - 4);
          if p_crc1 p \<noteq> crc hdr then Some (E_CRC, p)
          else if ucast (p_type p) \<noteq> PTYPE_DATA
          then Some (PKT_OK, snd (pkt_set_tr p (ucast tr)))
          else do {
          (st, p) \<leftarrow> pkt_set_payload ok p (Some (drop cur m)) (p_length p);
          if st \<noteq> PKT_OK then Some (st, p) else do {
          let cur = cur + unat (p_length p);
          db \<leftarrow> read_bytes m cur 4;
          let p = p\<lparr>p_crc2 := ntohl e (load32 e db)\<rparr>;
          mismatch \<leftarrow>
            (if tr = 0 \<and> p_length p \<noteq> 0 then do {
               pb \<leftarrow> read_bytes m 12 (unat (p_length p));
               Some (p_crc2 p \<noteq> crc pb)
             } else Some False);
          if mismatch then Some (E_CRC, p)
          else do {
          let (st, p) = pkt_set_tr p (ucast tr);
          if ucast (p_type p) \<noteq> PTYPE_DATA \<and> p_tr p \<noteq> 0 then Some (E_UNCONSISTENT, p)
          else Some (PKT_OK, p)
        }}}}}}}})"

section \<open>Encoding\<close>

text \<open>The first byte: the three bit-fields packed by shifts.\<close>

definition head_byte :: "pkt \<Rightarrow> u8" where
  "head_byte p = push_bit 6 (ucast (p_type p)) OR push_bit 5 (ucast (p_tr p))
                   OR (ucast (p_window p) AND 0x1F)"

text \<open>
  \<open>buf\<close> is the output array (its length is its capacity) and \<open>lenp\<close> the object \<open>len\<close>
  points to; the result holds the status, the array and that object after the call.
\<close>

definition pkt_encode ::
  "(bytes \<Rightarrow> u32) \<Rightarrow> endian \<Rightarrow> pkt option \<Rightarrow> bytes option \<Rightarrow> nat option
   \<Rightarrow> (pkt_status_code \<times> bytes option \<times> nat option) option" where
  "pkt_encode crc e po buf lenp =
     (case po of None \<Rightarrow> Some (E_UNCONSISTENT, buf, lenp)
      | Some p \<Rightarrow>
        if pkt_get_type p \<noteq> PTYPE_DATA \<and> pkt_get_tr p \<noteq> 0
        then Some (E_UNCONSISTENT, buf, lenp)
        else case buf of None \<Rightarrow> Some (E_NOMEM, buf, lenp)
        | Some b \<Rightarrow> (case lenp of None \<Rightarrow> Some (E_LENGTH, buf, lenp)
        | Some _ \<Rightarrow> do {
          b \<leftarrow> write_bytes b 0 [head_byte p];
          let cur = 1;
          if ucast (p_type p) \<noteq> PTYPE_DATA then do {
            b \<leftarrow> write_bytes b cur [p_seqnum p];
            let cur = cur + 1;
            b \<leftarrow> write_bytes b cur (store32 e (p_timestamp p));
            let cur = cur + 4;
            hdr \<leftarrow> read_bytes b 0 cur;
            b \<leftarrow> write_bytes b cur (store32 e (ntohl e (crc hdr)));
            let cur = cur + 4;
            Some (PKT_OK, Some b, Some cur)
          } else do {
          let pktn_length = htons e (pkt_get_length p);
          if unat (pkt_get_length p) > MAX_PKT_SIZE then Some (E_LENGTH, Some b, lenp)
          else do {
          b \<leftarrow> write_bytes b cur (store16 e pktn_length);
          let cur = cur + 2;
          b \<leftarrow> write_bytes b cur [p_seqnum p];
          let cur = cur + 1;
          b \<leftarrow> write_bytes b cur (store32 e (pkt_get_timestamp p));
          let cur = cur + 4;
          hdr \<leftarrow> read_bytes b 0 8;
          b \<leftarrow> write_bytes b cur (store32 e (htonl e (crc hdr)));
          let cur = cur + 4;
          if pkt_get_tr p \<noteq> 0 then
            if pkt_get_length p \<noteq> 0 then Some (E_UNCONSISTENT, Some b, lenp)
            else Some (PKT_OK, Some b, lenp)
          else case pkt_get_payload p of
            None \<Rightarrow> Some (PKT_OK, Some b, Some cur)
          | Some pl \<Rightarrow> do {
              src \<leftarrow> read_bytes pl 0 (unat (pkt_get_length p));
              b \<leftarrow> write_bytes b cur src;
              body \<leftarrow> read_bytes b cur (unat (pkt_get_length p));
              let pktn_crc2 = htonl e (crc body);
              let cur = cur + unat (pkt_get_length p);
              if pktn_crc2 \<noteq> 0 \<and> pkt_get_tr p = 0 then do {
                b \<leftarrow> write_bytes b cur (store32 e pktn_crc2);
                Some (PKT_OK, Some b, Some (cur + 4))
              } else Some (E_UNCONSISTENT, Some b, lenp)
            }
        }}}))"

end
