(* ===== verification/Checksum.thy ===== *)
theory Checksum
  imports Prelude
begin

text \<open>
  The interface of the checksum the segment format relies on. \<open>crc32\<close> comes from zlib,
  which is not part of the repository, so the model takes it as a parameter \<open>crc\<close>. The
  locale \<open>checksum\<close> states the one documented property the integrity results use: a change
  confined to one byte (a burst of at most 32 bits) changes the checksum. The ISO 3309
  CRC-32 that zlib documents is written out below only to show that this hypothesis holds
  for it: it is the interpretation of the locale and the instance the witnesses use.
\<close>

locale checksum =
  fixes crc :: "bytes \<Rightarrow> u32"
  assumes one_byte: "i < length bs \<Longrightarrow> b \<noteq> bs ! i \<Longrightarrow> crc (bs[i := b]) \<noteq> crc bs"
begin

lemma one_byte_split: "b \<noteq> c \<Longrightarrow> crc (xs @ b # ys) \<noteq> crc (xs @ c # ys)"
  using one_byte [of "length xs" "xs @ c # ys" b] by simp

lemma one_byte_hd: "b \<noteq> c \<Longrightarrow> crc (b # ys) \<noteq> crc (c # ys)"
  using one_byte_split [of b c "[]" ys] by simp

end

section \<open>The CRC-32 of ISO 3309\<close>

definition crc_bit :: "u32 \<Rightarrow> u32" where
  "crc_bit s = (if bit s 0 then drop_bit 1 s XOR 0xEDB88320 else drop_bit 1 s)"

definition crc_step :: "u32 \<Rightarrow> byte \<Rightarrow> u32" where
  "crc_step s b = (crc_bit ^^ 8) (s XOR ucast b)"

definition crc32 :: "bytes \<Rightarrow> u32" where
  "crc32 bs = NOT (foldl crc_step (NOT 0) bs)"

lemma word_not_not_eq: "NOT a = NOT b \<longleftrightarrow> a = b" for a :: "'a::len word"
  by (metis bit.double_compl)

lemma crc_bit_top: "bit (crc_bit s) 31 = bit s 0"
  using bit_imp_le_length [of s 32] by (auto simp: crc_bit_def bit_simps)

lemma crc_bit_inj: "crc_bit s = crc_bit t \<Longrightarrow> s = t"
proof -
  assume eq: "crc_bit s = crc_bit t"
  then have low: "bit s 0 = bit t 0" by (metis crc_bit_top)
  with eq have "drop_bit 1 s = drop_bit 1 t"
    by (auto simp: crc_bit_def dest: xor_right_cancel split: if_splits)
  then have high: "bit s (Suc n) = bit t (Suc n)" for n
    by (metis bit_drop_bit_eq comp_apply plus_1_eq_Suc)
  show "s = t"
  proof (rule bit_word_eqI)
    fix n :: nat
    show "bit s n = bit t n" by (cases n) (simp_all only: low high)
  qed
qed

lemma crc_bits_inj: "(crc_bit ^^ n) s = (crc_bit ^^ n) t \<Longrightarrow> s = t"
  by (induction n) (auto dest: crc_bit_inj)

lemma crc_step_inj_state: "crc_step s b = crc_step t b \<Longrightarrow> s = t"
  unfolding crc_step_def by (drule crc_bits_inj) (rule xor_right_cancel)

lemma crc_step_inj_byte: "crc_step s b = crc_step s c \<Longrightarrow> b = c"
  unfolding crc_step_def
  by (drule crc_bits_inj, drule xor_left_cancel) (simp add: ucast_eq_up_iff)

lemma crc_fold_inj: "foldl crc_step s bs = foldl crc_step t bs \<Longrightarrow> s = t"
  by (induction bs arbitrary: s t) (auto dest: crc_step_inj_state)

lemma crc32_one_byte:
  assumes "i < length bs" and "b \<noteq> bs ! i"
  shows "crc32 (bs[i := b]) \<noteq> crc32 bs"
proof
  let ?s = "foldl crc_step (NOT 0) (take i bs)"
  assume eq: "crc32 (bs[i := b]) = crc32 bs"
  have run: "crc32 (bs[i := c]) = NOT (foldl crc_step (crc_step ?s c) (drop (Suc i) bs))" for c
    using assms(1) by (simp add: crc32_def upd_conv_take_nth_drop)
  have "crc32 (bs[i := b]) = crc32 (bs[i := bs ! i])" using eq by simp
  then have "foldl crc_step (crc_step ?s b) (drop (Suc i) bs)
      = foldl crc_step (crc_step ?s (bs ! i)) (drop (Suc i) bs)"
    by (simp only: run word_not_not_eq)
  then show False
    using assms(2) by (blast dest: crc_fold_inj crc_step_inj_byte)
qed

interpretation iso: checksum crc32
  by unfold_locales (rule crc32_one_byte)

lemma checksum_crc32: "checksum crc32"
  by unfold_locales

text \<open>The usual check value: the definition is the CRC-32 that zlib computes.\<close>

lemma funpow_8: "(f ^^ 8) x = f (f (f (f (f (f (f (f x)))))))"
  by (simp add: numeral_eq_Suc)

lemmas crc32_eval = crc32_def crc_step_def funpow_8 crc_bit_def

lemma crc32_check_value: "crc32 [0x31, 0x32, 0x33, 0x34, 0x35, 0x36, 0x37, 0x38, 0x39] = 0xCBF43926"
  by (simp add: crc32_eval)

end
