(* ===== verification/Packet_Codec.thy ===== *)
theory Packet_Codec
  imports Packet Checksum
begin

text \<open>
  What \<open>pkt_encode\<close> puts on the wire and what \<open>pkt_decode\<close> makes of it: the layout of the
  two kinds of segment, the result of each routine on it, and the round trips, the
  integrity, the error codes and the memory accesses that follow.
\<close>

section \<open>Bit-fields\<close>

lemma byte_masks:
  "(0x1F :: u8) = mask 5" "(0xC0 :: u8) = push_bit 6 (mask 2)" "(0x20 :: u8) = push_bit 5 (mask 1)"
  by (simp_all add: mask_eq_exp_minus_1)

lemma head_type: "ucast (drop_bit 6 (head_byte p AND 0xC0)) = p_type p"
  unfolding head_byte_def byte_masks
  by (rule bit_word_eqI) (auto simp: bit_simps dest: bit_imp_le_length)

lemma head_tr: "ucast (drop_bit 5 (head_byte p AND 0x20)) = p_tr p"
  unfolding head_byte_def byte_masks
  by (rule bit_word_eqI) (auto simp: bit_simps dest: bit_imp_le_length)

lemma head_window: "ucast (head_byte p AND 0x1F) = p_window p"
  unfolding head_byte_def byte_masks
  by (rule bit_word_eqI) (auto simp: bit_simps dest: bit_imp_le_length)

text \<open>The second forms are what the simplifier makes of the first two.\<close>

lemmas head_fields =
  head_type head_tr head_window head_type [simplified] head_tr [simplified]

text \<open>Setting a bit-field to a value read from one of the same width never fails.\<close>

lemma set_tr_0 [simp]: "pkt_set_tr p 0 = (PKT_OK, p\<lparr>p_tr := 0\<rparr>)"
  by (simp add: pkt_set_tr_def)

lemma set_tr_bf [simp]: "pkt_set_tr p (ucast (t :: 1 word)) = (PKT_OK, p\<lparr>p_tr := t\<rparr>)"
proof -
  have "\<not> (ucast t :: u8) > 1"
    using unsigned_less [of t, where ?'a = nat]
    by (auto simp: word_less_nat_alt unat_ucast_up)
  then show ?thesis by (simp add: pkt_set_tr_def ucast_ucast_up)
qed

lemma set_window_bf [simp]:
  "pkt_set_window p (ucast (w :: 5 word)) = (PKT_OK, p\<lparr>p_window := w\<rparr>)"
proof -
  have "unat w < 2 ^ 5" using unsigned_less [of w, where ?'a = nat] by simp
  then show ?thesis by (simp add: pkt_set_window_def unat_ucast_up ucast_ucast_up)
qed

lemma set_type_bf [simp]:
  "pkt_set_type p (ucast (t :: 2 word)) =
     (if t = 0 then (E_TYPE, p) else (PKT_OK, p\<lparr>p_type := t\<rparr>))"
proof -
  have "unat t < 2 ^ 2" using unsigned_less [of t, where ?'a = nat] by simp
  then have "\<not> (ucast t :: u32) > 3"
    by (simp add: word_less_nat_alt unat_ucast_up)
  moreover have "((ucast t :: u32) < 1) = (t = 0)"
    by (simp add: word_less_nat_alt unat_ucast_up unat_eq_zero)
  ultimately show ?thesis by (simp add: pkt_set_type_def ucast_ucast_up)
qed

lemma ucast_type_eq: "((ucast (t :: 2 word) :: u32) = PTYPE_DATA) = (t = 1)"
  using ucast_eq_up_iff [of t "1 :: 2 word", where ?'b = 32] by simp

lemma length_pos_iff: "unat (n :: u16) = length pl \<Longrightarrow> (n = 0) = (pl = [])"
  by (metis length_0_conv unat_eq_zero)

lemmas decode_unfold = pkt_decode_def Let_def read_bytes_def zero_pkt_def pkt_set_length_def
  pkt_set_seqnum_def pkt_set_timestamp_def pkt_set_payload_def ucast_type_eq

section \<open>The layout of segments\<close>

definition data_header :: "endian \<Rightarrow> pkt \<Rightarrow> bytes" where
  "data_header e p =
     [head_byte p] @ rev (le16 (p_length p)) @ [p_seqnum p] @ store32 e (p_timestamp p)"

definition ack_header :: "endian \<Rightarrow> pkt \<Rightarrow> bytes" where
  "ack_header e p = [head_byte p] @ [p_seqnum p] @ store32 e (p_timestamp p)"

definition data_wire :: "(bytes \<Rightarrow> u32) \<Rightarrow> endian \<Rightarrow> pkt \<Rightarrow> bytes \<Rightarrow> bytes" where
  "data_wire crc e p pl =
     data_header e p @ rev (le32 (crc (data_header e p))) @ pl @ rev (le32 (crc pl))"

definition eof_wire :: "(bytes \<Rightarrow> u32) \<Rightarrow> endian \<Rightarrow> pkt \<Rightarrow> bytes" where
  "eof_wire crc e p = data_header e p @ rev (le32 (crc (data_header e p)))"

definition ack_wire :: "(bytes \<Rightarrow> u32) \<Rightarrow> endian \<Rightarrow> pkt \<Rightarrow> bytes" where
  "ack_wire crc e p = ack_header e p @ rev (le32 (crc (ack_header e p)))"

lemma length_wire [simp]:
  "length (data_header e p) = 8" "length (ack_header e p) = 6"
  "length (data_wire crc e p pl) = 16 + length pl"
  "length (eof_wire crc e p) = 12" "length (ack_wire crc e p) = 10"
  by (simp_all add: data_header_def ack_header_def data_wire_def eof_wire_def ack_wire_def)

text \<open>A data packet the sender may put on the wire.\<close>

definition sendable :: "(bytes \<Rightarrow> u32) \<Rightarrow> pkt \<Rightarrow> bytes \<Rightarrow> bool" where
  "sendable crc p pl \<longleftrightarrow>
     p_type p = 1 \<and> p_tr p = 0 \<and> p_payload p = Some pl \<and> unat (p_length p) = length pl \<and>
     pl \<noteq> [] \<and> length pl \<le> MAX_PAYLOAD_SIZE \<and> crc pl \<noteq> 0"

section \<open>Encoding\<close>

lemma pkt_encode_ack:
  assumes "p_type p \<noteq> 1" "p_tr p = 0" "10 \<le> length b"
  shows "pkt_encode crc e (Some p) (Some b) (Some n) =
    Some (PKT_OK, Some (ack_wire crc e p @ drop 10 b), Some 10)"
  using assms
  by (simp add: pkt_encode_def pkt_get_tr_def ucast_type_eq ack_wire_def ack_header_def
      wire_simps Let_def del: append_assoc append_Cons) simp

lemma pkt_encode_data:
  assumes "sendable crc p pl" "16 + length pl \<le> length b"
  shows "pkt_encode crc e (Some p) (Some b) (Some n) =
    Some (PKT_OK, Some (data_wire crc e p pl @ drop (16 + length pl) b), Some (16 + length pl))"
proof -
  have p: "p_type p = 1" "p_tr p = 0" "p_payload p = Some pl" "unat (p_length p) = length pl"
    "pl \<noteq> []" "length pl \<le> MAX_PAYLOAD_SIZE" "crc pl \<noteq> 0"
    using assms(1) by (auto simp: sendable_def)
  show ?thesis
    using p assms(2) length_pos_iff [OF p(4)]
    by (simp add: pkt_encode_def pkt_get_tr_def ucast_type_eq data_wire_def data_header_def
        wire_simps Let_def pkt_get_length_def pkt_get_payload_def pkt_get_timestamp_def
        del: append_assoc append_Cons) simp
qed

lemma pkt_encode_eof:
  assumes "p_type p = 1" "p_length p = 0" "12 \<le> length b"
  shows "pkt_encode crc e (Some p) (Some b) (Some n) =
    Some (PKT_OK, Some (eof_wire crc e p @ drop 12 b), Some (if p_tr p = 0 then 12 else n))"
proof -
  have "(ucast (p_tr p) :: u8) = 0 \<longleftrightarrow> p_tr p = 0"
    using ucast_eq_up_iff [of "p_tr p" 0, where ?'b = 8] by simp
  then show ?thesis
    using assms
    by (simp add: pkt_encode_def pkt_get_tr_def pkt_get_type_def ucast_type_eq eof_wire_def
        data_header_def wire_simps Let_def pkt_get_length_def pkt_get_payload_def
        pkt_get_timestamp_def del: append_assoc append_Cons) simp
qed

section \<open>Decoding\<close>

lemma pkt_decode_data:
  assumes "10 \<le> len" "len \<le> MAX_PAYLOAD_SIZE + 16"
    "p_type p = 1" "unat (p_length p) \<le> MAX_PAYLOAD_SIZE"
    "unat (p_length p) = length pl" "length c1 = 4" "length c2 = 4"
  shows "pkt_decode crc e True (Some (data_header e p @ c1 @ pl @ c2 @ junk)) len q =
    (let q = zero_pkt\<lparr>p_type := 1, p_tr := p_tr p, p_window := p_window p,
              p_length := p_length p, p_seqnum := p_seqnum p, p_timestamp := p_timestamp p,
              p_crc1 := ntohl e (load32 e c1)\<rparr> in
     if ntohl e (load32 e c1) \<noteq> crc (data_header e p) then Some (E_CRC, q\<lparr>p_tr := 0\<rparr>)
     else let q = q\<lparr>p_payload := Some pl, p_crc2 := ntohl e (load32 e c2)\<rparr> in
     if p_tr p = 0 \<and> pl \<noteq> [] \<and> ntohl e (load32 e c2) \<noteq> crc pl
     then Some (E_CRC, q\<lparr>p_tr := 0\<rparr>)
     else Some (PKT_OK, q))"
proof -
  let ?m = "data_header e p @ c1 @ pl @ c2 @ junk"
  have "drop (12 + length pl) ?m = drop (length pl) (drop 12 ?m)"
    by (simp only: drop_drop add.commute)
  also have "drop 12 ?m = pl @ c2 @ junk" using assms(6) by simp
  finally have d: "drop (12 + length pl) ?m = c2 @ junk" by simp
  show ?thesis
    using assms length_pos_iff [OF assms(5)] d
    by (simp add: decode_unfold data_header_def head_fields)
qed

lemma pkt_decode_ack:
  assumes "10 \<le> len" "len \<le> MAX_PAYLOAD_SIZE + 16"
    "p_type p \<noteq> 0" "p_type p \<noteq> 1" "length c1 = 4"
  shows "pkt_decode crc e ok (Some (ack_header e p @ c1 @ junk)) len q =
    (let q = zero_pkt\<lparr>p_type := p_type p, p_tr := p_tr p, p_window := p_window p,
              p_seqnum := p_seqnum p, p_timestamp := p_timestamp p,
              p_crc1 := ntohl e (load32 e c1)\<rparr> in
     if ntohl e (load32 e c1) \<noteq> crc (ack_header e p) then Some (E_CRC, q\<lparr>p_tr := 0\<rparr>)
     else Some (PKT_OK, q))"
  using assms by (simp add: decode_unfold ack_header_def head_fields)

text \<open>Any eight bytes that start like a data header are one.\<close>

lemma data_header_view:
  assumes "length hs = 8" "hd hs = head_byte p" "p_type p = 1"
  obtains p' where "hs = data_header e p'" "p_type p' = 1"
proof
  let ?p = "p\<lparr>p_length := of_le16 (rev (take 2 (drop 1 hs))), p_seqnum := hs ! 3,
              p_timestamp := load32 e (drop 4 hs)\<rparr>"
  have hb: "head_byte ?p = head_byte p" by (simp add: head_byte_def)
  have ts: "store32 e (load32 e (drop 4 hs)) = drop 4 hs"
    using assms(1) by (auto simp: store32_def load32_def le32_of_le32 split: endian.splits)
  obtain h l0 l1 s ts where "hs = h # l0 # l1 # s # ts"
    using assms(1) by (auto simp: numeral_eq_Suc length_Suc_conv)
  with assms(1,2) hb ts le16_of_le16 [of "[l1, l0]"] show "hs = data_header e ?p"
    by (simp add: data_header_def)
  show "p_type ?p = 1" using assms(3) by simp
qed

text \<open>A wrong header checksum is reported before anything behind it is read.\<close>

lemma pkt_decode_bad_header:
  assumes "10 \<le> len" "len \<le> MAX_PAYLOAD_SIZE + 16" "length hs = 8" "hd hs = head_byte p"
    "p_type p = 1" "length c1 = 4" "ntohl e (load32 e c1) \<noteq> crc hs"
  shows "\<exists>st q'. pkt_decode crc e ok (Some (hs @ c1 @ rest)) len q = Some (st, q') \<and>
     st \<in> {E_CRC, E_LENGTH}"
proof -
  obtain p' where p': "hs = data_header e p'" "p_type p' = 1"
    using data_header_view [OF assms(3-5)] .
  show ?thesis
    using assms(1,2,6,7) p'
    by (simp add: decode_unfold data_header_def head_fields)
qed

section \<open>Round trips\<close>

lemma decode_data_wire:
  assumes "sendable crc p pl"
  shows "pkt_decode crc e True (Some (data_wire crc e p pl @ junk)) (16 + length pl) q =
    Some (PKT_OK, p\<lparr>p_crc1 := crc (data_header e p), p_crc2 := crc pl\<rparr>)"
proof -
  have p: "p_type p = 1" "p_tr p = 0" "p_payload p = Some pl" "unat (p_length p) = length pl"
    "length pl \<le> MAX_PAYLOAD_SIZE"
    using assms by (auto simp: sendable_def)
  have "data_wire crc e p pl @ junk =
      data_header e p @ rev (le32 (crc (data_header e p))) @ pl @ rev (le32 (crc pl)) @ junk"
    by (simp add: data_wire_def)
  then show ?thesis
    using p by (simp add: pkt_decode_data Let_def zero_pkt_def)
qed

text \<open>C10. A data packet the sender may send survives the trip: it is encoded without error in
  \<open>16 + length\<close> bytes, and decoding those bytes at the other end, whatever lies behind them
  in the receive buffer and whatever the target structure held, succeeds and gives back
  the same packet, with the two checksum fields filled in.\<close>

theorem data_roundtrip:
  assumes "sendable crc p pl" "16 + length pl \<le> length b"
  shows "\<exists>b'. pkt_encode crc e (Some p) (Some b) (Some n)
        = Some (PKT_OK, Some b', Some (16 + length pl)) \<and>
      pkt_decode crc e True (Some (take (16 + length pl) b' @ junk)) (16 + length pl) q
        = Some (PKT_OK, p\<lparr>p_crc1 := crc (take 8 b'), p_crc2 := crc pl\<rparr>)"
proof -
  have "take 8 (data_wire crc e p pl @ drop (16 + length pl) b) = data_header e p"
    by (simp add: data_wire_def)
  then show ?thesis
    using assms by (simp add: pkt_encode_data decode_data_wire)
qed

definition demo_pkt :: pkt where
  "demo_pkt = \<lparr>p_type = 1, p_tr = 0, p_window = 23, p_length = 3, p_seqnum = 69,
     p_timestamp = 10012000, p_crc1 = 0, p_payload = Some [83, 97, 108], p_crc2 = 0\<rparr>"

lemma demo_sendable: "sendable crc32 demo_pkt [83, 97, 108]"
proof -
  have "crc32 [83, 97, 108] \<noteq> 0" by code_simp
  then show ?thesis by (simp add: sendable_def demo_pkt_def)
qed

theorem data_roundtrip_witness:
  "\<exists>b'. pkt_encode crc32 Little (Some demo_pkt) (Some (replicate 50 0)) (Some 50)
        = Some (PKT_OK, Some b', Some 19) \<and>
      pkt_decode crc32 Little True (Some (take 19 b' @ [7])) 19 zero_pkt
        = Some (PKT_OK, demo_pkt\<lparr>p_crc1 := crc32 (take 8 b'), p_crc2 := crc32 [83, 97, 108]\<rparr>)"
  using data_roundtrip [OF demo_sendable, of "replicate 50 0" Little 50 "[7]" zero_pkt] by simp

text \<open>C11. Acknowledgements (ACK and NACK) survive the trip as well: ten bytes are written, and
  decoding them gives back type, window, sequence number and timestamp; the payload is
  null and the length 0, whatever the encoded structure held there.\<close>

theorem control_roundtrip:
  assumes "p_type p = 2 \<or> p_type p = 3" "p_tr p = 0" "10 \<le> length b"
  shows "\<exists>b'. pkt_encode crc e (Some p) (Some b) (Some n) = Some (PKT_OK, Some b', Some 10) \<and>
      pkt_decode crc e ok (Some (take 10 b' @ junk)) 10 q
        = Some (PKT_OK, p\<lparr>p_length := 0, p_crc1 := crc (take 6 b'), p_payload := None,
                          p_crc2 := 0\<rparr>)"
proof -
  have t: "p_type p \<noteq> 0" "p_type p \<noteq> 1" using assms(1) by auto
  have "pkt_decode crc e ok (Some (ack_header e p @ rev (le32 (crc (ack_header e p))) @ junk)) 10 q
      = Some (PKT_OK, p\<lparr>p_length := 0, p_crc1 := crc (ack_header e p), p_payload := None,
                       p_crc2 := 0\<rparr>)"
    using t assms(2) by (simp add: pkt_decode_ack Let_def zero_pkt_def)
  moreover have "take 6 (ack_wire crc e p @ drop 10 b) = ack_header e p"
    by (simp add: ack_wire_def)
  moreover have "take 10 (ack_wire crc e p @ drop 10 b) = ack_wire crc e p" by simp
  ultimately show ?thesis
    using assms t by (simp add: pkt_encode_ack) (simp add: ack_wire_def)
qed

theorem control_roundtrip_witness:
  "\<exists>b'. pkt_encode crc32 Big (Some (demo_pkt\<lparr>p_type := 2\<rparr>)) (Some (replicate 10 0)) (Some 0)
        = Some (PKT_OK, Some b', Some 10) \<and>
      pkt_decode crc32 Big True (Some (take 10 b' @ [])) 10 zero_pkt
        = Some (PKT_OK, demo_pkt\<lparr>p_type := 2, p_length := 0, p_crc1 := crc32 (take 6 b'),
                          p_payload := None, p_crc2 := 0\<rparr>)"
  using control_roundtrip [of "demo_pkt\<lparr>p_type := 2\<rparr>" "replicate 10 0" crc32 Big 0 True "[]" zero_pkt]
  by (simp add: demo_pkt_def)

text \<open>The end-of-file packet (a data packet of length 0) is sent as its twelve header bytes,
  without payload checksum. It is decoded as a packet with an empty payload, provided four
  more bytes of the receive buffer can be read: the decoder takes the payload checksum
  from whatever lies behind the packet, and does not check it.\<close>

theorem eof_roundtrip:
  assumes "p_type p = 1" "p_tr p = 0" "p_length p = 0" "12 \<le> length b" "length c2 = 4"
  shows "\<exists>b'. pkt_encode crc e (Some p) (Some b) (Some n) = Some (PKT_OK, Some b', Some 12) \<and>
      pkt_decode crc e True (Some (take 12 b' @ c2 @ junk)) 12 q
        = Some (PKT_OK, p\<lparr>p_crc1 := crc (take 8 b'), p_payload := Some [],
                          p_crc2 := ntohl e (load32 e c2)\<rparr>)"
proof -
  have "pkt_decode crc e True
      (Some (data_header e p @ rev (le32 (crc (data_header e p))) @ [] @ c2 @ junk)) 12 q
      = Some (PKT_OK, p\<lparr>p_crc1 := crc (data_header e p), p_payload := Some [],
                       p_crc2 := ntohl e (load32 e c2)\<rparr>)"
    using assms by (subst pkt_decode_data) (simp_all add: Let_def zero_pkt_def)
  moreover have "take 8 (eof_wire crc e p @ drop 12 b) = data_header e p"
    by (simp add: eof_wire_def)
  moreover have "take 12 (eof_wire crc e p @ drop 12 b) = eof_wire crc e p" by simp
  ultimately show ?thesis
    using assms by (simp add: pkt_encode_eof) (simp add: eof_wire_def)
qed

theorem eof_roundtrip_witness:
  "\<exists>b'. pkt_encode crc32 Little (Some (demo_pkt\<lparr>p_length := 0\<rparr>)) (Some (replicate 12 0)) (Some 9)
        = Some (PKT_OK, Some b', Some 12) \<and>
      pkt_decode crc32 Little True (Some (take 12 b' @ [1, 2, 3, 4] @ [])) 12 zero_pkt
        = Some (PKT_OK, demo_pkt\<lparr>p_length := 0, p_crc1 := crc32 (take 8 b'),
                          p_payload := Some [],
                          p_crc2 := ntohl Little (load32 Little [1, 2, 3, 4])\<rparr>)"
  using eof_roundtrip [of "demo_pkt\<lparr>p_length := 0\<rparr>" "replicate 12 0" "[1, 2, 3, 4]" crc32 Little
      9 "[]" zero_pkt]
  by (simp add: demo_pkt_def)

section \<open>Integrity\<close>

text \<open>What an accepted segment satisfies, whoever sent it.\<close>

lemma decode_accepted:
  assumes "pkt_decode crc e ok (Some m) len q = Some (PKT_OK, p)"
  shows "10 \<le> len \<and> len \<le> MAX_PKT_SIZE \<and> p_type p \<noteq> 0 \<and>
    (p_type p = 1 \<longrightarrow>
       unat (p_length p) \<le> MAX_PAYLOAD_SIZE \<and> 16 + unat (p_length p) \<le> length m \<and>
       p_crc1 p = crc (take 8 m) \<and>
       p_payload p = Some (take (unat (p_length p)) (drop 12 m)) \<and>
       (p_tr p = 0 \<longrightarrow> p_length p \<noteq> 0 \<longrightarrow>
          p_crc2 p = crc (take (unat (p_length p)) (drop 12 m)))) \<and>
    (p_type p \<noteq> 1 \<longrightarrow> p_crc1 p = crc (take 6 m) \<and> p_payload p = None \<and> p_length p = 0)"
  using assms
  by (auto simp: decode_unfold bind_eq_Some_conv split: if_splits prod.splits)

text \<open>Whatever bytes arrive, a segment is accepted only when both checksums are right:
  the header's over the header bytes as received and, for an untruncated data packet with
  a payload, the payload's over the payload. The payload then has exactly the announced
  length, at most 512, and lies inside the receive buffer.\<close>

theorem decode_accepts_only_checked:
  assumes "pkt_decode crc e ok (Some m) len q = Some (PKT_OK, p)" "pkt_get_type p = PTYPE_DATA"
  shows "pkt_get_crc1 p = crc (take 8 m) \<and>
    (\<exists>pl. p_payload p = Some pl \<and> length pl = unat (pkt_get_length p) \<and>
       length pl \<le> MAX_PAYLOAD_SIZE \<and> 16 + length pl \<le> length m \<and>
       pl = take (length pl) (drop 12 m) \<and>
       (pkt_get_tr p = 0 \<and> pl \<noteq> [] \<longrightarrow> pkt_get_crc2 p = crc pl))"
proof -
  have t: "p_type p = 1" using assms(2) by (simp add: pkt_get_type_def ucast_type_eq)
  have tr: "p_tr p = 0" if "pkt_get_tr p = 0"
    using that ucast_eq_up_iff [of "p_tr p" 0, where ?'b = 8] by (simp add: pkt_get_tr_def)
  show ?thesis
    using decode_accepted [OF assms(1)] t tr
    by (auto simp: pkt_get_crc1_def pkt_get_crc2_def pkt_get_length_def unat_eq_zero)
qed

theorem decode_accepts_only_checked_witness:
  "\<exists>p. pkt_get_crc1 p = crc32 (take 8 (data_wire crc32 Little demo_pkt [83, 97, 108])) \<and>
    (\<exists>pl. p_payload p = Some pl \<and> length pl = 3)"
proof -
  have "pkt_decode crc32 Little True (Some (data_wire crc32 Little demo_pkt [83, 97, 108] @ []))
      (16 + length [83 :: byte, 97, 108]) zero_pkt
      = Some (PKT_OK, demo_pkt\<lparr>p_crc1 := crc32 (data_header Little demo_pkt),
                              p_crc2 := crc32 [83, 97, 108]\<rparr>)"
    by (rule decode_data_wire [OF demo_sendable])
  from decode_accepts_only_checked [OF this] show ?thesis
    by (auto simp: demo_pkt_def pkt_get_type_def pkt_get_length_def)
qed

text \<open>
  One byte changed in transit, by regions of the segment: the header behind its first byte,
  the header checksum, the payload, the payload checksum.
\<close>

context checksum
begin

lemma header_byte_changed:
  assumes p: "p_type p = 1" and len: "10 \<le> len" "len \<le> MAX_PAYLOAD_SIZE + 16"
    and i: "1 \<le> i" "i < 8" and b: "b \<noteq> data_header e p ! i"
  shows "\<exists>st q'. pkt_decode crc e ok
      (Some ((data_header e p)[i := b] @ rev (le32 (crc (data_header e p))) @ rest)) len q
        = Some (st, q') \<and> st \<in> {E_CRC, E_LENGTH}"
proof (rule pkt_decode_bad_header [OF len])
  show "hd ((data_header e p)[i := b]) = head_byte p"
    using i(1) by (cases i) (simp_all add: data_header_def)
  show "ntohl e (load32 e (rev (le32 (crc (data_header e p))))) \<noteq> crc ((data_header e p)[i := b])"
    using one_byte [of i "data_header e p" b] i(2) b by simp
qed (use p in simp_all)

lemma header_checksum_changed:
  assumes p: "p_type p = 1" and len: "10 \<le> len" "len \<le> MAX_PAYLOAD_SIZE + 16"
    and c1: "length c1 = 4" "c1 \<noteq> rev (le32 (crc (data_header e p)))"
  shows "\<exists>st q'. pkt_decode crc e ok (Some (data_header e p @ c1 @ rest)) len q
        = Some (st, q') \<and> st \<in> {E_CRC, E_LENGTH}"
proof (rule pkt_decode_bad_header [OF len])
  show "ntohl e (load32 e c1) \<noteq> crc (data_header e p)"
    using c1 ntoh_load_inj [of c1 "rev (le32 (crc (data_header e p)))" e] by auto
qed (use p c1 in \<open>simp_all add: data_header_def\<close>)

lemma body_changed:
  assumes p: "p_type p = 1" "p_tr p = 0" "unat (p_length p) = length pl" "pl \<noteq> []"
      "length pl \<le> MAX_PAYLOAD_SIZE"
    and len: "10 \<le> len" "len \<le> MAX_PAYLOAD_SIZE + 16"
    and c2: "length c2 = 4" "ntohl e (load32 e c2) \<noteq> crc pl"
  shows "\<exists>q'. pkt_decode crc e True
      (Some (data_header e p @ rev (le32 (crc (data_header e p))) @ pl @ c2 @ rest)) len q
        = Some (E_CRC, q')"
  using assms by (subst pkt_decode_data) (simp_all add: Let_def)

lemma wire_byte_changed:
  assumes snd: "sendable crc p pl" and i: "1 \<le> i" "i < 16 + length pl"
    and b: "b \<noteq> data_wire crc e p pl ! i"
  shows "\<exists>st q'. pkt_decode crc e True (Some ((data_wire crc e p pl)[i := b] @ rest))
      (16 + length pl) q = Some (st, q') \<and> st \<in> {E_CRC, E_LENGTH}"
proof -
  let ?h = "data_header e p" and ?n = "length pl"
  let ?c1 = "rev (le32 (crc ?h))" and ?c2 = "rev (le32 (crc pl))"
  have p: "p_type p = 1" "p_tr p = 0" "unat (p_length p) = ?n" "pl \<noteq> []" "?n \<le> MAX_PAYLOAD_SIZE"
    using snd by (auto simp: sendable_def)
  have len: "10 \<le> 16 + ?n" "16 + ?n \<le> MAX_PAYLOAD_SIZE + 16" using p(5) by simp_all
  have w: "data_wire crc e p pl = ?h @ ?c1 @ pl @ ?c2" by (simp add: data_wire_def)
  consider "i < 8" | "8 \<le> i" "i < 12" | "12 \<le> i" "i < 12 + ?n" | "12 + ?n \<le> i"
    by linarith
  then show ?thesis
  proof cases
    case 1
    then have "(data_wire crc e p pl)[i := b] = ?h[i := b] @ ?c1 @ pl @ ?c2" "b \<noteq> ?h ! i"
      using b by (simp_all add: w list_update_append nth_append)
    then show ?thesis using header_byte_changed [OF p(1) len i(1) 1] by simp
  next
    case 2
    then have k: "i - 8 < 4" by simp
    with 2 have "(data_wire crc e p pl)[i := b] = ?h @ ?c1[i - 8 := b] @ pl @ ?c2"
      "b \<noteq> ?c1 ! (i - 8)"
      using b by (simp_all add: w list_update_append nth_append)
    then show ?thesis
      using header_checksum_changed [OF p(1) len, of "?c1[i - 8 := b]" e]
        list_update_neq [of "i - 8" ?c1 b] k by simp
  next
    case 3
    let ?pl = "pl[i - 12 := b]"
    have k: "\<not> i - 8 < 4" "i - 12 < ?n" using 3 by simp_all
    with 3 have "(data_wire crc e p pl)[i := b] = ?h @ ?c1 @ ?pl @ ?c2" "b \<noteq> pl ! (i - 12)"
      using b by (simp_all add: w list_update_append nth_append)
    moreover from this(2) have "ntohl e (load32 e ?c2) \<noteq> crc ?pl"
      using one_byte [OF k(2), of b] by auto
    ultimately show ?thesis using body_changed [of p ?pl "16 + ?n" ?c2 e rest q] p len by auto
  next
    case 4
    then have "\<not> i - 8 < 4" "\<not> i - 12 < ?n" by simp_all
    with 4 have "(data_wire crc e p pl)[i := b] = ?h @ ?c1 @ pl @ ?c2[i - 12 - ?n := b]"
      "b \<noteq> ?c2 ! (i - 12 - ?n)"
      using b by (simp_all add: w list_update_append nth_append)
    moreover have "i - 12 - ?n < length ?c2" using 4 i(2) by simp
    ultimately show ?thesis
      using body_changed [of p pl "16 + ?n" "?c2[i - 12 - ?n := b]" e rest q] p len
        ntoh_load_inj [of "?c2[i - 12 - ?n := b]" ?c2 e] list_update_neq [of "i - 12 - ?n" ?c2 b]
      by auto
  qed
qed

end



section \<open>The truncation bit\<close>

lemma head_byte_truncated: "head_byte p OR 0x20 = head_byte (p\<lparr>p_tr := 1\<rparr>)"
proof (rule bit_word_eqI)
  fix n :: nat
  have m: "(0x20 :: u8) = push_bit 5 1" by simp
  have t: "bit (p_tr p) k \<Longrightarrow> k = 0" for k
    using bit_imp_le_length [of "p_tr p" k] by simp
  consider "n < 5" | "n = 5" | "5 < n" by linarith
  then show "bit (head_byte p OR 0x20) n = bit (head_byte (p\<lparr>p_tr := 1\<rparr>)) n"
    if "n < LENGTH(8)"
    using that unfolding head_byte_def m
    by cases (auto simp: bit_simps dest: t)
qed

lemma head_byte_tr_neq: "p_tr p = 0 \<Longrightarrow> head_byte (p\<lparr>p_tr := 1\<rparr>) \<noteq> head_byte p"
  by (metis head_tr zero_neq_one pkt.select_convs(2) pkt.surjective pkt.update_convs(2))

lemma truncated_wire_rejected:
  assumes "checksum crc" "sendable crc p pl"
  shows "\<exists>st q'. pkt_decode crc e ok
      (Some ((hd (data_wire crc e p pl) OR 0x20) # take 11 (tl (data_wire crc e p pl)) @ junk))
      12 q = Some (st, q') \<and> st \<in> {E_CRC, E_LENGTH}"
proof -
  let ?h = "data_header e p" and ?p = "p\<lparr>p_tr := 1\<rparr>"
  have p: "p_type p = 1" "p_tr p = 0" using assms(2) by (auto simp: sendable_def)
  have h: "?h = head_byte p # tl ?h" by (simp add: data_header_def)
  have len: "length (tl ?h) = 7" by simp
  let ?hs = "head_byte ?p # tl ?h"
  have "crc ?hs \<noteq> crc (head_byte p # tl ?h)"
    using checksum.one_byte_hd [OF assms(1)] head_byte_tr_neq [OF p(2)] by blast
  then have "ntohl e (load32 e (rev (le32 (crc ?h)))) \<noteq> crc ?hs" using h by simp
  then have "\<exists>st q'. pkt_decode crc e ok (Some (?hs @ rev (le32 (crc ?h)) @ junk)) 12 q
      = Some (st, q') \<and> st \<in> {E_CRC, E_LENGTH}"
    using p len by (intro pkt_decode_bad_header [where p = ?p]) simp_all
  moreover have "(hd (data_wire crc e p pl) OR 0x20) # take 11 (tl (data_wire crc e p pl)) @ junk
      = ?hs @ rev (le32 (crc ?h)) @ junk"
    using len by (simp add: data_wire_def head_byte_truncated [symmetric]) (simp add: data_header_def)
  ultimately show ?thesis by simp
qed



text \<open>Encoding an empty truncated data packet reports success but leaves the length it
  should return untouched (the other successful paths all store it).\<close>

theorem encode_truncated_keeps_len:
  assumes "p_type p = 1" "p_tr p = 1" "p_length p = 0" "12 \<le> length b"
  shows "pkt_encode crc e (Some p) (Some b) (Some n) =
    Some (PKT_OK, Some (eof_wire crc e p @ drop 12 b), Some n)"
  using assms by (simp add: pkt_encode_eof)

theorem encode_truncated_keeps_len_witness:
  "pkt_encode crc32 Little (Some (demo_pkt\<lparr>p_tr := 1, p_length := 0\<rparr>))
      (Some (replicate 12 0)) (Some 99) =
    Some (PKT_OK, Some (eof_wire crc32 Little (demo_pkt\<lparr>p_tr := 1, p_length := 0\<rparr>)), Some 99)"
  using encode_truncated_keeps_len [of "demo_pkt\<lparr>p_tr := 1, p_length := 0\<rparr>" "replicate 12 0"
      crc32 Little 99]
  by (simp add: demo_pkt_def)

section \<open>Error codes and memory accesses\<close>

text \<open>The only codes \<open>pkt_decode\<close> returns for received data are success, a bad type, a bad
  length, a wrong checksum and lack of memory: the other codes of \<open>pkt_status_code\<close> never
  occur, and in particular an acknowledgement with the TR bit set is accepted, the test
  for it coming after the return for acknowledgements.\<close>

theorem decode_status_codes:
  assumes "pkt_decode crc e ok (Some m) len q = Some (st, p)"
  shows "st \<in> {PKT_OK, E_TYPE, E_LENGTH, E_CRC, E_NOMEM} \<and> (ok \<longrightarrow> st \<noteq> E_NOMEM)"
  using assms
  by (auto simp: decode_unfold bind_eq_Some_conv split: if_splits prod.splits)

theorem decode_status_codes_witness:
  "pkt_decode crc32 Little True (Some []) 9 zero_pkt = Some (E_LENGTH, zero_pkt) \<and>
    E_LENGTH \<in> {PKT_OK, E_TYPE, E_LENGTH, E_CRC, E_NOMEM}"
proof -
  have d: "pkt_decode crc32 Little True (Some []) 9 zero_pkt = Some (E_LENGTH, zero_pkt)"
    by (simp add: pkt_decode_def)
  from decode_status_codes [OF d] d show ?thesis by blast
qed

text \<open>With a receive buffer of \<open>MAX_PKT_SIZE\<close> = 528 bytes, as in the receiver, decoding never
  reads outside the buffer, whatever was received and whatever its length is said to be.\<close>

theorem decode_in_bounds:
  assumes "length m = MAX_PKT_SIZE"
  shows "\<exists>st p. pkt_decode crc e ok (Some m) len q = Some (st, p)"
  using assms
  by (auto simp: decode_unfold split: if_splits prod.splits)

theorem decode_in_bounds_witness:
  "\<exists>st p. pkt_decode crc32 Little True (Some (replicate 528 64)) 11 zero_pkt = Some (st, p)"
  by (rule decode_in_bounds) simp

text \<open>C25. The sender's buffer for acknowledgements has only \<open>ACK_SIZE\<close> = 10 bytes, and the decoder
  does not check the number of bytes received against the kind of segment: a datagram
  whose first byte says DATA and whose length field is in range makes it read past the
  end of that buffer.\<close>

theorem ack_buffer_overread:
  assumes "length m = 10" "hd m AND 0xC0 = 0x40"
    "unat (ntohs e (load16 e (take 2 (drop 1 m)))) \<le> MAX_PAYLOAD_SIZE"
  shows "pkt_decode crc e ok (Some m) 10 q = None"
proof -
  have "take 1 m = [hd m]" using assms(1) by (cases m) auto
  moreover have "drop_bit 6 (hd m AND 0xC0) = 1" unfolding assms(2) by simp
  then have "drop_bit 6 (hd m) AND 3 = 1" by simp
  ultimately show ?thesis using assms(1,3) by (simp add: decode_unfold)
qed

theorem ack_buffer_overread_witness:
  "pkt_decode crc32 Little True (Some [0x40, 0, 1, 0, 0, 0, 0, 0, 0, 0]) 10 zero_pkt = None"
proof (rule ack_buffer_overread)
  show "unat (ntohs Little (load16 Little (take 2 (drop 1 [0x40, 0, 1, 0, 0, 0, 0, 0, 0, 0]))))
      \<le> MAX_PAYLOAD_SIZE"
    by code_simp
qed simp_all

text \<open>\<open>pkt_encode\<close> ignores the capacity its caller passes in \<open>*len\<close>: it stays inside the
  output array exactly when the array has room for the whole segment (16 bytes and the
  payload for a data packet, 10 bytes for an acknowledgement), and never answers
  \<open>E_NOMEM\<close> for a short one, as \<open>packet.h\<close> says it does.\<close>

theorem encode_in_bounds_iff:
  "(sendable crc p pl \<longrightarrow>
      (pkt_encode crc e (Some p) (Some b) (Some n) = None \<longleftrightarrow> length b < 16 + length pl)) \<and>
   (p_type p \<noteq> 1 \<and> p_tr p = 0 \<longrightarrow>
      (pkt_encode crc e (Some p) (Some b) (Some n) = None \<longleftrightarrow> length b < 10))"
proof (intro conjI impI)
  assume snd: "sendable crc p pl"
  then have p: "p_type p = 1" "p_tr p = 0" "p_payload p = Some pl" "unat (p_length p) = length pl"
    "pl \<noteq> []" "length pl \<le> MAX_PAYLOAD_SIZE"
    by (auto simp: sendable_def)
  have "pkt_encode crc e (Some p) (Some b) (Some n) = None" if "\<not> 16 + length pl \<le> length b"
    by (rule ccontr) (use that p snd length_pos_iff [OF p(4)] in
      \<open>auto simp: pkt_encode_def pkt_get_tr_def ucast_type_eq Let_def pkt_get_length_def
        pkt_get_payload_def write_bytes_def read_bytes_def sendable_def split: if_splits\<close>)
  then show "pkt_encode crc e (Some p) (Some b) (Some n) = None \<longleftrightarrow> length b < 16 + length pl"
    using pkt_encode_data [OF snd, of b e n]
    by (cases "16 + length pl \<le> length b") (simp_all del: not_None_eq)
next
  assume p: "p_type p \<noteq> 1 \<and> p_tr p = 0"
  have "pkt_encode crc e (Some p) (Some b) (Some n) = None" if "\<not> 10 \<le> length b"
    by (rule ccontr) (use that p in
      \<open>auto simp: pkt_encode_def pkt_get_tr_def ucast_type_eq Let_def write_bytes_def
        read_bytes_def split: if_splits\<close>)
  then show "pkt_encode crc e (Some p) (Some b) (Some n) = None \<longleftrightarrow> length b < 10"
    using p pkt_encode_ack [of p b crc e n]
    by (cases "10 \<le> length b") (simp_all del: not_None_eq)
qed

theorem encode_in_bounds_iff_witness:
  "pkt_encode crc32 Little (Some demo_pkt) (Some (replicate 18 0)) (Some 18) = None \<and>
   pkt_encode crc32 Little (Some (demo_pkt\<lparr>p_type := 2\<rparr>)) (Some (replicate 10 0)) (Some 10) \<noteq> None"
proof
  show "pkt_encode crc32 Little (Some demo_pkt) (Some (replicate 18 0)) (Some 18) = None"
    using encode_in_bounds_iff [of crc32 demo_pkt "[83, 97, 108]" Little "replicate 18 0" 18]
      demo_sendable by simp
  show "pkt_encode crc32 Little (Some (demo_pkt\<lparr>p_type := 2\<rparr>)) (Some (replicate 10 0)) (Some 10)
      \<noteq> None"
    using encode_in_bounds_iff
      [of crc32 "demo_pkt\<lparr>p_type := 2\<rparr>" "[]" Little "replicate 10 0" 10]
    by (simp add: demo_pkt_def del: not_None_eq)
qed

text \<open>The timestamp, unlike the length and the checksums, travels in the byte order of the
  host, not in network order: a receiver of the other byte order accepts the packet with
  the timestamp's bytes reversed and everything else intact.\<close>

theorem timestamp_in_host_order:
  assumes "sendable crc p pl"
  shows "pkt_decode crc Big True (Some (data_wire crc Little p pl @ junk)) (16 + length pl) q =
    Some (PKT_OK, p\<lparr>p_timestamp := htonl Little (p_timestamp p),
      p_crc1 := crc (data_header Little p), p_crc2 := crc pl\<rparr>)"
proof -
  let ?p = "p\<lparr>p_timestamp := htonl Little (p_timestamp p)\<rparr>"
  have "store32 Big (htonl Little (p_timestamp p)) = store32 Little (p_timestamp p)"
    by (simp add: store32_def htonl_def le32_of_le32)
  then have h: "data_header Big ?p = data_header Little p"
    by (simp add: data_header_def head_byte_def)
  have "sendable crc ?p pl" using assms by (simp add: sendable_def)
  from decode_data_wire [OF this, of Big junk q] h show ?thesis
    by (simp add: data_wire_def)
qed

theorem timestamp_in_host_order_witness:
  "pkt_decode crc32 Big True (Some (data_wire crc32 Little demo_pkt [83, 97, 108] @ []))
      (16 + length [83 :: byte, 97, 108]) zero_pkt =
    Some (PKT_OK, demo_pkt\<lparr>p_timestamp := htonl Little (p_timestamp demo_pkt),
      p_crc1 := crc32 (data_header Little demo_pkt), p_crc2 := crc32 [83, 97, 108]\<rparr>)"
  by (rule timestamp_in_host_order [OF demo_sendable])

section \<open>Setters\<close>

lemma ucast_small:
  assumes "unat (w :: 'a::len word) < 2 ^ LENGTH('b::len)" "LENGTH('b) \<le> LENGTH('a)"
  shows "ucast (ucast w :: 'b word) = w"
proof -
  have "unat (ucast (ucast w :: 'b word) :: 'a word) = unat (ucast w :: 'b word)"
    using assms(2) by (rule unat_ucast_up)
  also have "\<dots> = take_bit LENGTH('b) (unat w)" by (rule unsigned_ucast_eq)
  also have "\<dots> = unat w" using assms(1) by (simp only: take_bit_nat_eq_self)
  finally show ?thesis by (simp only: word_unat_eq_iff)
qed

text \<open>Each checking setter succeeds exactly on the values the field may have, a value it
  accepts is read back unchanged (the bit-fields lose nothing), and a refused value leaves
  the field as it was.\<close>

theorem setters_validate:
  "(fst (pkt_set_type p t) = PKT_OK \<longleftrightarrow> t \<in> {PTYPE_DATA, PTYPE_ACK, PTYPE_NACK}) \<and>
   pkt_get_type (snd (pkt_set_type p t)) =
     (if t \<in> {PTYPE_DATA, PTYPE_ACK, PTYPE_NACK} then t else pkt_get_type p) \<and>
   pkt_get_window (snd (pkt_set_window p w)) =
     (if fst (pkt_set_window p w) = PKT_OK then w else pkt_get_window p) \<and>
   pkt_get_tr (snd (pkt_set_tr p r)) = (if r \<le> 1 then r else pkt_get_tr p)"
proof -
  have cases: "\<not> (t < 1 \<or> t > 3) \<longleftrightarrow> t \<in> {PTYPE_DATA, PTYPE_ACK, PTYPE_NACK}"
  proof -
    have "\<not> (t < 1 \<or> t > 3) \<longleftrightarrow> unat t = 1 \<or> unat t = 2 \<or> unat t = 3"
      by (auto simp: word_less_nat_alt)
    then show ?thesis by (auto simp: word_unat_eq_iff)
  qed
  have "fst (pkt_set_type p t) = PKT_OK \<longleftrightarrow> t \<in> {PTYPE_DATA, PTYPE_ACK, PTYPE_NACK}"
    using cases by (auto simp: pkt_set_type_def)
  moreover have "pkt_get_type (snd (pkt_set_type p t)) =
      (if t \<in> {PTYPE_DATA, PTYPE_ACK, PTYPE_NACK} then t else pkt_get_type p)"
    using cases by (auto simp: pkt_set_type_def pkt_get_type_def)
  moreover have "pkt_get_window (snd (pkt_set_window p w)) =
      (if fst (pkt_set_window p w) = PKT_OK then w else pkt_get_window p)"
    by (simp add: pkt_set_window_def pkt_get_window_def ucast_small)
  moreover have "pkt_get_tr (snd (pkt_set_tr p r)) = (if r \<le> 1 then r else pkt_get_tr p)"
    by (auto simp: pkt_set_tr_def pkt_get_tr_def ucast_small word_le_nat_alt word_less_nat_alt)
  ultimately show ?thesis by blast
qed

text \<open>\<open>pkt_set_payload\<close> with at most 512 bytes, memory available and that many bytes to copy
  succeeds, sets the length to the number of bytes and the payload to a copy of them, and
  changes no other field; the getter then returns the payload, or a null pointer when it
  is empty.\<close>

theorem set_payload_post:
  assumes "unat n \<le> MAX_PAYLOAD_SIZE" "unat n \<le> length d"
  shows "\<exists>q. pkt_set_payload True p (Some d) n = Some (PKT_OK, q) \<and>
      pkt_get_length q = n \<and>
      pkt_get_payload q = (if n = 0 then None else Some (take (unat n) d)) \<and>
      q = p\<lparr>p_length := n, p_payload := Some (take (unat n) d)\<rparr>"
  using assms
  by (simp add: pkt_set_payload_def pkt_set_length_def read_bytes_def pkt_get_length_def
      pkt_get_payload_def)

theorem set_payload_post_witness:
  "\<exists>q. pkt_set_payload True zero_pkt (Some [1, 2, 3]) 2 = Some (PKT_OK, q) \<and>
      pkt_get_length q = 2 \<and> pkt_get_payload q = (if (2::u16) = 0 then None else Some [1, 2]) \<and>
      q = zero_pkt\<lparr>p_length := 2, p_payload := Some [1, 2]\<rparr>"
  using set_payload_post [of 2 "[1, 2, 3]" zero_pkt] by simp

end
