(* ===== verification/Buffer.thy ===== *)
theory Buffer
  imports Packet
begin

text \<open>
  The packet buffer of both programs: \<open>src/src/buffer/buffer.c\<close>, a circular doubly linked
  list whose nodes point to packets.

  The heap of the C program is an explicit store: \<open>nodes\<close> and \<open>pkts\<close> map the addresses of
  live nodes and packets to their contents, \<open>stale\<close> keeps what a node held when it was
  freed (the receiver reads one such node, see \<open>Receiver\<close>). A pointer is an
  \<open>addr option\<close>, \<open>None\<close> the null pointer. An operation is \<open>None\<close> when it dereferences a
  null or dangling pointer or does not return. \<open>malloc\<close>'s result is an argument
  of the operation that allocates.
\<close>

section \<open>Nodes, buffers and the heap\<close>

type_synonym addr = nat

record node =
  n_next :: "addr option"
  n_prev :: "addr option"
  n_pkt :: addr

record buffer =
  b_first :: "addr option"
  b_last :: "addr option"
  b_size :: nat

record heap =
  nodes :: "addr \<rightharpoonup> node"
  stale :: "addr \<rightharpoonup> node"
  pkts :: "addr \<rightharpoonup> pkt"

definition node_at :: "heap \<Rightarrow> addr option \<Rightarrow> node option" where
  "node_at h p = (case p of None \<Rightarrow> None | Some a \<Rightarrow> nodes h a)"

text \<open>\<open>pkt_get_seqnum(p->pkt)\<close>\<close>

definition node_seq :: "heap \<Rightarrow> addr option \<Rightarrow> u8 option" where
  "node_seq h p = do { n \<leftarrow> node_at h p; q \<leftarrow> pkts h (n_pkt n); Some (pkt_get_seqnum q) }"

text \<open>\<open>p->next = v\<close> and \<open>p->prev = v\<close>\<close>

definition set_next :: "addr option \<Rightarrow> addr option \<Rightarrow> heap \<Rightarrow> heap option" where
  "set_next p v h = (case p of None \<Rightarrow> None | Some a \<Rightarrow>
     do { n \<leftarrow> nodes h a; Some (h\<lparr>nodes := (nodes h)(a \<mapsto> n\<lparr>n_next := v\<rparr>)\<rparr>) })"

definition set_prev :: "addr option \<Rightarrow> addr option \<Rightarrow> heap \<Rightarrow> heap option" where
  "set_prev p v h = (case p of None \<Rightarrow> None | Some a \<Rightarrow>
     do { n \<leftarrow> nodes h a; Some (h\<lparr>nodes := (nodes h)(a \<mapsto> n\<lparr>n_prev := v\<rparr>)\<rparr>) })"

definition node_free :: "heap \<Rightarrow> addr option \<Rightarrow> heap option" where
  "node_free h p = (case p of None \<Rightarrow> Some h | Some a \<Rightarrow>
     do { n \<leftarrow> nodes h a;
          Some (h\<lparr>nodes := (nodes h)(a := None), stale := (stale h)(a \<mapsto> n)\<rparr>) })"

text \<open>\<open>pkt_del\<close> of \<open>packet.c\<close>; the payload goes with the packet that owns it.\<close>

definition pkt_del :: "heap \<Rightarrow> addr option \<Rightarrow> heap option" where
  "pkt_del h p = (case p of None \<Rightarrow> Some h | Some a \<Rightarrow>
     do { _ \<leftarrow> pkts h a; Some (h\<lparr>pkts := (pkts h)(a := None)\<rparr>) })"

definition buffer_init :: buffer where
  "buffer_init = \<lparr>b_first = None, b_last = None, b_size = 0\<rparr>"

definition buffer_size :: "buffer \<Rightarrow> nat" where
  "buffer_size b = b_size b"

section \<open>Insertion\<close>

text \<open>The forward scan, from the first node, of a packet of the end of the cycle.\<close>

partial_function (option) enq_forward ::
  "heap \<Rightarrow> u8 \<Rightarrow> bool \<Rightarrow> addr option \<Rightarrow> addr option option" where
  "enq_forward h s first current = do {
     n \<leftarrow> node_at h current;
     q \<leftarrow> node_seq h (n_next n);
     if s > q \<and> \<not> first \<and> \<not> (q < 50 \<and> s > 205)
     then enq_forward h s first (n_next n)
     else Some current
   }"

text \<open>The backward scan, from the last node; the flag says to insert before the first.\<close>

partial_function (option) enq_backward ::
  "heap \<Rightarrow> buffer \<Rightarrow> u8 \<Rightarrow> addr option \<Rightarrow> (bool \<times> addr option) option" where
  "enq_backward h b s current = do {
     q \<leftarrow> node_seq h current;
     if s < q \<and> \<not> (q > 205 \<and> s < 50) then do {
       n \<leftarrow> node_at h current;
       if n_prev n = b_first b then do {
         f \<leftarrow> node_seq h (b_first b);
         Some (s < f, n_prev n)
       } else enq_backward h b s (n_prev n)
     } else Some (False, current)
   }"

definition enq_place ::
  "heap \<Rightarrow> buffer \<Rightarrow> u8 \<Rightarrow> (bool \<times> addr option) option" where
  "enq_place h b s = do {
     l \<leftarrow> node_seq h (b_last b);
     if l < 50 \<and> s > 205 then do {
       f \<leftarrow> node_seq h (b_first b);
       let first = (s < f \<or> (s > f \<and> f < 50));
       c \<leftarrow> enq_forward h s first (b_first b);
       Some (first, c)
     } else enq_backward h b s (b_last b)
   }"

definition buffer_enqueue ::
  "heap \<Rightarrow> buffer \<Rightarrow> addr \<Rightarrow> addr option \<Rightarrow> (int \<times> heap \<times> buffer) option" where
  "buffer_enqueue h b p newNode =
     (case newNode of None \<Rightarrow> Some (-1, h, b)
      | Some nn \<Rightarrow> do {
        let h = h\<lparr>nodes := (nodes h)(nn \<mapsto> \<lparr>n_next = None, n_prev = None, n_pkt = p\<rparr>)\<rparr>;
        (h, b) \<leftarrow>
          (if b_size b = 0 then do {
             h \<leftarrow> set_next newNode newNode h;
             h \<leftarrow> set_prev newNode newNode h;
             Some (h, b\<lparr>b_first := newNode, b_last := newNode\<rparr>)
           } else do {
             q \<leftarrow> pkts h p;
             (first, current) \<leftarrow> enq_place h b (pkt_get_seqnum q);
             if first then do {
               c \<leftarrow> node_at h current;
               h \<leftarrow> set_prev newNode (n_prev c) h;
               h \<leftarrow> set_next newNode current h;
               c \<leftarrow> node_at h current;
               h \<leftarrow> set_next (n_prev c) newNode h;
               h \<leftarrow> set_prev current newNode h;
               Some (h, b\<lparr>b_first := newNode\<rparr>)
             } else do {
               c \<leftarrow> node_at h current;
               h \<leftarrow> set_next newNode (n_next c) h;
               h \<leftarrow> set_prev newNode current h;
               c \<leftarrow> node_at h current;
               h \<leftarrow> set_prev (n_next c) newNode h;
               h \<leftarrow> set_next current newNode h;
               Some (h, if current = b_last b then b\<lparr>b_last := newNode\<rparr> else b)
             }
           });
        Some (0, h, b\<lparr>b_size := b_size b + 1\<rparr>)
      })"

section \<open>Removal\<close>

text \<open>\<open>p->prev->next = p->next; p->next->prev = p->prev\<close>\<close>

definition unlink :: "addr option \<Rightarrow> heap \<Rightarrow> heap option" where
  "unlink p h = do {
     c \<leftarrow> node_at h p;
     h \<leftarrow> set_next (n_prev c) (n_next c) h;
     c \<leftarrow> node_at h p;
     set_prev (n_next c) (n_prev c) h
   }"

definition buffer_remove_first ::
  "heap \<Rightarrow> buffer option \<Rightarrow> (addr option \<times> heap \<times> buffer option) option" where
  "buffer_remove_first h bo =
     (case bo of None \<Rightarrow> Some (None, h, bo)
      | Some b \<Rightarrow>
        if b_size b = 0 then Some (None, h, bo)
        else do {
          let current = b_first b;
          c \<leftarrow> node_at h current;
          if b_size b \<le> 1 then do {
            h \<leftarrow> node_free h current;
            Some (Some (n_pkt c), h, Some (b\<lparr>b_first := None, b_last := None, b_size := 0\<rparr>))
          } else do {
            h \<leftarrow> unlink current h;
            f \<leftarrow> node_at h (b_first b);
            let b = b\<lparr>b_first := n_next f\<rparr>;
            c \<leftarrow> node_at h current;
            h \<leftarrow> node_free h current;
            Some (Some (n_pkt c), h, Some (b\<lparr>b_size := b_size b - 1\<rparr>))
          }
        })"

text \<open>The search: \<open>None\<close> inside the result when the scan is back at the first node.\<close>

partial_function (option) find_node ::
  "heap \<Rightarrow> buffer \<Rightarrow> u8 \<Rightarrow> addr option \<Rightarrow> addr option option" where
  "find_node h b s current = do {
     q \<leftarrow> node_seq h current;
     if q \<noteq> s then do {
       n \<leftarrow> node_at h current;
       if n_next n = b_first b then Some None else find_node h b s (n_next n)
     } else Some current
   }"

definition buffer_remove ::
  "heap \<Rightarrow> buffer \<Rightarrow> u8 \<Rightarrow> (addr option \<times> heap \<times> buffer) option" where
  "buffer_remove h b s =
     (case b_first b of None \<Rightarrow> Some (None, h, b)
      | Some _ \<Rightarrow> do {
        found \<leftarrow> find_node h b s (b_first b);
        (case found of None \<Rightarrow> Some (None, h, b)
         | Some _ \<Rightarrow>
           let current = found in
           if current = b_first b \<and> b_size b \<le> 1 then do {
             c \<leftarrow> node_at h current;
             h \<leftarrow> node_free h current;
             Some (Some (n_pkt c), h, b\<lparr>b_first := None, b_last := None, b_size := 0\<rparr>)
           } else do {
             h \<leftarrow> unlink current h;
             b \<leftarrow> (if current = b_first b then do {
                      f \<leftarrow> node_at h (b_first b);
                      Some (b\<lparr>b_first := n_next f\<rparr>)
                    } else if current = b_last b then do {
                      l \<leftarrow> node_at h (b_last b);
                      Some (b\<lparr>b_last := n_prev l\<rparr>)
                    } else Some b);
             let b = b\<lparr>b_size := b_size b - 1\<rparr>;
             let b = (if b_size b = 0 then b\<lparr>b_first := None, b_last := None\<rparr> else b);
             h \<leftarrow> set_next current None h;
             h \<leftarrow> set_prev current None h;
             c \<leftarrow> node_at h current;
             h \<leftarrow> node_free h current;
             Some (Some (n_pkt c), h, b)
           })
      })"

section \<open>Queries\<close>

fun is_in_loop :: "heap \<Rightarrow> u8 \<Rightarrow> nat \<Rightarrow> addr option \<Rightarrow> bool option" where
  "is_in_loop h s 0 current = Some False"
| "is_in_loop h s (Suc k) current = do {
     q \<leftarrow> node_seq h current;
     if q = s then Some True
     else do { n \<leftarrow> node_at h current; is_in_loop h s k (n_next n) }
   }"

definition is_in_buffer :: "heap \<Rightarrow> buffer option \<Rightarrow> u8 \<Rightarrow> bool option" where
  "is_in_buffer h bo s =
     (case bo of None \<Rightarrow> Some False
      | Some b \<Rightarrow> if b_size b = 0 then Some False
                  else is_in_loop h s (buffer_size b) (b_first b))"

definition buffer_get_pkt :: "heap \<Rightarrow> buffer \<Rightarrow> u8 \<Rightarrow> addr option option" where
  "buffer_get_pkt h b s =
     (if b_size b = 0 then Some None
      else do {
        found \<leftarrow> find_node h b s (b_first b);
        (case found of None \<Rightarrow> Some None
         | Some _ \<Rightarrow> do { c \<leftarrow> node_at h found; Some (Some (n_pkt c)) })
      })"

fun unsended_loop :: "heap \<Rightarrow> nat \<Rightarrow> addr option \<Rightarrow> addr option option" where
  "unsended_loop h 0 cur = Some None"
| "unsended_loop h (Suc k) cur = do {
     c \<leftarrow> node_at h cur;
     q \<leftarrow> pkts h (n_pkt c);
     if pkt_get_timestamp q = 0 then Some (Some (n_pkt c))
     else unsended_loop h k (n_next c)
   }"

definition look_for_unsended_packet :: "heap \<Rightarrow> buffer option \<Rightarrow> addr option option" where
  "look_for_unsended_packet h bo =
     (case bo of None \<Rightarrow> Some None
      | Some b \<Rightarrow> if b_size b = 0 then Some None
                  else unsended_loop h (b_size b) (b_first b))"

section \<open>Acknowledged packets and disposal\<close>

partial_function (option) acked_loop ::
  "u8 \<Rightarrow> nat \<Rightarrow> heap \<Rightarrow> buffer \<Rightarrow> (nat \<times> heap \<times> buffer) option" where
  "acked_loop s count h b = do {
     q \<leftarrow> node_seq h (b_first b);
     if s \<noteq> q then do {
       (r, h, b) \<leftarrow> buffer_remove h b q;
       h \<leftarrow> pkt_del h r;
       if b_size b = 0 then Some (count + 1, h, b)
       else acked_loop s (count + 1) h b
     } else Some (count, h, b)
   }"

definition buffer_remove_acked ::
  "heap \<Rightarrow> buffer \<Rightarrow> u8 \<Rightarrow> (nat \<times> heap \<times> buffer) option" where
  "buffer_remove_acked h b s =
     (if b_size b = 0 then Some (0, h, b)
      else do {
        present \<leftarrow> is_in_buffer h (Some b) s;
        if \<not> present then Some (0, h, b) else acked_loop s 0 h b
      })"

text \<open>The result is the heap and the size found at the end (the buffer itself is freed).\<close>

partial_function (option) buffer_free :: "heap \<Rightarrow> buffer \<Rightarrow> (heap \<times> nat) option" where
  "buffer_free h b =
     (case b_first b of None \<Rightarrow> Some (h, buffer_size b)
      | Some _ \<Rightarrow> do {
        q \<leftarrow> node_seq h (b_first b);
        (r, h, b) \<leftarrow> buffer_remove h b q;
        h \<leftarrow> pkt_del h r;
        buffer_free h b
      })"

text \<open>The sequence numbers and the size \<open>buffer_print\<close> prints.\<close>

fun print_loop :: "heap \<Rightarrow> nat \<Rightarrow> addr option \<Rightarrow> u8 list option" where
  "print_loop h 0 current = Some []"
| "print_loop h (Suc k) current = do {
     q \<leftarrow> node_seq h current;
     n \<leftarrow> node_at h current;
     qs \<leftarrow> print_loop h k (n_next n);
     Some (q # qs)
   }"

definition buffer_print :: "heap \<Rightarrow> buffer \<Rightarrow> (u8 list \<times> nat) option" where
  "buffer_print h b = do { qs \<leftarrow> print_loop h (b_size b) (b_first b); Some (qs, b_size b) }"

end
