(* ===== verification/Buffer_Refine.thy ===== *)
theory Buffer_Refine
  imports Buffer
begin

text \<open>
  The circular doubly linked list implements a list. \<open>dseg\<close> describes a doubly linked
  segment, \<open>ring\<close> a cycle of one, \<open>rep h b as\<close> that buffer \<open>b\<close> holds the nodes \<open>as\<close> in
  order. Every operation of \<open>Buffer\<close> on a represented buffer is defined, keeps the
  representation and acts on the list of packet pointers as the corresponding list
  function of this theory.
\<close>

section \<open>Doubly linked segments and rings\<close>

fun dseg :: "(addr \<rightharpoonup> node) \<Rightarrow> addr \<Rightarrow> addr list \<Rightarrow> addr \<Rightarrow> bool" where
  "dseg m p [] q = True"
| "dseg m p (a # as) q =
     (\<exists>n. m a = Some n \<and> n_prev n = Some p \<and> n_next n = Some (hd (as @ [q])) \<and> dseg m a as q)"

lemma dseg_append:
  "dseg m p (xs @ ys) q \<longleftrightarrow> dseg m p xs (hd (ys @ [q])) \<and> dseg m (last (p # xs)) ys q"
proof (induction xs arbitrary: p)
  case (Cons a xs)
  then show ?case by (cases xs) auto
qed simp

lemma dseg_upd [simp]: "a \<notin> set xs \<Longrightarrow> dseg (m(a := v)) p xs q = dseg m p xs q"
  by (induction m p xs q rule: dseg.induct) auto

lemma dseg_dom: "dseg m p xs q \<Longrightarrow> set xs \<subseteq> dom m"
  by (induction m p xs q rule: dseg.induct) auto

definition ring :: "(addr \<rightharpoonup> node) \<Rightarrow> addr list \<Rightarrow> bool" where
  "ring m as \<longleftrightarrow> distinct as \<and> (as \<noteq> [] \<longrightarrow> dseg m (last as) as (hd as))"

text \<open>A ring has no distinguished node.\<close>

lemma ring_rotate: "ring m (xs @ ys) \<Longrightarrow> ring m (ys @ xs)"
  by (cases "xs = []"; cases "ys = []") (auto simp: ring_def dseg_append)

lemma ring_dom: "ring m as \<Longrightarrow> set as \<subseteq> dom m"
  by (cases "as = []") (auto simp: ring_def dest: dseg_dom)

lemma ring_hd:
  assumes "ring m (a # as)"
  shows "\<exists>n. m a = Some n \<and> n_prev n = Some (last (a # as)) \<and> n_next n = Some (hd (as @ [a]))"
  using assms by (auto simp: ring_def)

lemma ring_node:
  assumes "ring m (xs @ a # ys)"
  shows "\<exists>n. m a = Some n \<and> n_prev n = Some (last (a # ys @ xs)) \<and> n_next n = Some (hd (ys @ xs @ [a]))"
  using ring_hd [of m a "ys @ xs"] ring_rotate [OF assms] by simp

text \<open>Redirecting the two ends of a segment.\<close>

lemma dseg_relink:
  assumes "dseg m p as q" "distinct as"
    "\<And>a. a \<in> set as \<Longrightarrow>
       map_option n_next (m' a) = (if a = last as then Some (Some q') else map_option n_next (m a))"
    "\<And>a. a \<in> set as \<Longrightarrow>
       map_option n_prev (m' a) = (if a = hd as then Some (Some p') else map_option n_prev (m a))"
  shows "dseg m' p' as q'"
  using assms
proof (induction as arbitrary: p p')
  case (Cons a as)
  from Cons.prems(1) obtain n where n: "m a = Some n" "n_next n = Some (hd (as @ [q]))" "dseg m a as q"
    by auto
  obtain n' where n': "m' a = Some n'" "n_prev n' = Some p'"
    using Cons.prems(4) [of a] by auto
  have "as \<noteq> [] \<Longrightarrow> last as \<noteq> a" using Cons.prems(2) last_in_set by fastforce
  then have nx: "n_next n' = Some (hd (as @ [q']))"
    using Cons.prems(3) [of a] n n' by (cases "as = []") (auto split: if_splits)
  have "dseg m' a as q'"
  proof (cases as)
    case (Cons b bs)
    show ?thesis
    proof (rule Cons.IH [OF n(3)])
      fix x assume x: "x \<in> set as"
      then have "x \<noteq> a" using Cons.prems(2) by auto
      then show "map_option n_next (m' x) = (if x = last as then Some (Some q') else map_option n_next (m x))"
        "map_option n_prev (m' x) = (if x = hd as then Some (Some a) else map_option n_prev (m x))"
        using Cons.prems(3,4) [of x] x n(3) Cons by auto
    qed (use Cons.prems(2) in auto)
  qed simp
  with n' nx show ?case by simp
qed simp

lemma ring_insert:
  assumes "ring m R" "R \<noteq> []" "nn \<notin> set R"
    "m' nn = Some n" "n_prev n = Some (last R)" "n_next n = Some (hd R)"
    "\<And>a. a \<in> set R \<Longrightarrow>
       map_option n_next (m' a) = (if a = last R then Some (Some nn) else map_option n_next (m a))"
    "\<And>a. a \<in> set R \<Longrightarrow>
       map_option n_prev (m' a) = (if a = hd R then Some (Some nn) else map_option n_prev (m a))"
  shows "ring m' (R @ [nn])"
proof -
  have "dseg m (last R) R (hd R)" "distinct R" using assms(1,2) by (simp_all add: ring_def)
  then have "dseg m' nn R nn" using assms(7,8) by (rule dseg_relink)
  moreover have "hd (R @ [nn]) = hd R" using assms(2) by simp
  ultimately show ?thesis
    using assms(2-6) \<open>distinct R\<close> by (simp add: ring_def dseg_append)
qed

lemma ring_remove:
  assumes "ring m (a # R)" "R \<noteq> []"
    "\<And>x. x \<in> set R \<Longrightarrow>
       map_option n_next (m' x) = (if x = last R then Some (Some (hd R)) else map_option n_next (m x))"
    "\<And>x. x \<in> set R \<Longrightarrow>
       map_option n_prev (m' x) = (if x = hd R then Some (Some (last R)) else map_option n_prev (m x))"
  shows "ring m' R"
proof -
  have "dseg m a R a" "distinct R" using assms(1,2) by (auto simp: ring_def)
  then have "dseg m' (last R) R (hd R)" using assms(3,4) by (rule dseg_relink)
  then show ?thesis using \<open>distinct R\<close> by (simp add: ring_def)
qed

section \<open>The pointer updates of insertion and removal\<close>

lemma link_before:
  assumes "ring (nodes h) R" "R \<noteq> []" "nn \<notin> set R" "nodes h nn = Some n0" "cur = Some (hd R)"
  shows "\<exists>h'. do {
      c \<leftarrow> node_at h cur;
      h \<leftarrow> set_prev (Some nn) (n_prev c) h;
      h \<leftarrow> set_next (Some nn) cur h;
      c \<leftarrow> node_at h cur;
      h \<leftarrow> set_next (n_prev c) (Some nn) h;
      set_prev cur (Some nn) h } = Some h' \<and>
    ring (nodes h') (R @ [nn]) \<and> stale h' = stale h \<and> pkts h' = pkts h \<and>
    (\<forall>a. map_option n_pkt (nodes h' a) = map_option n_pkt (nodes h a))"
proof -
  obtain a as where R: "R = a # as" using assms(2) by (cases R) auto
  obtain ca where ca: "nodes h a = Some ca" "n_prev ca = Some (last R)" "n_next ca = Some (hd (as @ [a]))"
    using ring_hd [of "nodes h" a as] assms(1) R by auto
  obtain cl where cl: "nodes h (last R) = Some cl"
    using ring_dom [OF assms(1)] assms(2) by (meson domD last_in_set subsetD)
  have nn: "nn \<noteq> a" "nn \<noteq> last R" using assms(3) R by auto
  let ?m = "(nodes h)(nn \<mapsto> n0\<lparr>n_prev := Some (last R), n_next := Some a\<rparr>)"
  let ?m1 = "?m(last R \<mapsto> cl\<lparr>n_next := Some nn\<rparr>)"
  let ?m2 = "?m1(a \<mapsto> (the (?m1 a))\<lparr>n_prev := Some nn\<rparr>)"
  let ?h = "h\<lparr>nodes := ?m2\<rparr>"
  show ?thesis
  proof (intro exI conjI)
    show "do {
      c \<leftarrow> node_at h cur;
      h \<leftarrow> set_prev (Some nn) (n_prev c) h;
      h \<leftarrow> set_next (Some nn) cur h;
      c \<leftarrow> node_at h cur;
      h \<leftarrow> set_next (n_prev c) (Some nn) h;
      set_prev cur (Some nn) h } = Some ?h"
      using assms(4,5) ca cl nn R by (simp add: node_at_def set_prev_def set_next_def)
    show "ring (nodes ?h) (R @ [nn])"
    proof (rule ring_insert [OF assms(1-3)])
      show "nodes ?h nn = Some (n0\<lparr>n_prev := Some (last R), n_next := Some a\<rparr>)"
        using nn by simp
    qed (use ca cl nn R assms(3) in auto)
    show "\<forall>x. map_option n_pkt (nodes ?h x) = map_option n_pkt (nodes h x)"
      using ca cl nn assms(4) by auto
  qed simp_all
qed


lemma link_after:
  assumes "ring (nodes h) R" "R \<noteq> []" "nn \<notin> set R" "nodes h nn = Some n0" "cur = Some (last R)"
  shows "\<exists>h'. do {
      c \<leftarrow> node_at h cur;
      h \<leftarrow> set_next (Some nn) (n_next c) h;
      h \<leftarrow> set_prev (Some nn) cur h;
      c \<leftarrow> node_at h cur;
      h \<leftarrow> set_prev (n_next c) (Some nn) h;
      set_next cur (Some nn) h } = Some h' \<and>
    ring (nodes h') (R @ [nn]) \<and> stale h' = stale h \<and> pkts h' = pkts h \<and>
    (\<forall>a. map_option n_pkt (nodes h' a) = map_option n_pkt (nodes h a))"
proof -
  obtain as a where R: "R = as @ [a]" using assms(2) by (cases R rule: rev_cases) auto
  have r: "ring (nodes h) (a # as)" using ring_rotate [of "nodes h" as "[a]"] assms(1) R by simp
  obtain ca where ca: "nodes h a = Some ca" "n_prev ca = Some (last (a # as))" "n_next ca = Some (hd R)"
    using ring_hd [OF r] R by auto
  obtain cf where cf: "nodes h (hd R) = Some cf"
    using ring_dom [OF assms(1)] assms(2) by (meson domD hd_in_set subsetD)
  have nn: "nn \<noteq> a" "nn \<noteq> hd R" using assms(2,3) R hd_in_set [OF assms(2)] by auto
  let ?m = "(nodes h)(nn \<mapsto> n0\<lparr>n_next := Some (hd R), n_prev := Some a\<rparr>)"
  let ?m1 = "?m(hd R \<mapsto> cf\<lparr>n_prev := Some nn\<rparr>)"
  let ?m2 = "?m1(a \<mapsto> (the (?m1 a))\<lparr>n_next := Some nn\<rparr>)"
  let ?h = "h\<lparr>nodes := ?m2\<rparr>"
  show ?thesis
  proof (intro exI conjI)
    show "do {
      c \<leftarrow> node_at h cur;
      h \<leftarrow> set_next (Some nn) (n_next c) h;
      h \<leftarrow> set_prev (Some nn) cur h;
      c \<leftarrow> node_at h cur;
      h \<leftarrow> set_prev (n_next c) (Some nn) h;
      set_next cur (Some nn) h } = Some ?h"
      using assms(4,5) ca cf nn R by (simp add: node_at_def set_prev_def set_next_def)
    show "ring (nodes ?h) (R @ [nn])"
    proof (rule ring_insert [OF assms(1-3)])
      show "nodes ?h nn = Some (n0\<lparr>n_next := Some (hd R), n_prev := Some a\<rparr>)"
        using nn by simp
    qed (use ca cf nn R assms(3) in auto)
    show "\<forall>x. map_option n_pkt (nodes ?h x) = map_option n_pkt (nodes h x)"
      using ca cf nn assms(4) by auto
  qed simp_all
qed

lemma unlink_ring:
  assumes "ring (nodes h) (a # R)" "R \<noteq> []"
  shows "\<exists>h'. unlink (Some a) h = Some h' \<and> ring (nodes h') R \<and>
    stale h' = stale h \<and> pkts h' = pkts h \<and>
    nodes h' a = nodes h a \<and>
    (\<forall>x. map_option n_pkt (nodes h' x) = map_option n_pkt (nodes h x))"
proof -
  obtain ca where ca: "nodes h a = Some ca" "n_prev ca = Some (last R)" "n_next ca = Some (hd R)"
    using ring_hd [OF assms(1)] assms(2) by auto
  obtain cl cf where c: "nodes h (last R) = Some cl" "nodes h (hd R) = Some cf"
    using ring_dom [OF assms(1)] assms(2) by (metis domD hd_in_set last_in_set list.set_intros(2) subsetD)
  have na: "a \<noteq> last R" "a \<noteq> hd R"
    using assms by (auto simp: ring_def dest: last_in_set hd_in_set)
  let ?m1 = "(nodes h)(last R \<mapsto> cl\<lparr>n_next := Some (hd R)\<rparr>)"
  let ?m2 = "?m1(hd R \<mapsto> (the (?m1 (hd R)))\<lparr>n_prev := Some (last R)\<rparr>)"
  let ?h = "h\<lparr>nodes := ?m2\<rparr>"
  show ?thesis
  proof (intro exI conjI)
    show "unlink (Some a) h = Some ?h"
      using ca c na by (simp add: unlink_def node_at_def set_prev_def set_next_def)
    show "ring (nodes ?h) R"
      by (rule ring_remove [OF assms]) (use c in auto)
    show "\<forall>x. map_option n_pkt (nodes ?h x) = map_option n_pkt (nodes h x)"
      using c by auto
  qed (use na in simp_all)
qed

section \<open>The represented list\<close>

text \<open>The packet a node points to and its sequence number.\<close>

definition pk :: "heap \<Rightarrow> addr \<Rightarrow> addr" where
  "pk h a = n_pkt (the (nodes h a))"

definition pseq :: "heap \<Rightarrow> addr \<Rightarrow> u8" where
  "pseq h p = pkt_get_seqnum (the (pkts h p))"

definition rep :: "heap \<Rightarrow> buffer \<Rightarrow> addr list \<Rightarrow> bool" where
  "rep h b as \<longleftrightarrow> ring (nodes h) as \<and> b_size b = length as \<and>
     b_first b = (if as = [] then None else Some (hd as)) \<and>
     b_last b = (if as = [] then None else Some (last as)) \<and>
     (\<forall>a \<in> set as. pk h a \<in> dom (pkts h)) \<and> distinct (map (pk h) as)"

lemma rep_facts:
  assumes "rep h b as"
  shows "ring (nodes h) as" "distinct as" "b_size b = length as"
    "b_first b = (if as = [] then None else Some (hd as))"
    "b_last b = (if as = [] then None else Some (last as))"
    "distinct (map (pk h) as)"
  using assms by (auto simp: rep_def ring_def)

lemma node_at_rep:
  assumes "rep h b (xs @ a # ys)"
  obtains n where "nodes h a = Some n" "node_at h (Some a) = Some n" "n_pkt n = pk h a"
    "n_prev n = Some (last (a # ys @ xs))" "n_next n = Some (hd (ys @ xs @ [a]))"
  using ring_node [OF rep_facts(1) [OF assms]] by (auto simp: node_at_def pk_def)

lemma node_seq_rep:
  assumes "rep h b as" "a \<in> set as"
  shows "node_seq h (Some a) = Some (pseq h (pk h a))"
proof -
  obtain xs ys where "as = xs @ a # ys" using split_list [OF assms(2)] by blast
  with assms obtain n where "node_at h (Some a) = Some n" "n_pkt n = pk h a"
    by (metis node_at_rep)
  moreover obtain q where "pkts h (pk h a) = Some q"
    using assms by (auto simp: rep_def)
  ultimately show ?thesis by (simp add: node_seq_def pseq_def)
qed

section \<open>The place of a packet\<close>

text \<open>
  Where \<open>buffer_enqueue\<close> inserts a packet with sequence number \<open>s\<close> into a buffer holding
  packets numbered \<open>qs\<close>: the number of packets in front of it.
\<close>

definition enq_pos :: "u8 \<Rightarrow> u8 list \<Rightarrow> nat" where
  "enq_pos s qs =
     (if qs = [] then 0
      else if last qs < 50 \<and> s > 205 then
        if s < hd qs \<or> (s > hd qs \<and> hd qs < 50) then 0
        else 1 + length (takeWhile (\<lambda>q. s > q \<and> \<not> q < 50) (tl qs))
      else
        let k = length (takeWhile (\<lambda>q. s < q \<and> \<not> (q > 205 \<and> s < 50)) (rev (tl qs))) in
        if k < length (tl qs) then length qs - k
        else if tl qs = [] then (if s < hd qs \<and> \<not> (hd qs > 205 \<and> s < 50) then 0 else 1)
        else (if s < hd qs then 0 else 1))"

lemma enq_forward_first:
  assumes "rep h b as" "as \<noteq> []"
  shows "enq_forward h s True (Some (hd as)) = Some (Some (hd as))"
proof -
  obtain a ys where as: "as = a # ys" using assms(2) by (cases as) auto
  obtain n where n: "node_at h (Some a) = Some n" "n_next n = Some (hd (ys @ [a]))"
    using node_at_rep [of h b "[]" a ys] assms(1) as by auto
  have "hd (ys @ [a]) \<in> set as" using as by (cases ys) auto
  then show ?thesis
    using n node_seq_rep [OF assms(1)] as by (subst enq_forward.simps) simp
qed

lemma enq_forward_scan:
  assumes "rep h b (xs @ a # ys)" "\<exists>y \<in> set ys. \<not> (s > pseq h (pk h y) \<and> \<not> pseq h (pk h y) < 50)"
    "s > 205"
  shows "enq_forward h s False (Some a) =
    Some (Some (last (a # takeWhile (\<lambda>y. s > pseq h (pk h y) \<and> \<not> pseq h (pk h y) < 50) ys)))"
  using assms
proof (induction ys arbitrary: xs a)
  case (Cons y ys)
  obtain n where n: "node_at h (Some a) = Some n" "n_next n = Some y"
    using node_at_rep [OF Cons.prems(1)] by auto
  have sq: "node_seq h (Some y) = Some (pseq h (pk h y))"
    using node_seq_rep [OF Cons.prems(1)] by simp
  show ?case
  proof (cases "s > pseq h (pk h y) \<and> \<not> pseq h (pk h y) < 50")
    case True
    then have "enq_forward h s False (Some a) = enq_forward h s False (Some y)"
      using n sq by (subst enq_forward.simps) simp
    then show ?thesis using Cons.IH [of "xs @ [a]" y] Cons.prems True by simp
  next
    case False
    then show ?thesis using n sq Cons.prems(3) by (subst enq_forward.simps) auto
  qed
qed simp

lemma enq_backward_scan:
  fixes s :: u8
  defines "Q \<equiv> \<lambda>q. s < q \<and> \<not> (q > 205 \<and> s < 50)"
  assumes "rep h b (x0 # xs @ a # ys)"
  shows "enq_backward h b s (Some a) =
    (let k = length (takeWhile (\<lambda>y. Q (pseq h (pk h y))) (a # rev xs)) in
     if k = Suc (length xs) then Some (s < pseq h (pk h x0), Some x0)
     else Some (False, Some ((xs @ [a]) ! (length xs - k))))"
  using assms(2)
proof (induction xs arbitrary: a ys rule: rev_induct)
  case Nil
  obtain n where n: "node_at h (Some a) = Some n" "n_prev n = Some x0"
    using node_at_rep [of h b "[x0]" a ys] Nil by (auto split: if_splits)
  have "node_seq h (Some a) = Some (pseq h (pk h a))" "node_seq h (Some x0) = Some (pseq h (pk h x0))"
    using node_seq_rep [OF Nil] by simp_all
  moreover have "b_first b = Some x0" using rep_facts(4) [OF Nil] by simp
  ultimately show ?case using n by (subst enq_backward.simps) (auto simp: Q_def)
next
  case (snoc x xs)
  obtain n where n: "node_at h (Some a) = Some n" "n_prev n = Some x"
    using node_at_rep [of h b "x0 # xs @ [x]" a ys] snoc.prems by (auto split: if_splits)
  have sq: "node_seq h (Some a) = Some (pseq h (pk h a))"
    using node_seq_rep [OF snoc.prems] by simp
  have f: "b_first b = Some x0" "x \<noteq> x0"
    using rep_facts(2,4) [OF snoc.prems] by auto
  show ?case
  proof (cases "Q (pseq h (pk h a))")
    case True
    then have "enq_backward h b s (Some a) = enq_backward h b s (Some x)"
      using n sq f by (subst enq_backward.simps) (simp add: Q_def)
    also have "\<dots> = (let k = length (takeWhile (\<lambda>y. Q (pseq h (pk h y))) (x # rev xs)) in
     if k = Suc (length xs) then Some (s < pseq h (pk h x0), Some x0)
     else Some (False, Some ((xs @ [x]) ! (length xs - k))))"
      using snoc.IH [of x "a # ys"] snoc.prems by simp
    finally show ?thesis using True by (auto simp: Let_def nth_append)
  next
    case False
    then have "enq_backward h b s (Some a) = Some (False, Some a)"
      using sq unfolding Q_def by (subst enq_backward.simps) auto
    then show ?thesis using False by (simp add: nth_append)
  qed
qed

lemma last_takeWhile: "last (x # takeWhile P ys) = (x # ys) ! length (takeWhile P ys)"
  by (induction ys arbitrary: x) auto

lemma enq_pos_le: "enq_pos s qs \<le> length qs"
  using length_takeWhile_le [of _ "tl qs"] by (cases qs) (auto simp: enq_pos_def Let_def length_takeWhile_le)

lemma enq_place_rep:
  assumes "rep h b as" "as \<noteq> []"
  shows "enq_place h b s =
    (let k = enq_pos s (map (\<lambda>a. pseq h (pk h a)) as) in
     Some (if k = 0 then (True, Some (hd as)) else (False, Some (as ! (k - 1)))))"
proof -
  let ?f = "\<lambda>a. pseq h (pk h a)"
  obtain x0 ys where as: "as = x0 # ys" using assms(2) by (cases as) auto
  have fl: "b_first b = Some x0" "b_last b = Some (last as)"
    using rep_facts(4,5) [OF assms(1)] as by auto
  have sq: "node_seq h (b_last b) = Some (?f (last as))" "node_seq h (b_first b) = Some (?f x0)"
    using node_seq_rep [OF assms(1)] fl as by auto
  have ql: "last (map ?f as) = ?f (last as)" using assms(2) by (rule last_map)
  show ?thesis
  proof (cases "?f (last as) < 50 \<and> s > 205")
    case True
    let ?first = "s < ?f x0 \<or> (s > ?f x0 \<and> ?f x0 < 50)"
    show ?thesis
    proof (cases ?first)
      case f: True
      then have "enq_forward h s ?first (b_first b) = Some (Some x0)"
        using enq_forward_first [OF assms, of s] as fl by simp
      moreover have "enq_pos s (map ?f as) = 0"
        using True f ql as by (auto simp: enq_pos_def)
      ultimately show ?thesis using True f sq as by (simp add: enq_place_def)
    next
      case f: False
      have ne: "?f x0 \<ge> 50" using f True by (auto simp: word_less_nat_alt word_le_nat_alt)
      then have "ys \<noteq> []" using True as by auto
      then have "last ys \<in> set ys" "?f (last ys) < 50" using True as by auto
      then have "\<exists>y \<in> set ys. \<not> (s > ?f y \<and> \<not> ?f y < 50)" by blast
      then have "enq_forward h s False (Some x0) =
          Some (Some (last (x0 # takeWhile (\<lambda>y. s > ?f y \<and> \<not> ?f y < 50) ys)))"
        using enq_forward_scan [of h b "[]" x0 ys s] assms(1) as True by (simp del: last.simps)
      moreover have "enq_pos s (map ?f as) = 1 + length (takeWhile (\<lambda>y. s > ?f y \<and> \<not> ?f y < 50) ys)"
        using True f ql as by (simp add: enq_pos_def takeWhile_map comp_def)
      ultimately show ?thesis using True f sq fl as
        by (cases "?f x0 < s"; simp add: enq_place_def Let_def last_takeWhile del: last.simps)
    qed
  next
    case False
    let ?Q = "\<lambda>q. s < q \<and> \<not> (q > 205 \<and> s < 50)"
    show ?thesis
    proof (cases ys rule: rev_cases)
      case Nil
      obtain n where n: "node_at h (Some x0) = Some n" "n_prev n = Some x0"
        using node_at_rep [of h b "[]" x0 "[]"] assms(1) as Nil by auto
      have "enq_backward h b s (Some x0) = Some (if ?Q (?f x0) then (True, Some x0) else (False, Some x0))"
        using n sq fl by (subst enq_backward.simps) auto
      then show ?thesis using False sq as Nil fl by (auto simp: enq_place_def enq_pos_def Let_def)
    next
      case (snoc xs a)
      define k where "k = length (takeWhile (\<lambda>y. ?Q (?f y)) (a # rev xs))"
      define qs where "qs = map ?f as"
      have scan: "enq_backward h b s (Some a) =
        (if k = Suc (length xs) then Some (s < ?f x0, Some x0)
         else Some (False, Some ((xs @ [a]) ! (length xs - k))))"
        using enq_backward_scan [of h b x0 xs a "[]" s] assms(1) as snoc
        by (simp add: Let_def k_def)
      have tw: "length (takeWhile ?Q (rev (tl qs))) = k"
        using as snoc by (simp add: qs_def k_def rev_map takeWhile_map comp_def)
      have kle: "k \<le> Suc (length xs)"
        unfolding k_def by (rule order_trans [OF length_takeWhile_le]) simp
      have qs: "qs \<noteq> []" "hd qs = ?f x0" "tl qs \<noteq> []" "length (tl qs) = Suc (length xs)"
        "length qs = Suc (Suc (length xs))" "\<not> (last qs < 50 \<and> s > 205)"
        using as snoc ql False by (auto simp: qs_def)
      have pos: "enq_pos s qs = (if k < Suc (length xs) then Suc (Suc (length xs)) - k
          else if s < ?f x0 then 0 else 1)"
        unfolding enq_pos_def Let_def tw if_not_P [OF qs(1)] if_not_P [OF qs(6)] using qs(3-5) by (simp add: qs(2))
      have "enq_place h b s = enq_backward h b s (Some a)"
        using False sq fl as snoc by (auto simp: enq_place_def)
      moreover have "(xs @ [a]) ! (length xs - k) = as ! (Suc (Suc (length xs)) - k - 1)"
        if "k < Suc (length xs)"
        using that as snoc by (simp add: Suc_diff_le)
      ultimately show ?thesis
        unfolding qs_def [symmetric] Let_def pos using as kle scan by auto
    qed
  qed
qed

lemma pk_cong:
  "map_option n_pkt (nodes h' a) = map_option n_pkt (nodes h a) \<Longrightarrow> nodes h a \<noteq> None \<Longrightarrow> pk h' a = pk h a"
  by (auto simp: pk_def)

lemma rep_new_node:
  assumes "rep h b as" "nn \<notin> set as"
  shows "rep (h\<lparr>nodes := (nodes h)(nn \<mapsto> n)\<rparr>) b as"
proof -
  have "pk (h\<lparr>nodes := (nodes h)(nn \<mapsto> n)\<rparr>) a = pk h a" if "a \<in> set as" for a
    using that assms(2) by (auto simp: pk_def)
  then have m: "map (pk (h\<lparr>nodes := (nodes h)(nn \<mapsto> n)\<rparr>)) as = map (pk h) as"
    and s: "\<forall>a \<in> set as. pk (h\<lparr>nodes := (nodes h)(nn \<mapsto> n)\<rparr>) a = pk h a" by simp_all
  show ?thesis
    using assms s unfolding rep_def m by (simp add: ring_def)
qed

text \<open>The node list after an insertion, wherever it happened.\<close>

lemma rep_inserted:
  assumes "rep h b as" "nn \<notin> set as" "ring (nodes h') (take k as @ nn # drop k as)"
    "k \<le> length as" "as \<noteq> []" "pkts h' = pkts h"
    "\<And>a. a \<in> set as \<Longrightarrow> pk h' a = pk h a" "pk h' nn = p"
    "p \<in> dom (pkts h)" "p \<notin> set (map (pk h) as)"
    "b_first b' = (if k = 0 then Some nn else b_first b)"
    "b_last b' = (if k = length as then Some nn else b_last b)" "b_size b' = b_size b + 1"
  shows "rep h' b' (take k as @ nn # drop k as)"
proof -
  have m: "map (pk h') (take k as) = map (pk h) (take k as)" "map (pk h') (drop k as) = map (pk h) (drop k as)"
    using assms(7) by (auto dest: in_set_takeD in_set_dropD)
  have d: "distinct (map (pk h') (take k as @ nn # drop k as))"
  proof -
    have "distinct (map (pk h) (take k as) @ map (pk h) (drop k as))"
      using rep_facts(6) [OF assms(1)] by (simp flip: map_append)
    moreover have "p \<notin> set (map (pk h) (take k as)) \<union> set (map (pk h) (drop k as))"
      using assms(10) by (auto dest: in_set_takeD in_set_dropD)
    ultimately show ?thesis by (simp only: map_append list.map m assms(8)) auto
  qed
  have hd: "hd (take k as @ nn # drop k as) = (if k = 0 then nn else hd as)"
    using assms(5) by (cases k; cases as) auto
  have la: "last (take k as @ nn # drop k as) = (if k = length as then nn else last as)"
    using assms(4) by (auto simp: last_drop)
  have "\<forall>a \<in> set (take k as @ nn # drop k as). pk h' a \<in> dom (pkts h')"
    using assms(1,6-9) by (auto simp: rep_def dest!: in_set_takeD in_set_dropD)
  with d hd la assms rep_facts(3-5) [OF assms(1)] show ?thesis
    by (simp add: rep_def)
qed

lemma buffer_enqueue_rep:
  assumes rep: "rep h b as" and nn: "nodes h nn = None"
    and p: "pkts h p = Some q" "p \<notin> set (map (pk h) as)"
  defines "k \<equiv> enq_pos (pkt_get_seqnum q) (map (\<lambda>a. pseq h (pk h a)) as)"
  shows "\<exists>h' b'. buffer_enqueue h b p (Some nn) = Some (0, h', b') \<and>
     rep h' b' (take k as @ nn # drop k as) \<and> pkts h' = pkts h \<and> stale h' = stale h \<and>
     (\<forall>a. a \<noteq> nn \<longrightarrow> map_option n_pkt (nodes h' a) = map_option n_pkt (nodes h a)) \<and> pk h' nn = p"
proof -
  let ?n0 = "\<lparr>n_next = None, n_prev = None, n_pkt = p\<rparr>"
  let ?h0 = "h\<lparr>nodes := (nodes h)(nn \<mapsto> ?n0)\<rparr>"
  have nn_as: "nn \<notin> set as" using ring_dom [OF rep_facts(1) [OF rep]] nn by blast
  have r0: "rep ?h0 b as" using rep nn_as by (rule rep_new_node)
  have ring0: "ring (nodes ?h0) as" using rep_facts(1) [OF r0] .
  have kle: "k \<le> length as" using enq_pos_le [of _ "map (\<lambda>a. pseq h (pk h a)) as"] by (simp add: k_def)
  have old: "pk h' a = pk h a" if "\<forall>a. map_option n_pkt (nodes h' a) = map_option n_pkt (nodes ?h0 a)"
    "a \<in> set as" for h' a
  proof -
    have "a \<noteq> nn" "nodes h a \<noteq> None"
      using that(2) nn_as ring_dom [OF rep_facts(1) [OF rep]] by auto
    then show ?thesis using pk_cong [of h' a h] that(1) by simp
  qed
  have new: "pk h' nn = p" if "\<forall>a. map_option n_pkt (nodes h' a) = map_option n_pkt (nodes ?h0 a)" for h'
    using pk_cong [of h' nn ?h0] that by (simp add: pk_def)
  show ?thesis
  proof (cases "as = []")
    case True
    then show ?thesis using rep p
      by (auto simp: buffer_enqueue_def rep_def ring_def k_def enq_pos_def set_next_def set_prev_def pk_def)
  next
    case False
    have sq: "map (\<lambda>a. pseq ?h0 (pk ?h0 a)) as = map (\<lambda>a. pseq h (pk h a)) as"
      using nn_as by (auto simp: pseq_def pk_def)
    have place: "enq_place ?h0 b (pkt_get_seqnum q) =
       Some (if k = 0 then (True, Some (hd as)) else (False, Some (as ! (k - 1))))"
      using enq_place_rep [OF r0 False, of "pkt_get_seqnum q"] unfolding sq Let_def k_def .
    show ?thesis
    proof (cases "k = 0")
      case True
      obtain h' where h': "do {
          c \<leftarrow> node_at ?h0 (Some (hd as));
          h \<leftarrow> set_prev (Some nn) (n_prev c) ?h0;
          h \<leftarrow> set_next (Some nn) (Some (hd as)) h;
          c \<leftarrow> node_at h (Some (hd as));
          h \<leftarrow> set_next (n_prev c) (Some nn) h;
          set_prev (Some (hd as)) (Some nn) h } = Some h'"
        "ring (nodes h') (as @ [nn])" "stale h' = stale ?h0" "pkts h' = pkts ?h0"
        "\<forall>a. map_option n_pkt (nodes h' a) = map_option n_pkt (nodes ?h0 a)"
        using link_before [OF ring0 False nn_as, of ?n0 "Some (hd as)"] by auto
      let ?b = "b\<lparr>b_first := Some nn, b_size := b_size b + 1\<rparr>"
      have "buffer_enqueue h b p (Some nn) = Some (0, h', ?b)"
        using h'(1) place True p(1) False rep_facts(3) [OF rep]
        by (simp add: buffer_enqueue_def bind_eq_Some_conv Let_def)
      moreover have "ring (nodes h') (take k as @ nn # drop k as)"
        using ring_rotate [OF h'(2)] True by simp
      then have "rep h' ?b (take k as @ nn # drop k as)"
        using False True p h'(4)
        by (intro rep_inserted [OF rep nn_as _ kle, where p = p]) (auto simp: old [OF h'(5)] new [OF h'(5)])
      ultimately show ?thesis using h' new [OF h'(5)] by auto
    next
      case k: False
      let ?R = "drop k as @ take k as"
      have tk: "take k as \<noteq> []" using k False by simp
      have "last ?R = take k as ! (k - 1)"
        using tk kle last_conv_nth [OF tk] by (simp add: min_def)
      then have R: "ring (nodes ?h0) ?R" "?R \<noteq> []" "nn \<notin> set ?R" "last ?R = as ! (k - 1)"
        using ring_rotate [of _ "take k as" "drop k as"] ring0 tk k nn_as
        by (auto dest: in_set_takeD in_set_dropD)
      obtain h' where h': "do {
          c \<leftarrow> node_at ?h0 (Some (as ! (k - 1)));
          h \<leftarrow> set_next (Some nn) (n_next c) ?h0;
          h \<leftarrow> set_prev (Some nn) (Some (as ! (k - 1))) h;
          c \<leftarrow> node_at h (Some (as ! (k - 1)));
          h \<leftarrow> set_prev (n_next c) (Some nn) h;
          set_next (Some (as ! (k - 1))) (Some nn) h } = Some h'"
        "ring (nodes h') (?R @ [nn])" "stale h' = stale ?h0" "pkts h' = pkts ?h0"
        "\<forall>a. map_option n_pkt (nodes h' a) = map_option n_pkt (nodes ?h0 a)"
        using link_after [OF R(1-3), of ?n0 "Some (as ! (k - 1))"] R(4) by auto
      let ?b1 = "if Some (as ! (k - 1)) = b_last b then b\<lparr>b_last := Some nn\<rparr> else b"
      let ?b = "?b1\<lparr>b_size := b_size ?b1 + 1\<rparr>"
      have "buffer_enqueue h b p (Some nn) = Some (0, h', ?b)"
        using h'(1) place k p(1) False rep_facts(3) [OF rep]
        by (simp add: buffer_enqueue_def bind_eq_Some_conv Let_def)
      moreover have "ring (nodes h') (take k as @ nn # drop k as)"
        using ring_rotate [of "nodes h'" "drop k as" "take k as @ [nn]"] h'(2) by simp
      moreover have "Some (as ! (k - 1)) = b_last b \<longleftrightarrow> k = length as"
        using rep_facts(2,5) [OF rep] False k kle
        by (auto simp: last_conv_nth nth_eq_iff_index_eq)
      ultimately show ?thesis
        using False k p h'(3-5) new [OF h'(5)]
        by (intro exI [of _ h'] exI [of _ ?b] conjI rep_inserted [OF rep nn_as _ kle, where p = p])
          (auto simp: old [OF h'(5)])
    qed
  qed
qed

section \<open>Search and removal\<close>

lemma find_node_rep:
  assumes "rep h b (xs @ a # ys)"
  shows "find_node h b s (Some a) = Some (find (\<lambda>x. pseq h (pk h x) = s) (a # ys))"
  using assms
proof (induction ys arbitrary: xs a)
  case Nil
  have "b_first b = Some (hd (xs @ [a]))" using rep_facts(4) [OF Nil] by simp
  then obtain n where "node_at h (Some a) = Some n" "n_next n = b_first b"
    using node_at_rep [OF Nil] by auto
  then show ?case using node_seq_rep [OF Nil] by (subst find_node.simps) simp
next
  case (Cons y ys)
  obtain n where n: "node_at h (Some a) = Some n" "n_next n = Some y"
    using node_at_rep [OF Cons.prems] by auto
  moreover have "b_first b \<noteq> Some y"
    using rep_facts(2,4) [OF Cons.prems] by (cases xs) auto
  moreover have "node_seq h (Some a) = Some (pseq h (pk h a))"
    using node_seq_rep [OF Cons.prems] by simp
  ultimately show ?case
    using Cons.IH [where xs = "xs @ [a]" and a = y] Cons.prems by (subst find_node.simps) simp
qed

lemma find_node_first:
  "rep h b as \<Longrightarrow> as \<noteq> [] \<Longrightarrow>
     find_node h b s (b_first b) = Some (find (\<lambda>x. pseq h (pk h x) = s) as)"
  using find_node_rep [of h b "[]" "hd as" "tl as"] rep_facts(4) by fastforce

lemma find_split:
  "find P as = Some a \<Longrightarrow> \<exists>xs ys. as = xs @ a # ys \<and> (\<forall>x \<in> set xs. \<not> P x) \<and> P a"
proof (induction as)
  case (Cons x as)
  then show ?case
  proof (cases "P x")
    case False
    with Cons obtain xs ys where "as = xs @ a # ys" "\<forall>x \<in> set xs. \<not> P x" "P a" by auto
    with False have "x # as = (x # xs) @ a # ys" "\<forall>z \<in> set (x # xs). \<not> P z" "P a" by auto
    then show ?thesis by blast
  next
    case True
    with Cons.prems show ?thesis by (intro exI [of _ "[]"] exI [of _ as]) auto
  qed
qed simp

lemma dom_eq_map_option:
  assumes "\<forall>x. map_option f (m x) = map_option f (m' x)"
  shows "dom m = dom m'"
proof (rule set_eqI)
  fix x
  have "map_option f (m x) = map_option f (m' x)" using assms by blast
  then show "x \<in> dom m \<longleftrightarrow> x \<in> dom m'" by (cases "m x"; cases "m' x") auto
qed

lemma rep_removed:
  assumes "rep h b (xs @ a # ys)" "ring (nodes h1) (ys @ xs)" "pkts h' = pkts h"
    "\<And>x. x \<in> set (xs @ ys) \<Longrightarrow> nodes h' x = nodes h1 x"
    "\<forall>x. map_option n_pkt (nodes h1 x) = map_option n_pkt (nodes h x)"
    "b_size b' = b_size b - 1" "b_first b' = (if xs @ ys = [] then None else Some (hd (xs @ ys)))"
    "b_last b' = (if xs @ ys = [] then None else Some (last (xs @ ys)))"
  shows "rep h' b' (xs @ ys)" "map (pk h') (xs @ ys) = map (pk h) (xs @ ys)"
proof -
  have dom: "set (xs @ ys) \<subseteq> dom (nodes h)"
    using ring_dom [OF rep_facts(1) [OF assms(1)]] by auto
  have "pk h' x = pk h x" if "x \<in> set (xs @ ys)" for x
  proof (rule pk_cong)
    show "map_option n_pkt (nodes h' x) = map_option n_pkt (nodes h x)"
      using assms(4) [OF that] assms(5) by simp
  qed (use dom that in blast)
  then show m: "map (pk h') (xs @ ys) = map (pk h) (xs @ ys)" by simp
  have eq: "x \<in> set ys \<union> set xs \<Longrightarrow> nodes h' x = nodes h1 x" for x using assms(4) by auto
  have "dseg (nodes h') p zs q = dseg (nodes h1) p zs q" if "set zs \<subseteq> set ys \<union> set xs" for p zs q
    using that by (induction zs arbitrary: p) (auto simp: eq)
  then have "ring (nodes h') (ys @ xs)" using assms(2) by (simp add: ring_def)
  then have r: "ring (nodes h') (xs @ ys)" by (rule ring_rotate)
  have "distinct (map (pk h) (xs @ ys))" "\<forall>x \<in> set (xs @ ys). pk h x \<in> dom (pkts h)"
    using assms(1) by (auto simp: rep_def)
  then have "distinct (map (pk h') (xs @ ys))" "\<forall>x \<in> set (xs @ ys). pk h' x \<in> dom (pkts h')"
    using \<open>\<And>x. x \<in> set (xs @ ys) \<Longrightarrow> pk h' x = pk h x\<close> assms(3) unfolding m by auto
  with r assms(6-8) rep_facts(3) [OF assms(1)] show "rep h' b' (xs @ ys)"
    unfolding rep_def by simp
qed

lemma buffer_remove_rep:
  assumes rep: "rep h b as" and f: "find (\<lambda>x. pseq h (pk h x) = s) as = Some a"
  shows "\<exists>h' b' xs ys. buffer_remove h b s = Some (Some (pk h a), h', b') \<and>
    as = xs @ a # ys \<and> (\<forall>x \<in> set xs. pseq h (pk h x) \<noteq> s) \<and> pseq h (pk h a) = s \<and>
    rep h' b' (xs @ ys) \<and> map (pk h') (xs @ ys) = map (pk h) (xs @ ys) \<and> pkts h' = pkts h \<and>
    dom (nodes h') = dom (nodes h) - {a}"
proof -
  obtain xs ys where as: "as = xs @ a # ys" "\<forall>x \<in> set xs. pseq h (pk h x) \<noteq> s" "pseq h (pk h a) = s"
    using find_split [OF f] by blast
  have r: "rep h b (xs @ a # ys)" using rep as by simp
  have ff: "find_node h b s (b_first b) = Some (Some a)" "b_first b \<noteq> None"
    using find_node_first [OF rep] f as rep_facts(4) [OF rep] by auto
  obtain n where n: "nodes h a = Some n" "n_pkt n = pk h a"
    "n_prev n = Some (last (a # ys @ xs))" "n_next n = Some (hd (ys @ xs @ [a]))"
    using node_at_rep [OF r] by metis
  note b = rep_facts(2-5) [OF r]
  show ?thesis
  proof (cases "xs @ ys = []")
    case True
    let ?h' = "h\<lparr>nodes := (nodes h)(a := None), stale := (stale h)(a \<mapsto> n)\<rparr>"
    let ?b' = "b\<lparr>b_first := None, b_last := None, b_size := 0\<rparr>"
    have "buffer_remove h b s = Some (Some (pk h a), ?h', ?b')"
      using True ff n b by (simp add: buffer_remove_def node_at_def node_free_def)
    moreover have "rep ?h' ?b' (xs @ ys)" using True by (simp add: rep_def ring_def)
    moreover have "dom (nodes ?h') = dom (nodes h) - {a}" by auto
    ultimately show ?thesis using as True by fastforce
  next
    case False
    then have ne: "ys @ xs \<noteq> []" by auto
    have "ring (nodes h) (a # ys @ xs)"
      using ring_rotate [of _ xs "a # ys"] rep_facts(1) [OF r] by simp
    from unlink_ring [OF this ne] obtain h1 where h1: "unlink (Some a) h = Some h1"
      "ring (nodes h1) (ys @ xs)" "stale h1 = stale h" "pkts h1 = pkts h" "nodes h1 a = nodes h a"
      "\<forall>x. map_option n_pkt (nodes h1 x) = map_option n_pkt (nodes h x)" by blast
    let ?n' = "n\<lparr>n_next := None, n_prev := None\<rparr>"
    let ?h' = "h1\<lparr>nodes := (nodes h1)(a := None), stale := (stale h1)(a \<mapsto> ?n')\<rparr>"
    let ?b' = "\<lparr>b_first = Some (hd (xs @ ys)), b_last = Some (last (xs @ ys)), b_size = b_size b - 1\<rparr>"
    have na: "a \<notin> set (xs @ ys)" using b(1) by auto
    have first: "Some a = b_first b \<longleftrightarrow> xs = []" using b by (cases xs) auto
    have last: "Some a = b_last b \<longleftrightarrow> ys = []" using b by (cases ys rule: rev_cases) auto
    have sz: "b_size b > Suc 0" "length xs + length ys \<noteq> 0" using False b(2) by (cases xs; cases ys; simp)+
    have "buffer_remove h b s = Some (Some (pk h a), ?h', ?b')"
    proof (cases "xs = []")
      case True
      then show ?thesis using ff first last sz n h1 b False
        by (auto simp: buffer_remove_def node_at_def node_free_def set_next_def set_prev_def Let_def)
    next
      case xs: False
      then show ?thesis
        using ff first last sz n h1 b False
        by (cases "ys = []")
          (auto simp: buffer_remove_def node_at_def node_free_def set_next_def set_prev_def Let_def)
    qed
    moreover have "rep ?h' ?b' (xs @ ys)" "map (pk ?h') (xs @ ys) = map (pk h) (xs @ ys)"
      by (rule rep_removed [OF r h1(2) _ _ h1(6), where b' = ?b']; use h1(4) na False in auto)+
    moreover have "dom (nodes ?h') = dom (nodes h) - {a}"
      using dom_eq_map_option [OF h1(6)] by auto
    ultimately show ?thesis using as h1(4) by fastforce
  qed
qed

section \<open>Queries\<close>

lemma is_in_loop_rep:
  "rep h b (xs @ ys) \<Longrightarrow> ys \<noteq> [] \<Longrightarrow>
     is_in_loop h s (length ys) (Some (hd ys)) = Some (s \<in> set (map (\<lambda>a. pseq h (pk h a)) ys))"
proof (induction ys arbitrary: xs)
  case (Cons y ys)
  obtain n where n: "node_at h (Some y) = Some n" "n_next n = Some (hd (ys @ xs @ [y]))"
    using node_at_rep [OF Cons.prems(1)] by auto
  have "node_seq h (Some y) = Some (pseq h (pk h y))"
    using node_seq_rep [OF Cons.prems(1)] by simp
  then show ?case using n Cons.IH [of "xs @ [y]"] Cons.prems(1) by (cases "ys = []") auto
qed simp

lemma unsended_loop_rep:
  "rep h b (xs @ ys) \<Longrightarrow> ys \<noteq> [] \<Longrightarrow>
     unsended_loop h (length ys) (Some (hd ys)) =
     Some (find (\<lambda>p. pkt_get_timestamp (the (pkts h p)) = 0) (map (pk h) ys))"
proof (induction ys arbitrary: xs)
  case (Cons y ys)
  obtain n where n: "node_at h (Some y) = Some n" "n_pkt n = pk h y" "n_next n = Some (hd (ys @ xs @ [y]))"
    using node_at_rep [OF Cons.prems(1)] by auto
  moreover obtain q where "pkts h (pk h y) = Some q"
    using Cons.prems(1) by (auto simp: rep_def)
  ultimately show ?case using Cons.IH [of "xs @ [y]"] Cons.prems(1) by (cases "ys = []") auto
qed simp

lemma print_loop_rep:
  "rep h b (xs @ ys) \<Longrightarrow> ys \<noteq> [] \<Longrightarrow>
     print_loop h (length ys) (Some (hd ys)) = Some (map (\<lambda>a. pseq h (pk h a)) ys)"
proof (induction ys arbitrary: xs)
  case (Cons y ys)
  obtain n where n: "node_at h (Some y) = Some n" "n_next n = Some (hd (ys @ xs @ [y]))"
    using node_at_rep [OF Cons.prems(1)] by auto
  have "node_seq h (Some y) = Some (pseq h (pk h y))"
    using node_seq_rep [OF Cons.prems(1)] by simp
  then show ?case using n Cons.IH [of "xs @ [y]"] Cons.prems(1) by (cases "ys = []") auto
qed simp

section \<open>The abstract state: the packets of the buffer, in order\<close>

text \<open>
  \<open>holds h b ps\<close>: buffer \<open>b\<close> is a well-formed circular list holding the packets at \<open>ps\<close> in
  order, and the live nodes of the heap are exactly its nodes (each program has one
  buffer), so that a leaked node would break it.
\<close>

definition holds :: "heap \<Rightarrow> buffer \<Rightarrow> addr list \<Rightarrow> bool" where
  "holds h b ps \<longleftrightarrow> (\<exists>as. rep h b as \<and> map (pk h) as = ps \<and> dom (nodes h) = set as)"

lemma holds_facts:
  assumes "holds h b ps"
  shows "distinct ps" "set ps \<subseteq> dom (pkts h)" "b_size b = length ps" "b_first b = None \<longleftrightarrow> ps = []"
    "length ps = card (dom (nodes h))"
  using assms by (auto simp: holds_def rep_def ring_def distinct_card split: if_splits)

lemma holds_pkts:
  assumes "holds h b ps" "set ps \<subseteq> dom m"
  shows "holds (h\<lparr>pkts := m\<rparr>) b ps"
proof -
  obtain as where as: "rep h b as" "map (pk h) as = ps" "dom (nodes h) = set as"
    using assms(1) by (auto simp: holds_def)
  have pk: "pk (h\<lparr>pkts := m\<rparr>) = pk h" by (rule ext) (simp add: pk_def)
  have "pk h a \<in> dom m" if "a \<in> set as" for a
    using that assms(2) unfolding as(2) [symmetric] set_map by (metis image_subset_iff)
  then have "rep (h\<lparr>pkts := m\<rparr>) b as" using as(1) unfolding rep_def pk by simp
  then show ?thesis using as pk by (auto simp: holds_def intro!: exI [of _ as])
qed

lemma holds_init: "nodes h = Map.empty \<Longrightarrow> holds h buffer_init []"
  by (simp add: holds_def rep_def ring_def buffer_init_def)

lemma holds_empty: "holds h b [] \<longleftrightarrow> b = buffer_init \<and> nodes h = Map.empty"
  by (auto simp: holds_def rep_def ring_def buffer_init_def)

lemma holds_enqueue:
  assumes "holds h b ps" "nodes h nn = None" "pkts h p = Some q" "p \<notin> set ps"
  defines "k \<equiv> enq_pos (pkt_get_seqnum q) (map (pseq h) ps)"
  shows "\<exists>h' b'. buffer_enqueue h b p (Some nn) = Some (0, h', b') \<and>
    holds h' b' (take k ps @ p # drop k ps) \<and> pkts h' = pkts h"
proof -
  obtain as where as: "rep h b as" "map (pk h) as = ps" "dom (nodes h) = set as"
    using assms(1) by (auto simp: holds_def)
  have k: "k = enq_pos (pkt_get_seqnum q) (map (\<lambda>a. pseq h (pk h a)) as)"
    using as(2) by (auto simp: k_def comp_def)
  from buffer_enqueue_rep [OF as(1) assms(2,3), folded k] assms(4) as(2)
  obtain h' b' where h': "buffer_enqueue h b p (Some nn) = Some (0, h', b')"
    "rep h' b' (take k as @ nn # drop k as)" "pkts h' = pkts h"
    "\<forall>a. a \<noteq> nn \<longrightarrow> map_option n_pkt (nodes h' a) = map_option n_pkt (nodes h a)" "pk h' nn = p"
    by auto
  have nn: "nn \<notin> set as" using as(3) assms(2) by auto
  have "nn \<in> dom (nodes h')" using ring_dom [OF rep_facts(1) [OF h'(2)]] by auto
  moreover have "a \<in> dom (nodes h') \<longleftrightarrow> a \<in> dom (nodes h)" if "a \<noteq> nn" for a
    using h'(4) that by (metis domIff map_option_is_None)
  moreover have "set (take k as @ nn # drop k as) = insert nn (set as)"
    by (metis append_take_drop_id insert_is_Un list.simps(15) set_append sup_left_commute)
  ultimately have d: "dom (nodes h') = set (take k as @ nn # drop k as)"
    using as(3) by (intro set_eqI) (metis insert_iff)
  have "pk h' a = pk h a" if "a \<in> set as" for a
    using h'(4) that nn as(3) by (intro pk_cong) auto
  then have "map (pk h') (take k as) = map (pk h) (take k as)" "map (pk h') (drop k as) = map (pk h) (drop k as)"
    by (auto dest: in_set_takeD in_set_dropD)
  then have "map (pk h') (take k as @ nn # drop k as) = take k ps @ p # drop k ps"
    using h'(5) unfolding as(2) [symmetric] by (simp add: take_map drop_map del: map_eq_conv)
  with h' d show ?thesis by (auto simp: holds_def)
qed

end
