(* ===== verification/Packet_Queue.thy ===== *)
theory Packet_Queue
  imports Buffer_Refine
begin

text \<open>
  The buffer as an ordered list of packets: what each operation of \<open>buffer.c\<close> does to the
  list that \<open>holds\<close> relates to it, the interface \<open>packet_queue\<close> the receiver and the sender
  rely on, and its interpretation on the operations of \<open>Buffer\<close>.
\<close>

section \<open>The operations on the abstract list\<close>

definition find_seq :: "heap \<Rightarrow> u8 \<Rightarrow> addr list \<Rightarrow> addr option" where
  "find_seq h s ps = find (\<lambda>p. pseq h p = s) ps"

lemma find_seq_simps [simp]:
  "find_seq h s [] = None"
  "find_seq h s (p # ps) = (if pseq h p = s then Some p else find_seq h s ps)"
  by (simp_all add: find_seq_def)

lemma find_seq_None: "find_seq h s ps = None \<longleftrightarrow> s \<notin> set (map (pseq h) ps)"
  by (induction ps) auto

lemma find_seq_Some: "find_seq h s ps = Some p \<Longrightarrow> p \<in> set ps \<and> pseq h p = s"
  by (induction ps) (auto split: if_splits)

lemma find_map: "find P (map f xs) = map_option f (find (P \<circ> f) xs)"
  by (induction xs) auto

lemma holds_find:
  assumes "rep h b as" "map (pk h) as = ps"
  shows "find_seq h s ps = map_option (pk h) (find (\<lambda>a. pseq h (pk h a) = s) as)"
  by (simp add: find_seq_def find_map comp_def flip: assms(2))

lemma holds_mem:
  assumes "holds h b ps"
  shows "is_in_buffer h (Some b) s = Some (s \<in> set (map (pseq h) ps))"
proof -
  obtain as where as: "rep h b as" "map (pk h) as = ps" using assms by (auto simp: holds_def)
  show ?thesis
    using is_in_loop_rep [of h b "[]" as s] rep_facts(3,4) [OF as(1)] as
    by (cases "as = []") (auto simp: is_in_buffer_def buffer_size_def)
qed

lemma holds_get:
  assumes "holds h b ps"
  shows "buffer_get_pkt h b s = Some (find_seq h s ps)"
proof -
  obtain as where as: "rep h b as" "map (pk h) as = ps" using assms by (auto simp: holds_def)
  show ?thesis
  proof (cases "as = []")
    case True
    then show ?thesis using as rep_facts(3) [OF as(1)] by (auto simp: buffer_get_pkt_def)
  next
    case False
    show ?thesis
    proof (cases "find (\<lambda>a. pseq h (pk h a) = s) as")
      case None
      then show ?thesis using find_node_first [OF as(1) False] rep_facts(3) [OF as(1)] False
        by (simp add: buffer_get_pkt_def holds_find [OF as])
    next
      case (Some a)
      then have "a \<in> set as" using find_split [OF Some] by auto
      then have "node_at h (Some a) = Some (the (nodes h a))"
        using ring_dom [OF rep_facts(1) [OF as(1)]] by (auto simp: node_at_def)
      then show ?thesis using find_node_first [OF as(1) False] rep_facts(3) [OF as(1)] False Some
        by (simp add: buffer_get_pkt_def holds_find [OF as] pk_def)
    qed
  qed
qed

lemma holds_unsended:
  assumes "holds h b ps"
  shows "look_for_unsended_packet h (Some b) =
    Some (find (\<lambda>p. pkt_get_timestamp (the (pkts h p)) = 0) ps)"
proof -
  obtain as where as: "rep h b as" "map (pk h) as = ps" using assms by (auto simp: holds_def)
  show ?thesis
    using unsended_loop_rep [of h b "[]" as] rep_facts(3,4) [OF as(1)] as
    by (cases "as = []") (auto simp: look_for_unsended_packet_def)
qed

lemma holds_print:
  assumes "holds h b ps"
  shows "buffer_print h b = Some (map (pseq h) ps, length ps)"
proof -
  obtain as where as: "rep h b as" "map (pk h) as = ps" using assms by (auto simp: holds_def)
  show ?thesis
    using print_loop_rep [of h b "[]" as] rep_facts(3,4) [OF as(1)] as
    by (cases "as = []") (auto simp: buffer_print_def)
qed

lemma holds_remove_absent:
  assumes "holds h b ps" "s \<notin> set (map (pseq h) ps)"
  shows "buffer_remove h b s = Some (None, h, b)"
proof -
  obtain as where as: "rep h b as" "map (pk h) as = ps" using assms by (auto simp: holds_def)
  show ?thesis
  proof (cases "as = []")
    case True
    then show ?thesis using rep_facts(4) [OF as(1)] by (simp add: buffer_remove_def)
  next
    case False
    have "find (\<lambda>a. pseq h (pk h a) = s) as = None"
      using assms(2) holds_find [OF as, of s] find_seq_None [of h s ps] by simp
    then show ?thesis using find_node_first [OF as(1) False] rep_facts(4) [OF as(1)] False
      by (simp add: buffer_remove_def)
  qed
qed

lemma holds_remove:
  assumes "holds h b ps" "find_seq h s ps = Some p"
  shows "\<exists>h' b'. buffer_remove h b s = Some (Some p, h', b') \<and> holds h' b' (remove1 p ps) \<and> pkts h' = pkts h"
proof -
  obtain as where as: "rep h b as" "map (pk h) as = ps" "dom (nodes h) = set as"
    using assms(1) by (auto simp: holds_def)
  obtain a where a: "find (\<lambda>a. pseq h (pk h a) = s) as = Some a" "pk h a = p"
    using assms(2) holds_find [OF as(1,2), of s] by auto
  from buffer_remove_rep [OF as(1) a(1)] a(2) obtain h' b' xs ys where r:
    "buffer_remove h b s = Some (Some p, h', b')" "as = xs @ a # ys" "rep h' b' (xs @ ys)"
    "map (pk h') (xs @ ys) = map (pk h) (xs @ ys)" "pkts h' = pkts h" "dom (nodes h') = dom (nodes h) - {a}"
    by blast
  have "p \<notin> set (map (pk h) xs)"
    using rep_facts(6) [OF as(1)] a(2) r(2) by auto
  then have "remove1 p ps = map (pk h) (xs @ ys)"
    using a(2) r(2) by (simp add: as(2) [symmetric] remove1_append)
  moreover have "dom (nodes h') = set (xs @ ys)"
    using r(2,6) as(3) rep_facts(2) [OF as(1)] by auto
  ultimately show ?thesis using r by (auto simp: holds_def)
qed

lemma holds_remove_first:
  assumes "holds h b (p # ps)"
  shows "\<exists>h' b'. buffer_remove_first h (Some b) = Some (Some p, h', Some b') \<and> holds h' b' ps \<and> pkts h' = pkts h"
proof -
  obtain a as where as: "rep h b (a # as)" "pk h a = p" "map (pk h) as = ps" "dom (nodes h) = set (a # as)"
    using assms by (auto simp: holds_def)
  obtain n where n: "nodes h a = Some n" "n_pkt n = p" "n_next n = Some (hd (as @ [a]))"
    using node_at_rep [of h b "[]" a as] as by auto
  note b = rep_facts(2-5) [OF as(1)]
  show ?thesis
  proof (cases "as = []")
    case True
    let ?h' = "h\<lparr>nodes := (nodes h)(a := None), stale := (stale h)(a \<mapsto> n)\<rparr>"
    have "buffer_remove_first h (Some b) = Some (Some p, ?h', Some buffer_init)"
      using True b n by (simp add: buffer_remove_first_def node_at_def node_free_def buffer_init_def)
    moreover have "holds ?h' buffer_init ps"
      using True as(3,4) by (auto simp: holds_empty simp flip: dom_eq_empty_conv)
    ultimately show ?thesis by fastforce
  next
    case False
    from unlink_ring [OF rep_facts(1) [OF as(1)] False] obtain h1 where h1: "unlink (Some a) h = Some h1"
      "ring (nodes h1) as" "stale h1 = stale h" "pkts h1 = pkts h" "nodes h1 a = nodes h a"
      "\<forall>x. map_option n_pkt (nodes h1 x) = map_option n_pkt (nodes h x)" by blast
    let ?h' = "h1\<lparr>nodes := (nodes h1)(a := None), stale := (stale h1)(a \<mapsto> n)\<rparr>"
    let ?b' = "b\<lparr>b_first := Some (hd as), b_size := b_size b - 1\<rparr>"
    have "buffer_remove_first h (Some b) = Some (Some p, ?h', Some ?b')"
      using False b n h1 by (cases as) (simp_all add: buffer_remove_first_def node_at_def node_free_def Let_def)
    moreover have "rep ?h' ?b' ([] @ as)" "map (pk ?h') ([] @ as) = map (pk h) ([] @ as)"
      by (rule rep_removed [of h b "[]" a as h1, OF _ _ _ _ h1(6), where b' = ?b'];
          use as b h1 False in auto)+
    moreover have "dom (nodes ?h') = set as"
      using dom_eq_map_option [OF h1(6)] as(4) b(1) by auto
    ultimately show ?thesis using as(3) h1(4) by (auto simp: holds_def)
  qed
qed

lemma holds_pkt_del:
  assumes "holds h b ps" "p \<in> dom (pkts h)" "p \<notin> set ps"
  shows "\<exists>h'. pkt_del h (Some p) = Some h' \<and> holds h' b ps \<and> pkts h' = (pkts h)(p := None)"
proof -
  have "set ps \<subseteq> dom ((pkts h)(p := None))" using holds_facts(2) [OF assms(1)] assms(3) by auto
  from holds_pkts [OF assms(1) this] assms(2) show ?thesis by (auto simp: pkt_del_def)
qed

text \<open>Removing and freeing the first packet, the body of two loops.\<close>

lemma holds_drop_first:
  assumes "holds h b (p # ps)"
  shows "\<exists>h1 h' b'. buffer_remove h b (pseq h p) = Some (Some p, h1, b') \<and> pkt_del h1 (Some p) = Some h' \<and>
    holds h' b' ps \<and> pkts h' = (pkts h)(p := None)"
proof -
  obtain h1 b' where "buffer_remove h b (pseq h p) = Some (Some p, h1, b')" "holds h1 b' ps" "pkts h1 = pkts h"
    using holds_remove [OF assms, of "pseq h p" p] by auto
  then show ?thesis
    using holds_pkt_del [of h1 b' ps p] holds_facts(1,2) [OF assms] by fastforce
qed

lemma node_seq_first:
  assumes "holds h b (p # ps)"
  shows "node_seq h (b_first b) = Some (pseq h p)" "b_first b \<noteq> None"
proof -
  obtain a as where "rep h b (a # as)" "pk h a = p" using assms by (auto simp: holds_def)
  then show "node_seq h (b_first b) = Some (pseq h p)" "b_first b \<noteq> None"
    using node_seq_rep [of h b "a # as" a] rep_facts(4) [of h b "a # as"] by auto
qed

lemma acked_loop_holds:
  assumes "holds h b ps" "s \<in> set (map (pseq h) ps)"
  shows "\<exists>h' b'. acked_loop s c h b = Some (c + length (takeWhile (\<lambda>p. pseq h p \<noteq> s) ps), h', b') \<and>
    holds h' b' (dropWhile (\<lambda>p. pseq h p \<noteq> s) ps) \<and>
    pkts h' = pkts h |` (- set (takeWhile (\<lambda>p. pseq h p \<noteq> s) ps))"
  using assms
proof (induction ps arbitrary: c h b)
  case (Cons p ps)
  note first = node_seq_first [OF Cons.prems(1)]
  show ?case
  proof (cases "pseq h p = s")
    case True
    then have "acked_loop s c h b = Some (c, h, b)"
      using first by (subst acked_loop.simps) simp
    then show ?thesis using True Cons.prems(1) by (auto simp: restrict_map_def)
  next
    case False
    obtain h1 h' b' where s: "buffer_remove h b (pseq h p) = Some (Some p, h1, b')" "pkt_del h1 (Some p) = Some h'"
      "holds h' b' ps" "pkts h' = (pkts h)(p := None)"
      using holds_drop_first [OF Cons.prems(1)] by blast
    have sq: "pseq h' x = pseq h x" if "x \<in> set ps" for x
      using that holds_facts(1) [OF Cons.prems(1)] s(4) by (auto simp: pseq_def)
    have in_ps: "s \<in> set (map (pseq h') ps)" using Cons.prems(2) False sq by auto
    then have "b_size b' \<noteq> 0" using holds_facts(3) [OF s(3)] by auto
    then have step: "acked_loop s c h b = acked_loop s (c + 1) h' b'"
      using first s False by (subst acked_loop.simps) simp
    have tw: "takeWhile (\<lambda>p. pseq h' p \<noteq> s) ps = takeWhile (\<lambda>p. pseq h p \<noteq> s) ps"
      "dropWhile (\<lambda>p. pseq h' p \<noteq> s) ps = dropWhile (\<lambda>p. pseq h p \<noteq> s) ps"
      using sq by (simp_all cong: takeWhile_cong dropWhile_cong)
    from Cons.IH [OF s(3) in_ps, of "c + 1"] show ?thesis
      using False unfolding step tw s(4) by (auto simp: restrict_map_def fun_eq_iff)
  qed
qed simp

lemma holds_remove_acked:
  assumes "holds h b ps" "s \<in> set (map (pseq h) ps)"
  shows "\<exists>h' b'. buffer_remove_acked h b s = Some (length (takeWhile (\<lambda>p. pseq h p \<noteq> s) ps), h', b') \<and>
    holds h' b' (dropWhile (\<lambda>p. pseq h p \<noteq> s) ps) \<and>
    pkts h' = pkts h |` (- set (takeWhile (\<lambda>p. pseq h p \<noteq> s) ps))"
  using acked_loop_holds [OF assms, of 0] holds_mem [OF assms(1), of s] holds_facts(3) [OF assms(1)] assms(2)
  by (auto simp: buffer_remove_acked_def)

lemma holds_remove_acked_absent:
  assumes "holds h b ps" "s \<notin> set (map (pseq h) ps)"
  shows "buffer_remove_acked h b s = Some (0, h, b)"
  using holds_mem [OF assms(1), of s] assms(2) by (auto simp: buffer_remove_acked_def)

lemma holds_free:
  "holds h b ps \<Longrightarrow> \<exists>h'. buffer_free h b = Some (h', 0) \<and> nodes h' = Map.empty \<and>
     pkts h' = pkts h |` (- set ps)"
proof (induction ps arbitrary: h b)
  case Nil
  then show ?case
    by (subst buffer_free.simps) (auto simp: holds_empty buffer_init_def buffer_size_def restrict_map_def)
next
  case (Cons p ps)
  obtain h1 h' b' where s: "buffer_remove h b (pseq h p) = Some (Some p, h1, b')" "pkt_del h1 (Some p) = Some h'"
    "holds h' b' ps" "pkts h' = (pkts h)(p := None)"
    using holds_drop_first [OF Cons.prems(1)] by blast
  have "buffer_free h b = buffer_free h' b'"
    using node_seq_first [OF Cons.prems] s by (subst buffer_free.simps) auto
  then show ?case using Cons.IH [OF s(3)] s(4) by (auto simp: restrict_map_def fun_eq_iff)
qed

section \<open>The interface of the clients\<close>

text \<open>
  What the transfer loops rely on: a bag of packets, each with a sequence number, to which a
  packet is added, in which a number is looked up, and from which the packet with a given
  number is taken.
\<close>

locale packet_queue =
  fixes holds :: "'h \<Rightarrow> 'b \<Rightarrow> 'p list \<Rightarrow> bool"
    and store :: "'h \<Rightarrow> 's"
    and seq_of :: "'h \<Rightarrow> 'p \<Rightarrow> u8"
    and fresh :: "'h \<Rightarrow> 'n \<Rightarrow> bool"
    and live :: "'h \<Rightarrow> 'p \<Rightarrow> bool"
    and enq :: "'h \<Rightarrow> 'b \<Rightarrow> 'p \<Rightarrow> 'n \<Rightarrow> (int \<times> 'h \<times> 'b) option"
    and mem :: "'h \<Rightarrow> 'b \<Rightarrow> u8 \<Rightarrow> bool option"
    and rem :: "'h \<Rightarrow> 'b \<Rightarrow> u8 \<Rightarrow> ('p option \<times> 'h \<times> 'b) option"
  assumes seq: "store h' = store h \<Longrightarrow> seq_of h' = seq_of h"
    and enq: "holds h b ps \<Longrightarrow> fresh h n \<Longrightarrow> live h p \<Longrightarrow> p \<notin> set ps \<Longrightarrow>
      \<exists>h' b' xs ys. enq h b p n = Some (0, h', b') \<and> ps = xs @ ys \<and> holds h' b' (xs @ p # ys) \<and>
        store h' = store h"
    and mem: "holds h b ps \<Longrightarrow> mem h b s = Some (s \<in> set (map (seq_of h) ps))"
    and rem_present: "holds h b ps \<Longrightarrow> s \<in> set (map (seq_of h) ps) \<Longrightarrow>
      \<exists>p h' b'. rem h b s = Some (Some p, h', b') \<and> p \<in> set ps \<and> seq_of h p = s \<and>
        holds h' b' (remove1 p ps) \<and> store h' = store h"
    and rem_absent: "holds h b ps \<Longrightarrow> s \<notin> set (map (seq_of h) ps) \<Longrightarrow> rem h b s = Some (None, h, b)"
begin

text \<open>Both loops add a packet only when its number is not in the buffer.\<close>

lemma enq_new:
  assumes "holds h b ps" "fresh h n" "live h p" "mem h b (seq_of h p) = Some False"
    "distinct (map (seq_of h) ps)"
  shows "\<exists>h' b' ps'. enq h b p n = Some (0, h', b') \<and> holds h' b' ps' \<and>
    distinct (map (seq_of h') ps') \<and> set ps' = insert p (set ps) \<and> (ps' = p # ps \<or> (ps \<noteq> [] \<and> hd ps' = hd ps)) \<and>
    (\<forall>s. mem h' b' s = Some (s = seq_of h p \<or> mem h b s = Some True)) \<and> store h' = store h"
proof -
  have new: "seq_of h p \<notin> set (map (seq_of h) ps)" using mem [OF assms(1)] assms(4) by auto
  then have "p \<notin> set ps" by auto
  then obtain h' b' xs ys where e: "enq h b p n = Some (0, h', b')" "ps = xs @ ys"
    "holds h' b' (xs @ p # ys)" "store h' = store h"
    using enq [OF assms(1-3)] by blast
  note seq = seq [OF e(4)]
  have "distinct (map (seq_of h') (xs @ p # ys))"
    using assms(5) new unfolding e(2) seq by auto
  moreover have "xs @ p # ys = p # ps \<or> (ps \<noteq> [] \<and> hd (xs @ p # ys) = hd ps)"
    using e(2) by (cases xs) auto
  moreover have "mem h' b' s = Some (s = seq_of h p \<or> mem h b s = Some True)" for s
    using mem [OF e(3)] mem [OF assms(1)] e(2) seq by auto
  ultimately show ?thesis using e by (intro exI [of _ h'] exI [of _ b'] exI [of _ "xs @ p # ys"]) auto
qed

text \<open>Taking out the packet the client looks at.\<close>

lemma rem_unique:
  assumes "holds h b ps" "p \<in> set ps" "distinct (map (seq_of h) ps)"
  shows "\<exists>h' b'. rem h b (seq_of h p) = Some (Some p, h', b') \<and> holds h' b' (remove1 p ps) \<and>
    store h' = store h \<and> mem h' b' (seq_of h p) = Some False"
proof -
  obtain p' h' b' where r: "rem h b (seq_of h p) = Some (Some p', h', b')" "p' \<in> set ps" "seq_of h p' = seq_of h p"
    "holds h' b' (remove1 p' ps)" "store h' = store h"
    using rem_present [OF assms(1), of "seq_of h p"] assms(2) by auto
  have "p' = p" using r(2,3) assms(2,3) by (auto simp: distinct_map dest: inj_onD)
  moreover have "seq_of h p \<notin> set (map (seq_of h) (remove1 p ps))"
    using assms(2,3) by (auto simp: distinct_map dest: inj_onD)
  ultimately show ?thesis using r mem [OF r(4)] seq [OF r(5)] by auto
qed

end

lemma enqueue_law:
  assumes "holds h b ps" "nodes h n = None" "p \<in> dom (pkts h)" "p \<notin> set ps"
  shows "\<exists>h' b' xs ys. buffer_enqueue h b p (Some n) = Some (0, h', b') \<and> ps = xs @ ys \<and>
    holds h' b' (xs @ p # ys) \<and> pseq h' = pseq h \<and> pkts h' = pkts h"
proof -
  obtain q where "pkts h p = Some q" using assms(3) by auto
  from holds_enqueue [OF assms(1,2) this assms(4)] obtain h' b' k where
    "buffer_enqueue h b p (Some n) = Some (0, h', b')" "holds h' b' (take k ps @ p # drop k ps)" "pkts h' = pkts h"
    by blast
  moreover have "pseq h' = pseq h" using calculation(3) by (auto simp: pseq_def)
  ultimately show ?thesis by (metis append_take_drop_id)
qed

lemma remove_law:
  assumes "holds h b ps" "s \<in> set (map (pseq h) ps)"
  shows "\<exists>p h' b'. buffer_remove h b s = Some (Some p, h', b') \<and> p \<in> set ps \<and> pseq h p = s \<and>
    holds h' b' (remove1 p ps) \<and> pseq h' = pseq h \<and> pkts h' = pkts h"
proof -
  obtain p where p: "find_seq h s ps = Some p" using assms(2) find_seq_None [of h s ps] by fastforce
  from holds_remove [OF assms(1) p] obtain h' b' where
    "buffer_remove h b s = Some (Some p, h', b')" "holds h' b' (remove1 p ps)" "pkts h' = pkts h" by blast
  moreover have "pseq h' = pseq h" using calculation(3) by (auto simp: pseq_def)
  ultimately show ?thesis using find_seq_Some [OF p] by blast
qed

text \<open>The linked list of \<open>buffer.c\<close> provides the interface.\<close>

interpretation buf: packet_queue holds pkts pseq "\<lambda>h n. nodes h n = None" "\<lambda>h p. p \<in> dom (pkts h)"
  "\<lambda>h b p n. buffer_enqueue h b p (Some n)" "\<lambda>h b. is_in_buffer h (Some b)" buffer_remove
proof unfold_locales
  fix h h' :: heap
  assume "pkts h' = pkts h"
  then show "pseq h' = pseq h" by (auto simp: pseq_def)
next
  fix h b ps n p
  assume "holds h b ps" "nodes h n = None" "p \<in> dom (pkts h)" "p \<notin> set ps"
  then show "\<exists>h' b' xs ys. buffer_enqueue h b p (Some n) = Some (0, h', b') \<and> ps = xs @ ys \<and>
      holds h' b' (xs @ p # ys) \<and> pkts h' = pkts h"
    using enqueue_law by blast
next
  fix h b ps s
  assume "holds h b ps" "s \<in> set (map (pseq h) ps)"
  then show "\<exists>p h' b'. buffer_remove h b s = Some (Some p, h', b') \<and> p \<in> set ps \<and> pseq h p = s \<and>
      holds h' b' (remove1 p ps) \<and> pkts h' = pkts h"
    using remove_law by blast
qed (use holds_mem holds_remove_absent in blast)+

section \<open>Properties\<close>

definition demo_heap :: heap where
  "demo_heap = \<lparr>nodes = [1 \<mapsto> \<lparr>n_next = Some 2, n_prev = Some 2, n_pkt = 11\<rparr>,
                         2 \<mapsto> \<lparr>n_next = Some 1, n_prev = Some 1, n_pkt = 12\<rparr>], stale = Map.empty,
     pkts = [11 \<mapsto> zero_pkt\<lparr>p_seqnum := 4\<rparr>, 12 \<mapsto> zero_pkt\<lparr>p_seqnum := 7\<rparr>, 13 \<mapsto> zero_pkt\<lparr>p_seqnum := 5\<rparr>]\<rparr>"

definition demo_buffer :: buffer where
  "demo_buffer = \<lparr>b_first = Some 1, b_last = Some 2, b_size = 2\<rparr>"

lemma demo_holds: "holds demo_heap demo_buffer [11, 12]"
  unfolding holds_def
  by (intro exI [of _ "[1, 2]"]) (auto simp: rep_def ring_def pk_def demo_heap_def demo_buffer_def)

lemma demo_seq: "map (pseq demo_heap) [11, 12] = [4, 7]"
  by (simp add: pseq_def demo_heap_def pkt_get_seqnum_def)

text \<open>C22. \<open>buffer_enqueue\<close> on a well-formed buffer, with a fresh node, never follows a null or
  dangling pointer and ends: it returns 0 and the buffer is the well-formed circular list
  with the packet inserted at one place; packets are untouched and no node leaks. When
  \<open>malloc\<close> fails it returns -1 and changes nothing.\<close>

theorem enqueue_inserts:
  assumes "holds h b ps" "nodes h n = None" "p \<in> dom (pkts h)" "p \<notin> set ps"
  shows "buffer_enqueue h b p None = Some (-1, h, b) \<and>
    (\<exists>h' b' xs ys. buffer_enqueue h b p (Some n) = Some (0, h', b') \<and> ps = xs @ ys \<and>
      holds h' b' (xs @ p # ys) \<and> pkts h' = pkts h)"
  using enqueue_law [OF assms] by (auto simp: buffer_enqueue_def)

theorem enqueue_inserts_witness:
  "\<exists>h' b' xs ys. buffer_enqueue demo_heap demo_buffer 13 (Some 3) = Some (0, h', b') \<and> [11, 12] = xs @ ys \<and>
      holds h' b' (xs @ 13 # ys)"
proof -
  have "nodes demo_heap 3 = None" "13 \<in> dom (pkts demo_heap)" by (simp_all add: demo_heap_def)
  from enqueue_inserts [OF demo_holds this] show ?thesis by auto
qed

text \<open>Lookups: \<open>is_in_buffer\<close> says whether some packet has the number, \<open>buffer_get_pkt\<close> gives
  the first such packet or the null pointer, \<open>buffer_print\<close> lists all numbers in order.\<close>

theorem lookup_spec:
  assumes "holds h b ps"
  shows "is_in_buffer h (Some b) s = Some (s \<in> set (map (pseq h) ps)) \<and>
    buffer_get_pkt h b s = Some (find (\<lambda>p. pseq h p = s) ps) \<and>
    buffer_print h b = Some (map (pseq h) ps, length ps) \<and>
    look_for_unsended_packet h (Some b) = Some (find (\<lambda>p. pkt_get_timestamp (the (pkts h p)) = 0) ps)"
  using holds_mem [OF assms] holds_get [OF assms] holds_print [OF assms] holds_unsended [OF assms]
  by (simp add: find_seq_def)

theorem lookup_spec_witness:
  "is_in_buffer demo_heap (Some demo_buffer) 7 = Some True \<and> buffer_get_pkt demo_heap demo_buffer 7 = Some (Some 12) \<and>
   buffer_print demo_heap demo_buffer = Some ([4, 7], 2)"
  using lookup_spec [OF demo_holds, of 7] demo_seq by simp

lemma remove_first_empty: "holds h b [] \<Longrightarrow> buffer_remove_first h (Some b) = Some (None, h, Some b)"
  using holds_facts(3) [of h b "[]"] by (simp add: buffer_remove_first_def)

text \<open>C23. \<open>buffer_remove\<close> takes out and returns the first packet with the number, keeping the list
  well formed, freeing its node and no packet; with no such packet it returns the null
  pointer and changes nothing. \<open>buffer_remove_first\<close> does the same for the first packet.\<close>

theorem remove_spec:
  assumes "holds h b ps"
  shows "(case find (\<lambda>p. pseq h p = s) ps of
      None \<Rightarrow> buffer_remove h b s = Some (None, h, b)
    | Some p \<Rightarrow> \<exists>h' b'. buffer_remove h b s = Some (Some p, h', b') \<and> holds h' b' (remove1 p ps) \<and> pkts h' = pkts h) \<and>
    (case ps of [] \<Rightarrow> buffer_remove_first h (Some b) = Some (None, h, Some b)
     | p # ps' \<Rightarrow> \<exists>h' b'. buffer_remove_first h (Some b) = Some (Some p, h', Some b') \<and> holds h' b' ps' \<and> pkts h' = pkts h)"
proof (intro conjI)
  show "case find (\<lambda>p. pseq h p = s) ps of
      None \<Rightarrow> buffer_remove h b s = Some (None, h, b)
    | Some p \<Rightarrow> \<exists>h' b'. buffer_remove h b s = Some (Some p, h', b') \<and> holds h' b' (remove1 p ps) \<and> pkts h' = pkts h"
    using holds_remove [OF assms, of s] holds_remove_absent [OF assms, of s] find_seq_None [of h s ps]
    by (auto simp: find_seq_def split: option.splits)
  show "case ps of [] \<Rightarrow> buffer_remove_first h (Some b) = Some (None, h, Some b)
     | p # ps' \<Rightarrow> \<exists>h' b'. buffer_remove_first h (Some b) = Some (Some p, h', Some b') \<and> holds h' b' ps' \<and> pkts h' = pkts h"
    using assms holds_remove_first remove_first_empty by (auto split: list.splits)
qed

theorem remove_spec_witness:
  "\<exists>h' b'. buffer_remove demo_heap demo_buffer 7 = Some (Some 12, h', b') \<and> holds h' b' [11]"
proof -
  have "find (\<lambda>p. pseq demo_heap p = 7) [11, 12] = Some 12" using demo_seq by simp
  then show ?thesis using remove_spec [OF demo_holds, of 7] by auto
qed

text \<open>A cumulative acknowledgement: when its number is in the buffer, \<open>buffer_remove_acked\<close>
  ends, removes and frees exactly the packets in front of the one with that number and
  returns how many. When it is not, in particular when it is the number after the last
  packet and so acknowledges them all, nothing is removed.\<close>

theorem remove_acked_spec:
  assumes "holds h b ps"
  shows "if s \<in> set (map (pseq h) ps) then
      \<exists>h' b'. buffer_remove_acked h b s = Some (length (takeWhile (\<lambda>p. pseq h p \<noteq> s) ps), h', b') \<and>
        holds h' b' (dropWhile (\<lambda>p. pseq h p \<noteq> s) ps) \<and>
        pkts h' = pkts h |` (- set (takeWhile (\<lambda>p. pseq h p \<noteq> s) ps))
    else buffer_remove_acked h b s = Some (0, h, b)"
  using holds_remove_acked [OF assms, of s] holds_remove_acked_absent [OF assms, of s] by simp

theorem remove_acked_spec_witness:
  "(\<exists>h' b'. buffer_remove_acked demo_heap demo_buffer 7 = Some (1, h', b') \<and> holds h' b' [12]) \<and>
   buffer_remove_acked demo_heap demo_buffer 8 = Some (0, demo_heap, demo_buffer)"
proof -
  have s: "pseq demo_heap 11 = 4" "pseq demo_heap 12 = 7" using demo_seq by simp_all
  show ?thesis using remove_acked_spec [OF demo_holds, of 7] remove_acked_spec [OF demo_holds, of 8] s by auto
qed

text \<open>\<open>buffer_free\<close> ends and leaves no node and none of the packets of the buffer: nothing is
  leaked, nothing is freed twice.\<close>

theorem free_releases_all:
  assumes "holds h b ps"
  shows "\<exists>h'. buffer_free h b = Some (h', 0) \<and> nodes h' = Map.empty \<and> pkts h' = pkts h |` (- set ps)"
  by (rule holds_free [OF assms])

theorem free_releases_all_witness:
  "\<exists>h'. buffer_free demo_heap demo_buffer = Some (h', 0) \<and> nodes h' = Map.empty \<and> dom (pkts h') = {13}"
  using free_releases_all [OF demo_holds] by (auto simp: demo_heap_def)

inductive buffer_run :: "heap \<Rightarrow> buffer \<Rightarrow> bool" where
  init: "buffer_run \<lparr>nodes = Map.empty, stale = Map.empty, pkts = m\<rparr> buffer_init"
| store: "buffer_run h b \<Longrightarrow> buffer_run (h\<lparr>pkts := (pkts h)(p \<mapsto> q)\<rparr>) b"
| enq: "buffer_run h b \<Longrightarrow> nodes h n = None \<Longrightarrow> p \<in> dom (pkts h) \<Longrightarrow> p \<notin> n_pkt ` ran (nodes h) \<Longrightarrow>
    buffer_enqueue h b p (Some n) = Some (r, h', b') \<Longrightarrow> buffer_run h' b'"
| rem: "buffer_run h b \<Longrightarrow> buffer_remove h b s = Some (r, h', b') \<Longrightarrow> buffer_run h' b'"
| rem_first: "buffer_run h b \<Longrightarrow> buffer_remove_first h (Some b) = Some (r, h', Some b') \<Longrightarrow> buffer_run h' b'"
| acked: "buffer_run h b \<Longrightarrow> buffer_remove_acked h b s = Some (k, h', b') \<Longrightarrow> buffer_run h' b'"

lemma holds_pkts_of_nodes: "holds h b ps \<Longrightarrow> set ps = n_pkt ` ran (nodes h)"
proof -
  assume "holds h b ps"
  then obtain as where as: "map (pk h) as = ps" "dom (nodes h) = set as" by (auto simp: holds_def)
  have "set ps = pk h ` dom (nodes h)" using as by auto
  also have "\<dots> = n_pkt ` ran (nodes h)" by (force simp: pk_def ran_def image_def dom_def)
  finally show ?thesis .
qed

text \<open>C21. Any sequence of the operations, starting from \<open>buffer_init\<close> and with the packets changed
  freely in between, keeps the buffer a well-formed circular list with no leaked node.\<close>

theorem buffer_run_well_formed:
  assumes "buffer_run h b"
  shows "\<exists>ps. holds h b ps"
  using assms
proof induction
  case (init m)
  show ?case by (rule exI [of _ "[]"], subst holds_empty) simp
next
  case (store h b p q)
  then obtain ps where ps: "holds h b ps" by blast
  have "set ps \<subseteq> dom ((pkts h)(p \<mapsto> q))" using holds_facts(2) [OF ps] by auto
  then show ?case using holds_pkts [OF ps] by blast
next
  case (enq h b n p r h' b')
  then obtain ps where ps: "holds h b ps" by blast
  then show ?case using enqueue_law [OF ps enq.hyps(2,3)] enq.hyps(4,5) holds_pkts_of_nodes [OF ps] by auto
next
  case (rem h b s r h' b')
  then obtain ps where ps: "holds h b ps" by blast
  then show ?case using remove_law [OF ps, of s] holds_remove_absent [OF ps, of s] rem.hyps(2)
    by (cases "s \<in> set (map (pseq h) ps)") auto
next
  case (rem_first h b r h' b')
  then obtain ps where ps: "holds h b ps" by blast
  show ?case
  proof (cases ps)
    case Nil
    then show ?thesis using remove_first_empty rem_first ps by auto
  next
    case (Cons p ps')
    then show ?thesis using holds_remove_first [of h b p ps'] ps rem_first.hyps(2) by auto
  qed
next
  case (acked h b s k h' b')
  then obtain ps where ps: "holds h b ps" by blast
  then show ?case using holds_remove_acked [OF ps, of s] holds_remove_acked_absent [OF ps, of s] acked.hyps(2)
    by (cases "s \<in> set (map (pseq h) ps)") auto
qed

theorem buffer_run_well_formed_witness:
  "\<exists>ps. holds \<lparr>nodes = Map.empty, stale = Map.empty, pkts = [1 \<mapsto> zero_pkt]\<rparr> buffer_init ps"
  by (rule buffer_run_well_formed [OF buffer_run.init])

end
