(* ===== verification/Seq_Order.thy ===== *)
theory Seq_Order
  imports Packet_Queue "HOL-Library.Multiset"
begin

text \<open>
  Where \<open>buffer_enqueue\<close> puts a packet: sequence numbers count modulo 256, so the order to
  keep is the one of the distance from the start of the window. \<open>enq_pos_window\<close> says
  exactly when the insertion keeps that order.
\<close>

section \<open>The order of a window\<close>

definition window_key :: "u8 \<Rightarrow> u8 \<Rightarrow> nat" where
  "window_key base x = unat (x - base)"

definition window_sorted :: "u8 \<Rightarrow> u8 list \<Rightarrow> bool" where
  "window_sorted base qs \<longleftrightarrow>
     sorted_wrt (<) (map (window_key base) qs) \<and> (\<forall>q \<in> set qs. window_key base q < 50)"

text \<open>The sequence numbers of the buffer after an insertion.\<close>

definition enq_insert :: "u8 \<Rightarrow> u8 list \<Rightarrow> u8 list" where
  "enq_insert s qs = take (enq_pos s qs) qs @ s # drop (enq_pos s qs) qs"

lemma window_key_if:
  "window_key b x = (if unat b \<le> unat x then unat x - unat b else unat x + 256 - unat b)"
  using unsigned_less [of x, where ?'a = nat] unsigned_less [of b, where ?'a = nat]
  by (simp add: window_key_def unat_sub_if')

lemma window_key_inj: "window_key b x = window_key b y \<longleftrightarrow> x = y"
  by (simp add: window_key_def flip: word_unat_eq_iff)

lemma window_key_high:
  assumes "window_key b q < 50" "window_key b s < 50" "s > 205"
  shows "q < s \<and> \<not> q < 50 \<longleftrightarrow> window_key b q < window_key b s"
  using assms unsigned_less [of s, where ?'a = nat] unsigned_less [of b, where ?'a = nat]
    unsigned_less [of q, where ?'a = nat]
  by (auto simp: window_key_if word_less_nat_alt word_le_nat_alt split: if_splits)

lemma window_key_back:
  assumes "window_key b q < 50" "window_key b s < 50" "\<not> (q < 50 \<and> s > 205)"
  shows "s < q \<and> \<not> (q > 205 \<and> s < 50) \<longleftrightarrow> window_key b s < window_key b q"
  using assms unsigned_less [of s, where ?'a = nat] unsigned_less [of b, where ?'a = nat]
    unsigned_less [of q, where ?'a = nat]
  by (auto simp: window_key_if word_less_nat_alt word_le_nat_alt split: if_splits)

lemma window_key_low:
  assumes "window_key b l < 50" "window_key b q \<le> window_key b l" "window_key b s < 50" "q < 50" "s > 205"
  shows "l < 50"
  using assms unsigned_less [of s, where ?'a = nat] unsigned_less [of b, where ?'a = nat]
    unsigned_less [of q, where ?'a = nat] unsigned_less [of l, where ?'a = nat]
  by (auto simp: window_key_if word_less_nat_alt word_le_nat_alt split: if_splits)

lemma window_key_wrapped:
  assumes "window_key b q < window_key b x" "window_key b x < 50" "q > 205" "\<not> x > 205"
  shows "x < 50"
  using assms unsigned_less [of b, where ?'a = nat] unsigned_less [of q, where ?'a = nat]
    unsigned_less [of x, where ?'a = nat]
  by (auto simp: window_key_if word_less_nat_alt split: if_splits)

lemma window_sorted_simps [simp]:
  "window_sorted b []"
  "window_sorted b (q # qs) \<longleftrightarrow>
     window_key b q < 50 \<and> (\<forall>x \<in> set qs. window_key b q < window_key b x) \<and> window_sorted b qs"
  by (auto simp: window_sorted_def)

lemma window_sortedD: "window_sorted b qs \<Longrightarrow> q \<in> set qs \<Longrightarrow> window_key b q < 50"
  by (simp add: window_sorted_def)

lemma window_sorted_append:
  "window_sorted b (xs @ ys) \<longleftrightarrow> window_sorted b xs \<and> window_sorted b ys \<and>
     (\<forall>x \<in> set xs. \<forall>y \<in> set ys. window_key b x < window_key b y)"
  by (induction xs) auto

text \<open>The place the order asks for.\<close>

definition window_pos :: "u8 \<Rightarrow> u8 \<Rightarrow> u8 list \<Rightarrow> nat" where
  "window_pos b s qs = length (takeWhile (\<lambda>q. window_key b q < window_key b s) qs)"

lemma dropWhile_window:
  assumes "window_sorted b qs" "s \<notin> set qs" "q \<in> set (dropWhile (\<lambda>q. window_key b q < window_key b s) qs)"
  shows "window_key b s < window_key b q"
  using assms
proof (induction qs)
  case (Cons x qs)
  then show ?case using window_key_inj [of b x s] by (auto split: if_splits)
qed simp

lemma window_insert_iff:
  assumes "window_sorted b qs" "s \<notin> set qs" "window_key b s < 50" "k \<le> length qs"
  shows "window_sorted b (take k qs @ s # drop k qs) \<longleftrightarrow> k = window_pos b s qs"
  using assms
proof (induction qs arbitrary: k)
  case (Cons x qs)
  have x: "x \<noteq> s" "window_key b x \<noteq> window_key b s" using Cons.prems(2) window_key_inj by auto
  show ?case
  proof (cases k)
    case 0
    then show ?thesis using Cons.prems x by (auto simp: window_pos_def)
  next
    case (Suc j)
    have "window_sorted b (take k (x # qs) @ s # drop k (x # qs)) \<longleftrightarrow>
        window_key b x < window_key b s \<and> window_sorted b (take j qs @ s # drop j qs)"
      using Cons.prems Suc by (auto dest: in_set_takeD in_set_dropD)
    then show ?thesis using Cons.IH [of j] Cons.prems Suc by (auto simp: window_pos_def)
  qed
qed (simp add: window_pos_def)

lemma takeWhile_rev_window:
  assumes "window_sorted b qs" "s \<notin> set qs"
    "\<And>q. q \<in> set qs \<Longrightarrow> Q q \<longleftrightarrow> window_key b s < window_key b q"
  shows "length (takeWhile Q (rev qs)) = length qs - window_pos b s qs"
proof -
  let ?P = "\<lambda>q. window_key b q < window_key b s"
  have "rev qs = rev (dropWhile ?P qs) @ rev (takeWhile ?P qs)"
    by (simp flip: rev_append)
  moreover have "Q q" if "q \<in> set (rev (dropWhile ?P qs))" for q
    using dropWhile_window [OF assms(1,2)] assms(3) that by (auto dest: set_dropWhileD)
  moreover have "takeWhile Q (rev (takeWhile ?P qs)) = []"
  proof -
    have "\<not> Q q" if "q \<in> set (takeWhile ?P qs)" for q
      using that assms(3) [of q] set_takeWhileD [OF that] by auto
    then show ?thesis by (cases "takeWhile ?P qs" rule: rev_cases) auto
  qed
  ultimately have "takeWhile Q (rev qs) = rev (dropWhile ?P qs)"
    by (simp only: takeWhile_append2 append_Nil2)
  moreover have "length qs = length (takeWhile ?P qs) + length (dropWhile ?P qs)"
    by (metis length_append takeWhile_dropWhile_id)
  ultimately show ?thesis by (simp add: window_pos_def)
qed

text \<open>
  The one case the code gets wrong: the buffer starts with a packet of the end of the
  cycle, everything after it has wrapped, and the new packet comes between the two.
\<close>

definition misplaced :: "u8 \<Rightarrow> u8 list \<Rightarrow> bool" where
  "misplaced s qs \<longleftrightarrow> qs \<noteq> [] \<and> hd qs > 205 \<and> s < 50 \<and> tl qs \<noteq> [] \<and> (\<forall>q \<in> set (tl qs). q < 50 \<and> s < q)"

lemma window_pos_le: "window_pos b s qs \<le> length qs"
  by (simp add: window_pos_def length_takeWhile_le)

lemma window_pos_ConsD:
  "window_key b q < window_key b s \<Longrightarrow> window_pos b s (q # qs) = Suc (window_pos b s qs)"
  "\<not> window_key b q < window_key b s \<Longrightarrow> window_pos b s (q # qs) = 0"
  by (simp_all add: window_pos_def)

lemma enq_pos_wrapped:
  assumes ws: "window_sorted b (q0 # qs)" "s \<notin> set (q0 # qs)" "window_key b s < 50"
    and w: "last (q0 # qs) < 50" "s > 205"
  shows "enq_pos s (q0 # qs) = window_pos b s (q0 # qs)"
proof -
  have high: "x < s \<and> \<not> x < 50 \<longleftrightarrow> window_key b x < window_key b s" if "x \<in> set (q0 # qs)" for x
    using window_sortedD [OF ws(1) that] ws(3) w(2) by (rule window_key_high)
  have "takeWhile (\<lambda>q. q < s \<and> \<not> q < 50) qs = takeWhile (\<lambda>q. window_key b q < window_key b s) qs"
    using high by (intro takeWhile_cong) auto
  then show ?thesis
    using w high [of q0] ws(2) by (auto simp: enq_pos_def window_pos_def)
qed

lemma enq_pos_backward:
  assumes ws: "window_sorted b (q0 # qs)" "s \<notin> set (q0 # qs)" "window_key b s < 50"
    and w: "\<not> (last (q0 # qs) < 50 \<and> s > 205)"
  shows "enq_pos s (q0 # qs) = (if misplaced s (q0 # qs) then 0 else window_pos b s (q0 # qs))"
proof -
  have le: "window_key b x \<le> window_key b (last (q0 # qs))" if "x \<in> set (q0 # qs)" for x
    using that ws(1) by (induction qs arbitrary: q0 rule: rev_induct) (auto simp: window_sorted_append)
  have nl: "\<not> (x < 50 \<and> s > 205)" if "x \<in> set (q0 # qs)" for x
    using window_key_low [of b "last (q0 # qs)" x s] le [OF that] ws(3) w
      window_sortedD [OF ws(1), of "last (q0 # qs)"] last_in_set [of "q0 # qs"]
    by (auto simp del: last.simps)
  have bwd: "s < x \<and> \<not> (x > 205 \<and> s < 50) \<longleftrightarrow> window_key b s < window_key b x"
    if "x \<in> set (q0 # qs)" for x
    using window_sortedD [OF ws(1) that] ws(3) nl [OF that] by (rule window_key_back)
  define k where "k = length (takeWhile (\<lambda>q. s < q \<and> \<not> (q > 205 \<and> s < 50)) (rev qs))"
  have k: "k = length qs - window_pos b s qs"
    unfolding k_def using ws(1,2) bwd by (intro takeWhile_rev_window) auto
  have pos: "enq_pos s (q0 # qs) = (if k < length qs then Suc (length qs) - k
      else if qs = [] then (if s < q0 \<and> \<not> (q0 > 205 \<and> s < 50) then 0 else 1)
      else (if s < q0 then 0 else 1))"
    unfolding enq_pos_def k_def Let_def if_not_P [OF w] by simp
  have q0: "window_key b q0 \<noteq> window_key b s" using ws(2) window_key_inj by auto
  show ?thesis
  proof (cases "window_pos b s qs = 0")
    case False
    then obtain x xs where qs: "qs = x # xs" "window_key b x < window_key b s"
      by (cases qs) (auto simp: window_pos_def split: if_splits)
    then have "window_key b q0 < window_key b s" using ws(1) by auto
    moreover have "\<not> misplaced s (q0 # qs)"
      using qs bwd [of x] by (auto simp: misplaced_def word_less_nat_alt)
    ultimately show ?thesis
      using False k pos window_pos_le [of b s qs] by (auto simp: window_pos_ConsD)
  next
    case True
    then have kk: "k = length qs" using k by simp
    have "\<forall>x \<in> set qs. window_key b s < window_key b x"
    proof
      fix x assume "x \<in> set qs"
      with True dropWhile_window [of b qs s x] ws(1,2) show "window_key b s < window_key b x"
        by (auto simp: window_pos_def) (metis append_Nil takeWhile_dropWhile_id)
    qed
    then have tl: "\<forall>x \<in> set qs. s < x \<and> \<not> (x > 205 \<and> s < 50)" using bwd by auto
    have low: "q0 > 205 \<Longrightarrow> s < 50 \<Longrightarrow> x \<in> set qs \<Longrightarrow> x < 50" for x
      using window_key_wrapped [of b q0 x] tl ws(1) window_sortedD [OF ws(1), of x] by auto
    have lt: "q0 > 205 \<Longrightarrow> s < 50 \<Longrightarrow> s < q0" by (auto simp: word_less_nat_alt)
    have mis: "misplaced s (q0 # qs) \<longleftrightarrow> q0 > 205 \<and> s < 50 \<and> qs \<noteq> []"
      using tl low by (auto simp: misplaced_def)
    have wp: "window_pos b s (q0 # qs) = (if window_key b q0 < window_key b s then 1 else 0)"
      using True by (auto simp: window_pos_ConsD)
    have q: "s < q0 \<and> \<not> (q0 > 205 \<and> s < 50) \<longleftrightarrow> \<not> window_key b q0 < window_key b s"
      using bwd [of q0] q0 by auto
    show ?thesis
      unfolding pos mis wp kk using q lt by (cases "qs = []"; cases "q0 > 205 \<and> s < 50") simp_all
  qed
qed

lemma enq_pos_window:
  assumes "window_sorted b qs" "s \<notin> set qs" "window_key b s < 50"
  shows "enq_pos s qs = (if misplaced s qs then 0 else window_pos b s qs)"
proof (cases qs)
  case Nil
  then show ?thesis by (simp add: enq_pos_def window_pos_def misplaced_def)
next
  case (Cons q0 q)
  show ?thesis
  proof (cases "last (q0 # q) < 50 \<and> s > 205")
    case True
    then have "\<not> misplaced s qs" by (auto simp: misplaced_def word_less_nat_alt)
    then show ?thesis using enq_pos_wrapped [of b q0 q s] assms True Cons by auto
  next
    case False
    then show ?thesis using enq_pos_backward [of b q0 q s] assms Cons by auto
  qed
qed

section \<open>Properties\<close>

lemma misplaced_pos:
  assumes "window_sorted b qs" "misplaced s qs" "window_key b s < 50"
  shows "window_pos b s qs \<noteq> 0"
proof -
  obtain q0 q1 r where qs: "qs = q0 # q1 # r" using assms(2) by (cases qs; cases "tl qs") (auto simp: misplaced_def)
  have "q0 > 205" "s < 50" using assms(2) by (auto simp: misplaced_def qs)
  moreover have "q1 < 50" "s < q1" using assms(2) by (auto simp: misplaced_def qs)
  moreover have "window_key b q0 < window_key b q1" "window_key b q1 < 50" using assms(1) by (auto simp: qs)
  ultimately have "window_key b q0 < window_key b s"
    using assms(3) unsigned_less [of b, where ?'a = nat] unsigned_less [of q0, where ?'a = nat]
    by (auto simp: window_key_if word_less_nat_alt split: if_splits)
  then show ?thesis by (simp add: window_pos_def qs)
qed

lemma seqs_inserted:
  "pkts h' = pkts h \<Longrightarrow> map (pseq h') (take k ps @ p # drop k ps) =
     take k (map (pseq h) ps) @ pseq h p # drop k (map (pseq h) ps)"
  by (simp add: pseq_def take_map drop_map)

text \<open>C24. Sequence numbers wrap around. With the buffer in the order of a window of at most 50
  numbers and a new number of that window, \<open>buffer_enqueue\<close> keeps the order if and only if
  the number is not \<open>misplaced\<close>: numbers of the end of the cycle are put right, but when
  the buffer starts with one number above 205 and all the others have wrapped and are
  greater than the new one, the new one is put in front of everything.\<close>

theorem enqueue_keeps_window_order_iff:
  assumes "holds h b ps" "nodes h n = None" "pkts h p = Some q"
    "window_sorted base (map (pseq h) ps)" "window_key base (pkt_get_seqnum q) < 50"
    "pkt_get_seqnum q \<notin> set (map (pseq h) ps)"
  shows "\<exists>h' b' ps'. buffer_enqueue h b p (Some n) = Some (0, h', b') \<and> holds h' b' ps' \<and>
    mset ps' = add_mset p (mset ps) \<and>
    (window_sorted base (map (pseq h') ps') \<longleftrightarrow> \<not> misplaced (pkt_get_seqnum q) (map (pseq h) ps))"
proof -
  let ?s = "pkt_get_seqnum q" and ?qs = "map (pseq h) ps"
  define k where "k = enq_pos ?s ?qs"
  have sq: "pseq h p = ?s" using assms(3) by (simp add: pseq_def)
  then have "p \<notin> set ps" using assms(6) by (metis imageI set_map)
  from holds_enqueue [OF assms(1-3) this, folded k_def] obtain h' b' where
    e: "buffer_enqueue h b p (Some n) = Some (0, h', b')" "holds h' b' (take k ps @ p # drop k ps)"
      "pkts h' = pkts h" by blast
  have "window_sorted base (map (pseq h') (take k ps @ p # drop k ps)) \<longleftrightarrow> k = window_pos base ?s ?qs"
    unfolding seqs_inserted [OF e(3)] sq using assms(4,6,5) enq_pos_le [of ?s ?qs]
    by (intro window_insert_iff) (simp_all add: k_def)
  also have "\<dots> \<longleftrightarrow> \<not> misplaced ?s ?qs"
    using enq_pos_window [OF assms(4,6,5)] misplaced_pos [OF assms(4) _ assms(5)] by (auto simp: k_def)
  finally have "window_sorted base (map (pseq h') (take k ps @ p # drop k ps)) \<longleftrightarrow> \<not> misplaced ?s ?qs" .
  moreover have "mset (take k ps @ p # drop k ps) = add_mset p (mset ps)"
  proof -
    have "mset (take k ps) + mset (drop k ps) = mset ps"
      by (metis append_take_drop_id mset_append)
    then show ?thesis by simp
  qed
  ultimately show ?thesis using e by blast
qed

text \<open>The packets 250 and 3 are waiting and 2 comes in: the list becomes 2, 250, 3.\<close>

definition wrap_heap :: heap where
  "wrap_heap = demo_heap\<lparr>pkts := [11 \<mapsto> zero_pkt\<lparr>p_seqnum := 250\<rparr>, 12 \<mapsto> zero_pkt\<lparr>p_seqnum := 3\<rparr>,
     13 \<mapsto> zero_pkt\<lparr>p_seqnum := 2\<rparr>]\<rparr>"

lemma wrap_holds: "holds wrap_heap demo_buffer [11, 12]"
  unfolding wrap_heap_def by (rule holds_pkts [OF demo_holds]) auto

lemma wrap_seq: "map (pseq wrap_heap) [11, 12] = [250, 3]"
  by (simp add: pseq_def wrap_heap_def pkt_get_seqnum_def)

theorem enqueue_keeps_window_order_iff_witness:
  "\<exists>h' b' ps'. buffer_enqueue wrap_heap demo_buffer 13 (Some 3) = Some (0, h', b') \<and> holds h' b' ps' \<and>
    \<not> window_sorted 249 (map (pseq h') ps')"
proof -
  have n: "nodes wrap_heap 3 = None" "pkts wrap_heap 13 = Some (zero_pkt\<lparr>p_seqnum := 2\<rparr>)"
    by (simp_all add: wrap_heap_def demo_heap_def)
  have "window_sorted 249 (map (pseq wrap_heap) [11, 12])" "misplaced 2 (map (pseq wrap_heap) [11, 12])"
    unfolding wrap_seq by (simp_all add: window_key_if misplaced_def)
  then show ?thesis
    using enqueue_keeps_window_order_iff [OF wrap_holds n, of 249] wrap_seq
    by (simp add: pkt_get_seqnum_def window_key_if) blast
qed

text \<open>A number further in the window than all those of the buffer goes to the end.\<close>

lemma enqueue_at_end:
  assumes "holds h b ps" "nodes h n = None" "pkts h p = Some q"
    "window_sorted base (map (pseq h) ps @ [pkt_get_seqnum q])"
  shows "\<exists>h' b'. buffer_enqueue h b p (Some n) = Some (0, h', b') \<and> holds h' b' (ps @ [p]) \<and> pkts h' = pkts h"
proof -
  let ?s = "pkt_get_seqnum q" and ?qs = "map (pseq h) ps"
  have sq: "pseq h p = ?s" using assms(3) by (simp add: pseq_def)
  have ws: "window_sorted base ?qs" "window_key base ?s < 50" "\<forall>x \<in> set ?qs. window_key base x < window_key base ?s"
    using assms(4) by (auto simp: window_sorted_append)
  then have new: "?s \<notin> set ?qs" by auto
  then have "p \<notin> set ps" using sq by (metis imageI set_map)
  note e = holds_enqueue [OF assms(1-3) this]
  have wp: "window_pos base ?s ?qs = length ?qs" 
  proof -
    have "takeWhile (\<lambda>x. window_key base x < window_key base ?s) ?qs = ?qs"
      using ws(3) by (simp only: takeWhile_eq_all_conv)
    then show ?thesis unfolding window_pos_def by (simp only:)
  qed
  moreover have "\<not> misplaced ?s ?qs"
  proof
    assume m: "misplaced ?s ?qs"
    then obtain q0 q1 r where qs: "?qs = q0 # q1 # r"
      by (cases ?qs; cases "tl ?qs") (auto simp: misplaced_def simp del: list.map_disc_iff)
    have "window_key base q1 < window_key base ?s" "?s < q1" "q1 < 50"
      "window_key base q0 < window_key base q1" "window_key base q1 < 50" "q0 > 205"
      using ws m unfolding qs by (auto simp: misplaced_def)
    then show False
      using ws(2) unsigned_less [of base, where ?'a = nat] unsigned_less [of q0, where ?'a = nat]
      by (auto simp: window_key_if word_less_nat_alt split: if_splits)
  qed
  ultimately have "enq_pos ?s ?qs = length ps" using enq_pos_window [OF ws(1) new ws(2)] by simp
  then show ?thesis using e by auto
qed

text \<open>The sender enqueues in the order of the numbers. A number further in the window than
  all those of the buffer goes to the end, wherever the cycle wraps around.\<close>

theorem enqueue_newest_last:
  assumes "holds h b ps" "nodes h n = None" "pkts h p = Some q"
    "window_sorted base (map (pseq h) ps @ [pkt_get_seqnum q])"
  shows "\<exists>h' b'. buffer_enqueue h b p (Some n) = Some (0, h', b') \<and> holds h' b' (ps @ [p]) \<and> pkts h' = pkts h"
  using assms by (rule enqueue_at_end)

theorem enqueue_newest_last_witness:
  "\<exists>h' b'. buffer_enqueue (wrap_heap\<lparr>pkts := (pkts wrap_heap)(13 \<mapsto> zero_pkt\<lparr>p_seqnum := 4\<rparr>)\<rparr>) demo_buffer 13 (Some 3) = Some (0, h', b') \<and>
     holds h' b' [11, 12, 13]"
proof -
  let ?h = "wrap_heap\<lparr>pkts := (pkts wrap_heap)(13 \<mapsto> zero_pkt\<lparr>p_seqnum := 4\<rparr>)\<rparr>"
  have h: "holds ?h demo_buffer [11, 12]"
    by (rule holds_pkts [OF wrap_holds]) (auto simp: wrap_heap_def)
  have "nodes ?h 3 = None" "pkts ?h 13 = Some (zero_pkt\<lparr>p_seqnum := 4\<rparr>)" "map (pseq ?h) [11, 12] = [250, 3]"
    by (simp_all add: wrap_heap_def demo_heap_def pseq_def pkt_get_seqnum_def)
  then show ?thesis
    using enqueue_newest_last [OF h, of 3 13 "zero_pkt\<lparr>p_seqnum := 4\<rparr>" 249]
    by (simp add: pkt_get_seqnum_def window_key_if) blast
qed

end
