(* ===== verification/Min_Queue.thy ===== *)
theory Min_Queue
  imports Prelude "HOL-Library.Multiset"
begin

text \<open>
  The priority queue of the link simulator, \<open>src/link_simulator/min_queue.c\<close>: an array kept
  as a heap whose slot 0 has slot 1 as only child and slot \<open>i\<close> the slots \<open>2i\<close> and \<open>2i+1\<close>.
  \<open>cmp\<close> is the comparison (greater than) the queue was created with; what \<open>malloc\<close> and
  \<open>realloc\<close> return (\<open>None\<close> the null pointer, else the slots of the new block) are arguments.
  \<open>None\<close> as the result of an operation is an access outside the array. \<open>size_t\<close> is \<open>nat\<close>:
  a queue has fewer slots than there are addresses.
\<close>

section \<open>The operations\<close>

definition SLOTS_PER_MALLOC :: nat where
  "SLOTS_PER_MALLOC = 20"

definition LCHILD :: "nat \<Rightarrow> nat" where
  "LCHILD x = push_bit 1 x"

definition PARENT :: "nat \<Rightarrow> nat" where
  "PARENT x = drop_bit 1 x"

record 'a minqueue =
  mq_cmp :: "'a \<Rightarrow> 'a \<Rightarrow> bool"
  mq_size :: nat
  mq_alloc :: nat
  mq_e :: "'a list"

definition slot :: "'a list \<Rightarrow> nat \<Rightarrow> 'a option" where
  "slot e i = (if i < length e then Some (e ! i) else None)"

definition set_slot :: "nat \<Rightarrow> 'a \<Rightarrow> 'a list \<Rightarrow> 'a list option" where
  "set_slot i v e = (if i < length e then Some (e[i := v]) else None)"

definition minq_new :: "('a \<Rightarrow> 'a \<Rightarrow> bool) option \<Rightarrow> bool \<Rightarrow> 'a list option \<Rightarrow> 'a minqueue option" where
  "minq_new cmp q_ok slots = (case cmp of None \<Rightarrow> None
     | Some c \<Rightarrow> if \<not> q_ok then None
       else (case slots of None \<Rightarrow> None
         | Some e \<Rightarrow> Some \<lparr>mq_cmp = c, mq_size = 0, mq_alloc = SLOTS_PER_MALLOC, mq_e = e\<rparr>))"

definition minq_empty :: "'a minqueue option \<Rightarrow> bool" where
  "minq_empty q = (case q of None \<Rightarrow> True | Some q \<Rightarrow> mq_size q = 0)"

definition minq_size :: "'a minqueue option \<Rightarrow> nat" where
  "minq_size q = (case q of None \<Rightarrow> 0 | Some q \<Rightarrow> mq_size q)"

text \<open>The null pointer of an empty queue is the inner \<open>None\<close>.\<close>

definition minq_peek :: "'a minqueue option \<Rightarrow> 'a option option" where
  "minq_peek q = (if minq_empty q then Some None
     else do { q \<leftarrow> q; v \<leftarrow> slot (mq_e q) 0; Some (Some v) })"

text \<open>The loop of \<open>minq_push\<close>: the array and the insertion point it ends with.\<close>

function sift_up :: "('a \<Rightarrow> 'a \<Rightarrow> bool) \<Rightarrow> 'a list \<Rightarrow> nat \<Rightarrow> 'a \<Rightarrow> ('a list \<times> nat) option" where
  "sift_up cmp e i v =
     (if i = 0 then Some (e, i)
      else do {
        p \<leftarrow> slot e (PARENT i);
        if cmp p v then do {
          e \<leftarrow> set_slot i p e;
          sift_up cmp e (PARENT i) v
        } else Some (e, i)
      })"
  by pat_completeness auto
termination
  by (relation "measure (\<lambda>(cmp, e, i, v). i)") (auto simp: PARENT_def drop_bit_eq_div)

declare sift_up.simps [simp del]

definition minq_push :: "'a minqueue option \<Rightarrow> 'a \<Rightarrow> 'a list option \<Rightarrow> (int \<times> 'a minqueue option) option" where
  "minq_push q v fresh = (case q of None \<Rightarrow> Some (-1, None)
     | Some q \<Rightarrow>
       (case (if mq_size q = mq_alloc q then
                (case fresh of None \<Rightarrow> None
                 | Some new \<Rightarrow> Some (q\<lparr>mq_e := mq_e q @ new, mq_alloc := mq_size q + SLOTS_PER_MALLOC\<rparr>))
              else Some q) of
          None \<Rightarrow> Some (-1, Some q)
        | Some q \<Rightarrow> do {
            (e, i) \<leftarrow> sift_up (mq_cmp q) (mq_e q) (mq_size q) v;
            e \<leftarrow> set_slot i v e;
            Some (0, Some (q\<lparr>mq_size := mq_size q + 1, mq_e := e\<rparr>))
          }))"

definition has_child :: "('a \<Rightarrow> 'a \<Rightarrow> bool) \<Rightarrow> 'a list \<Rightarrow> nat \<Rightarrow> nat \<Rightarrow> nat option" where
  "has_child cmp e n i =
     (let left = LCHILD i; right = left + 1 in
      if left \<ge> n then Some 0
      else if right < n then do {
        l \<leftarrow> slot e left;
        r \<leftarrow> slot e right;
        Some (if cmp l r then right else left)
      } else Some left)"

lemma has_child_bound: "has_child cmp e n i = Some m \<Longrightarrow> m \<noteq> 0 \<Longrightarrow> i < m \<and> m < n"
  by (auto simp: has_child_def LCHILD_def Let_def bind_eq_Some_conv push_bit_eq_mult split: if_splits)

text \<open>The loop of \<open>minq_pop\<close>.\<close>

function sift_down :: "('a \<Rightarrow> 'a \<Rightarrow> bool) \<Rightarrow> nat \<Rightarrow> 'a list \<Rightarrow> nat \<Rightarrow> 'a list option" where
  "sift_down cmp n e i =
     (case has_child cmp e n i of None \<Rightarrow> None
      | Some m \<Rightarrow>
        if m = 0 then Some e
        else (case (slot e i, slot e m) of
            (Some a, Some b) \<Rightarrow>
              if cmp a b then sift_down cmp n (e[i := b, m := a]) m else Some e
          | _ \<Rightarrow> None))"
  by pat_completeness auto
termination
  by (relation "measure (\<lambda>(cmp, n, e, i). n - i)") (auto dest!: has_child_bound)

declare sift_down.simps [simp del]

definition minq_pop :: "'a minqueue option \<Rightarrow> 'a minqueue option option" where
  "minq_pop q = (if minq_empty q then Some q
     else do {
       q \<leftarrow> q;
       let n = mq_size q - 1;
       v \<leftarrow> slot (mq_e q) n;
       e \<leftarrow> set_slot 0 v (mq_e q);
       e \<leftarrow> sift_down (mq_cmp q) n e 0;
       Some (Some (q\<lparr>mq_size := n, mq_e := e\<rparr>))
     })"

section \<open>The heap order\<close>

text \<open>
  What the comparison has to be: \<open>gt\<close> is the strict part of a total preorder.
\<close>

locale greater_than =
  fixes gt :: "'a \<Rightarrow> 'a \<Rightarrow> bool"
  assumes asym: "gt a b \<Longrightarrow> \<not> gt b a"
    and neg_trans: "\<not> gt a b \<Longrightarrow> \<not> gt b c \<Longrightarrow> \<not> gt a c"

definition heap_ok :: "('a \<Rightarrow> 'a \<Rightarrow> bool) \<Rightarrow> 'a list \<Rightarrow> nat \<Rightarrow> bool" where
  "heap_ok gt e n \<longleftrightarrow> n \<le> length e \<and> (\<forall>i \<in> {1..<n}. \<not> gt (e ! (i div 2)) (e ! i))"

text \<open>The array with the pushed value in the hole, and the order everywhere but around it.\<close>

definition up_ok :: "('a \<Rightarrow> 'a \<Rightarrow> bool) \<Rightarrow> 'a list \<Rightarrow> nat \<Rightarrow> nat \<Rightarrow> bool" where
  "up_ok gt e n i \<longleftrightarrow> n \<le> length e \<and> i < n \<and>
     (\<forall>j \<in> {1..<n}. j \<noteq> i \<longrightarrow> \<not> gt (e ! (j div 2)) (e ! j)) \<and>
     (i > 0 \<longrightarrow> (\<forall>j \<in> {1..<n}. j div 2 = i \<longrightarrow> \<not> gt (e ! (i div 2)) (e ! j)))"

definition down_ok :: "('a \<Rightarrow> 'a \<Rightarrow> bool) \<Rightarrow> 'a list \<Rightarrow> nat \<Rightarrow> nat \<Rightarrow> bool" where
  "down_ok gt e n i \<longleftrightarrow> n \<le> length e \<and>
     (\<forall>j \<in> {1..<n}. j div 2 \<noteq> i \<longrightarrow> \<not> gt (e ! (j div 2)) (e ! j)) \<and>
     (i > 0 \<longrightarrow> (\<forall>j \<in> {1..<n}. j div 2 = i \<longrightarrow> \<not> gt (e ! (i div 2)) (e ! j)))"

lemma mset_take_swap:
  assumes "n \<le> length e" "i < n" "j < n"
  shows "mset (take n (e[i := e ! j, j := e ! i])) = mset (take n e)"
proof -
  have "take n (e[i := e ! j, j := e ! i]) = (take n e)[i := take n e ! j, j := take n e ! i]"
    using assms by (simp add: take_update_swap)
  then show ?thesis using assms using mset_swap [of j "take n e" i] by simp
qed

context greater_than
begin

lemma irrefl: "\<not> gt a a"
  using asym by blast

lemma gt_mono: "gt a b \<Longrightarrow> \<not> gt c b \<Longrightarrow> \<not> gt c a"
  using neg_trans asym by blast

lemma up_ok_swap:
  assumes "up_ok gt e n i" "i > 0" "gt (e ! (i div 2)) (e ! i)"
  shows "up_ok gt (e[i := e ! (i div 2), i div 2 := e ! i]) n (i div 2)"
proof -
  define p where "p = i div 2"
  define e' where "e' = e[i := e ! p, p := e ! i]"
  have p: "p < i" "i < n" "n \<le> length e" "p < n" using assms(1,2) by (auto simp: p_def up_ok_def)
  have at: "e' ! i = e ! p" "e' ! p = e ! i" "\<And>j. j \<noteq> i \<Longrightarrow> j \<noteq> p \<Longrightarrow> e' ! j = e ! j"
    using p by (auto simp: e'_def nth_list_update)
  have ord: "\<And>j. j \<in> {1..<n} \<Longrightarrow> j \<noteq> i \<Longrightarrow> \<not> gt (e ! (j div 2)) (e ! j)"
    "\<And>j. j \<in> {1..<n} \<Longrightarrow> j div 2 = i \<Longrightarrow> \<not> gt (e ! p) (e ! j)"
    using assms(1,2) by (auto simp: up_ok_def p_def)
  have gt: "gt (e ! p) (e ! i)" using assms(3) by (simp add: p_def)
  have "\<not> gt (e' ! (j div 2)) (e' ! j)" if j: "j \<in> {1..<n}" "j \<noteq> p" for j
  proof (cases "j = i")
    case True
    then show ?thesis using at gt asym by (simp flip: p_def)
  next
    case False
    consider "j div 2 = i" | "j div 2 = p" "j div 2 \<noteq> i" | "j div 2 \<noteq> i" "j div 2 \<noteq> p" by blast
    then show ?thesis
    proof cases
      case 1
      then show ?thesis using at ord(2) [of j] False j by simp
    next
      case 2
      then have "\<not> gt (e ! i) (e ! j)" using ord(1) [of j] False j gt neg_trans asym by metis
      then show ?thesis using 2 at False j by simp
    next
      case 3
      then show ?thesis using at(3) [of j] at(3) [of "j div 2"] ord(1) [of j] False j by simp
    qed
  qed
  moreover have "\<not> gt (e' ! (p div 2)) (e' ! j)" if "p > 0" "j \<in> {1..<n}" "j div 2 = p" for j
  proof -
    have "p div 2 \<noteq> i" "p div 2 \<noteq> p" using p that by auto
    then have pp: "e' ! (p div 2) = e ! (p div 2)" using at by simp
    have up: "\<not> gt (e ! (p div 2)) (e ! p)" using ord(1) [of p] p that by auto
    show ?thesis
    proof (cases "j = i")
      case True
      then show ?thesis using at pp up by simp
    next
      case False
      then have "\<not> gt (e ! p) (e ! j)" using ord(1) [of j] that by auto
      then have "\<not> gt (e ! (p div 2)) (e ! j)" using up neg_trans by blast
      moreover have "j \<noteq> p" using that by auto
      ultimately show ?thesis using pp at(3) [of j] False by simp
    qed
  qed
  ultimately show ?thesis using p unfolding up_ok_def e'_def [symmetric] p_def [symmetric]
    by (auto simp: e'_def)
qed

lemma sift_up_ok:
  "up_ok gt (e[i := v]) n i \<Longrightarrow> \<exists>e' i'. sift_up gt e i v = Some (e', i') \<and> i' < n \<and> length e' = length e \<and>
     heap_ok gt (e'[i' := v]) n \<and> mset (take n (e'[i' := v])) = mset (take n (e[i := v]))"
proof (induction i arbitrary: e rule: less_induct)
  case (less i)
  have i: "i < n" "n \<le> length e" using less.prems by (auto simp: up_ok_def)
  show ?case
  proof (cases "i = 0")
    case True
    then show ?thesis using less.prems by (subst sift_up.simps) (auto simp: up_ok_def heap_ok_def)
  next
    case False
    then have p: "i div 2 < i" "slot e (PARENT i) = Some (e ! (i div 2))"
      using i by (auto simp: slot_def PARENT_def drop_bit_eq_div)
    show ?thesis
    proof (cases "gt (e ! (i div 2)) v")
      case True
      let ?e = "e[i := e ! (i div 2)]"
      have sw: "?e[i div 2 := v] = (e[i := v])[i := (e[i := v]) ! (i div 2), i div 2 := (e[i := v]) ! i]"
        using i p(1) by (simp add: list_update_swap)
      have "up_ok gt (?e[i div 2 := v]) n (i div 2)"
        unfolding sw using less.prems False True i p(1) by (intro up_ok_swap) auto
      from less.IH [OF p(1) this] obtain e' i' where e': "sift_up gt ?e (i div 2) v = Some (e', i')" "i' < n"
        "length e' = length ?e" "heap_ok gt (e'[i' := v]) n"
        "mset (take n (e'[i' := v])) = mset (take n (?e[i div 2 := v]))" by blast
      have "mset (take n (?e[i div 2 := v])) = mset (take n (e[i := v]))"
        unfolding sw using i p(1) by (intro mset_take_swap) auto
      moreover have "sift_up gt e i v = sift_up gt ?e (i div 2) v"
        using False p True i by (subst sift_up.simps) (simp add: set_slot_def PARENT_def drop_bit_eq_div)
      ultimately show ?thesis using e' by auto
    next
      case notgt: False
      have "sift_up gt e i v = Some (e, i)"
        using False p notgt by (subst sift_up.simps) simp
      moreover have "heap_ok gt (e[i := v]) n"
        unfolding heap_ok_def
      proof (intro conjI ballI)
        fix j assume j: "j \<in> {1..<n}"
        show "\<not> gt (e[i := v] ! (j div 2)) (e[i := v] ! j)"
          using less.prems notgt i p(1) j by (cases "j = i") (auto simp: up_ok_def)
      qed (use i in simp)
      ultimately show ?thesis using i by auto
    qed
  qed
qed

lemma down_ok_done:
  assumes "down_ok gt e n i" "\<forall>j \<in> {1..<n}. j div 2 = i \<longrightarrow> \<not> gt (e ! i) (e ! j)"
  shows "heap_ok gt e n"
  unfolding heap_ok_def
proof (intro conjI ballI)
  fix j assume "j \<in> {1..<n}"
  then show "\<not> gt (e ! (j div 2)) (e ! j)"
    using assms by (cases "j div 2 = i") (auto simp: down_ok_def)
qed (use assms(1) in \<open>simp add: down_ok_def\<close>)

lemma has_child_cases:
  assumes "n \<le> length e" "i < n \<or> n = 0"
  shows "\<exists>m. has_child gt e n i = Some m \<and>
    (m = 0 \<longrightarrow> (\<forall>j \<in> {1..<n}. j div 2 = i \<longrightarrow> \<not> gt (e ! i) (e ! j))) \<and>
    (m \<noteq> 0 \<longrightarrow> m < n \<and> m div 2 = i \<and> i < m \<and> (\<forall>j \<in> {1..<n}. j div 2 = i \<longrightarrow> \<not> gt (e ! m) (e ! j)))"
proof -
  have ch: "j = 2 * i \<or> j = 2 * i + 1" if "j div 2 = i" for j using that by auto
  consider "n \<le> 2 * i" | "2 * i < n" "n \<le> 2 * i + 1" | "2 * i + 1 < n" by linarith
  then show ?thesis
  proof cases
    case 1
    then have "has_child gt e n i = Some 0" by (simp add: has_child_def LCHILD_def push_bit_eq_mult)
    moreover have "\<not> gt (e ! i) (e ! j)" if "j \<in> {1..<n}" "j div 2 = i" for j
      using ch [OF that(2)] 1 that by auto
    ultimately show ?thesis by auto
  next
    case 2
    then have "has_child gt e n i = Some (2 * i)"
      by (simp add: has_child_def LCHILD_def push_bit_eq_mult)
    moreover have "\<not> gt (e ! (2 * i)) (e ! j)" if "j \<in> {1..<n}" "j div 2 = i" for j
      using ch [OF that(2)] 2 that irrefl by auto
    ultimately show ?thesis using 2 by auto
  next
    case 3
    define m where "m = (if gt (e ! (2 * i)) (e ! (2 * i + 1)) then 2 * i + 1 else 2 * i)"
    have "has_child gt e n i = Some m"
      using 3 assms(1) by (simp add: has_child_def LCHILD_def push_bit_eq_mult slot_def m_def Let_def mult.commute)
    moreover have "\<not> gt (e ! m) (e ! j)" if "j div 2 = i" for j
      using ch [OF that] irrefl asym by (auto simp: m_def)
    ultimately show ?thesis using 3 by (auto simp: m_def)
  qed
qed

lemma down_ok_swap:
  assumes "down_ok gt e n i" "m < n" "m div 2 = i" "i < m" "gt (e ! i) (e ! m)"
    "\<forall>j \<in> {1..<n}. j div 2 = i \<longrightarrow> \<not> gt (e ! m) (e ! j)"
  shows "down_ok gt (e[i := e ! m, m := e ! i]) n m"
proof -
  define e' where "e' = e[i := e ! m, m := e ! i]"
  have at: "e' ! i = e ! m" "e' ! m = e ! i" "\<And>j. j \<noteq> i \<Longrightarrow> j \<noteq> m \<Longrightarrow> e' ! j = e ! j"
    using assms(1,2,4) by (auto simp: e'_def nth_list_update down_ok_def)
  have ord: "\<And>j. j \<in> {1..<n} \<Longrightarrow> j div 2 \<noteq> i \<Longrightarrow> \<not> gt (e ! (j div 2)) (e ! j)"
    "\<And>j. i > 0 \<Longrightarrow> j \<in> {1..<n} \<Longrightarrow> j div 2 = i \<Longrightarrow> \<not> gt (e ! (i div 2)) (e ! j)"
    using assms(1) by (auto simp: down_ok_def)
  have "\<not> gt (e' ! (j div 2)) (e' ! j)" if j: "j \<in> {1..<n}" "j div 2 \<noteq> m" for j
  proof (cases "j div 2 = i")
    case True
    have "\<not> gt (e ! m) (e' ! j)"
    proof (cases "j = m")
      case True
      then show ?thesis using at asym [OF assms(5)] by simp
    next
      case False
      show ?thesis
      proof (cases "j = i")
        case True
        then show ?thesis using at irrefl by simp
      next
        case ji: False
        then show ?thesis using at(3) [OF ji False] assms(6) j \<open>j div 2 = i\<close> by simp
      qed
    qed
    then show ?thesis using True at by simp
  next
    case False
    have jm: "j \<noteq> m" using False assms(3) by auto
    have up: "e' ! (j div 2) = e ! (j div 2)" using at(3) [OF False j(2)] .
    show ?thesis
    proof (cases "j = i")
      case True
      then have "i > 0" using j by auto
      then show ?thesis using up at True ord(2) [of m] assms(2-4) by auto
    next
      case ji: False
      then show ?thesis using up at(3) [OF ji jm] ord(1) [OF j(1) False] by simp
    qed
  qed
  moreover have "\<not> gt (e' ! (m div 2)) (e' ! j)" if j: "j \<in> {1..<n}" "j div 2 = m" for j
  proof -
    have "j \<noteq> m" "j \<noteq> i" "j div 2 \<noteq> i" using j assms(4) by auto
    then show ?thesis using at ord(1) [OF j(1)] j assms(3) by simp
  qed
  ultimately show ?thesis
    using assms(1) unfolding down_ok_def e'_def [symmetric] by (auto simp: e'_def)
qed

lemma sift_down_ok:
  "down_ok gt e n i \<Longrightarrow> i < n \<or> n = 0 \<Longrightarrow> \<exists>e'. sift_down gt n e i = Some e' \<and> length e' = length e \<and>
     heap_ok gt e' n \<and> mset (take n e') = mset (take n e)"
proof (induction "n - i" arbitrary: e i rule: less_induct)
  case less
  have n: "n \<le> length e" using less.prems by (simp add: down_ok_def)
  obtain m where m: "has_child gt e n i = Some m"
    "m = 0 \<Longrightarrow> \<forall>j \<in> {1..<n}. j div 2 = i \<longrightarrow> \<not> gt (e ! i) (e ! j)"
    "m \<noteq> 0 \<Longrightarrow> m < n \<and> m div 2 = i \<and> i < m \<and> (\<forall>j \<in> {1..<n}. j div 2 = i \<longrightarrow> \<not> gt (e ! m) (e ! j))"
    using has_child_cases [OF n less.prems(2)] by blast
  show ?case
  proof (cases "m = 0 \<or> \<not> gt (e ! i) (e ! m)")
    case True
    have "sift_down gt n e i = Some e"
      using True m(1,3) n by (cases "m = 0"; subst sift_down.simps) (auto simp: slot_def)
    moreover have "\<forall>j \<in> {1..<n}. j div 2 = i \<longrightarrow> \<not> gt (e ! i) (e ! j)"
      using True m(2,3) neg_trans by blast
    ultimately show ?thesis using down_ok_done less.prems(1) by auto
  next
    case False
    let ?e = "e[i := e ! m, m := e ! i]"
    have b: "m < n" "m div 2 = i" "i < m" using m(3) False by auto
    have lt: "n - m < n - i" using b(1,3) by linarith
    have "down_ok gt ?e n m" using down_ok_swap less.prems(1) m(3) False by auto
    from less.hyps [OF lt this] b(1) obtain e' where e': "sift_down gt n ?e m = Some e'" "length e' = length e"
      "heap_ok gt e' n" "mset (take n e') = mset (take n ?e)" by auto
    moreover have "sift_down gt n e i = sift_down gt n ?e m"
      using m(1) False b n by (subst sift_down.simps) (simp add: slot_def)
    moreover have "mset (take n ?e) = mset (take n e)"
      using b n by (intro mset_take_swap) auto
    ultimately show ?thesis by auto
  qed
qed

text \<open>The root is a least element.\<close>

lemma heap_root_least:
  "heap_ok gt e n \<Longrightarrow> i < n \<Longrightarrow> \<not> gt (e ! 0) (e ! i)"
proof (induction i rule: less_induct)
  case (less i)
  show ?case
  proof (cases "i = 0")
    case False
    then have "\<not> gt (e ! 0) (e ! (i div 2))" "\<not> gt (e ! (i div 2)) (e ! i)"
      using less by (auto simp: heap_ok_def)
    then show ?thesis using neg_trans by blast
  qed (simp add: irrefl)
qed

end

section \<open>The queue as a multiset\<close>

definition mq_inv :: "('a \<Rightarrow> 'a \<Rightarrow> bool) \<Rightarrow> 'a minqueue option \<Rightarrow> bool" where
  "mq_inv gt q = (case q of None \<Rightarrow> False
     | Some q \<Rightarrow> mq_cmp q = gt \<and> mq_alloc q = length (mq_e q) \<and> heap_ok gt (mq_e q) (mq_size q))"

definition mq_items :: "'a minqueue option \<Rightarrow> 'a multiset" where
  "mq_items q = (case q of None \<Rightarrow> {#} | Some q \<Rightarrow> mset (take (mq_size q) (mq_e q)))"

text \<open>\<open>realloc\<close> fails or returns the old slots and the new ones.\<close>

definition realloc_ok :: "'a list option \<Rightarrow> bool" where
  "realloc_ok fresh = (case fresh of None \<Rightarrow> True | Some new \<Rightarrow> length new = SLOTS_PER_MALLOC)"

lemma mq_items_size: "mq_inv gt q \<Longrightarrow> size (mq_items q) = minq_size q"
  by (auto simp: mq_inv_def mq_items_def minq_size_def heap_ok_def split: option.splits)

text \<open>
  The interface of a priority queue: pushing adds the element or fails without a trace,
  the element on top is a least one, and popping removes it.
\<close>

locale priority_queue = greater_than gt for gt :: "'a \<Rightarrow> 'a \<Rightarrow> bool" +
  fixes inv :: "'q \<Rightarrow> bool"
    and items :: "'q \<Rightarrow> 'a multiset"
    and mem_ok :: "'m \<Rightarrow> bool"
    and push :: "'q \<Rightarrow> 'a \<Rightarrow> 'm \<Rightarrow> (int \<times> 'q) option"
    and peek :: "'q \<Rightarrow> 'a option option"
    and pop :: "'q \<Rightarrow> 'q option"
  assumes push: "inv q \<Longrightarrow> mem_ok m \<Longrightarrow>
      push q v m = Some (-1, q) \<or>
      (\<exists>q'. push q v m = Some (0, q') \<and> inv q' \<and> items q' = add_mset v (items q))"
    and peek_empty: "inv q \<Longrightarrow> items q = {#} \<Longrightarrow> peek q = Some None"
    and peek_least: "inv q \<Longrightarrow> items q \<noteq> {#} \<Longrightarrow>
      \<exists>v. peek q = Some (Some v) \<and> v \<in># items q \<and> (\<forall>x \<in># items q. \<not> gt v x)"
    and pop: "inv q \<Longrightarrow> peek q = Some (Some v) \<Longrightarrow>
      \<exists>q'. pop q = Some q' \<and> inv q' \<and> items q' = items q - {#v#}"

text \<open>Reading and popping the top until it fails the test or the queue is empty.\<close>

partial_function (option) pop_while ::
  "('a \<Rightarrow> bool) \<Rightarrow> ('q \<Rightarrow> 'a option option) \<Rightarrow> ('q \<Rightarrow> 'q option) \<Rightarrow> 'q \<Rightarrow> ('a list \<times> 'q) option" where
  "pop_while P peek pop q = do {
     t \<leftarrow> peek q;
     (case t of None \<Rightarrow> Some ([], q)
      | Some v \<Rightarrow> if P v then do {
            q \<leftarrow> pop q;
            (vs, q) \<leftarrow> pop_while P peek pop q;
            Some (v # vs, q)
          } else Some ([], q))
   }"

context priority_queue
begin

lemma peek_cases:
  assumes "inv q"
  obtains (empty) "items q = {#}" "peek q = Some None"
  | (top) v where "peek q = Some (Some v)" "v \<in># items q" "\<And>x. x \<in># items q \<Longrightarrow> \<not> gt v x"
  using peek_empty [OF assms] peek_least [OF assms] by blast

text \<open>
  It ends, pops the elements in order, exactly those that pass when the test is downward
  closed, and keeps the rest.
\<close>

lemma pop_while_ok:
  assumes "inv q" "\<And>a b. P b \<Longrightarrow> \<not> gt a b \<Longrightarrow> P a"
  shows "\<exists>vs q'. pop_while P peek pop q = Some (vs, q') \<and> inv q' \<and>
    mset vs = filter_mset P (items q) \<and> items q' = filter_mset (\<lambda>x. \<not> P x) (items q) \<and>
    sorted_wrt (\<lambda>a b. \<not> gt a b) vs"
  using assms(1)
proof (induction "size (items q)" arbitrary: q rule: less_induct)
  case less
  from less.prems show ?case
  proof (cases rule: peek_cases)
    case empty
    then show ?thesis using less.prems by (subst pop_while.simps) simp
  next
    case (top v)
    show ?thesis
    proof (cases "P v")
      case True
      obtain q1 where q1: "pop q = Some q1" "inv q1" "items q1 = items q - {#v#}"
        using pop [OF less.prems top(1)] by blast
      have "size (items q1) < size (items q)"
        using q1(3) top(2) by (simp add: size_Diff1_less)
      from less.hyps [OF this q1(2)] obtain vs q' where vs: "pop_while P peek pop q1 = Some (vs, q')" "inv q'"
        "mset vs = filter_mset P (items q1)" "items q' = filter_mset (\<lambda>x. \<not> P x) (items q1)"
        "sorted_wrt (\<lambda>a b. \<not> gt a b) vs" by blast
      have split: "items q = add_mset v (items q1)" using q1(3) top(2) by simp
      have "pop_while P peek pop q = Some (v # vs, q')"
        using top(1) True q1(1) vs(1) by (subst pop_while.simps) simp
      moreover have "\<forall>x \<in> set vs. \<not> gt v x"
      proof
        fix x assume "x \<in> set vs"
        then have "x \<in># mset vs" by simp
        then have "x \<in># items q" unfolding vs(3) split by simp
        then show "\<not> gt v x" using top(3) by blast
      qed
      ultimately show ?thesis using vs split True by auto
    next
      case False
      then have none: "\<not> P x" if "x \<in># items q" for x using top(3) [OF that] assms(2) by blast
      have "pop_while P peek pop q = Some ([], q)"
        using top(1) False by (subst pop_while.simps) simp
      moreover have "filter_mset P (items q) = filter_mset (\<lambda>_. False) (items q)"
        using none by (intro filter_mset_cong) auto
      moreover have "filter_mset (\<lambda>x. \<not> P x) (items q) = filter_mset (\<lambda>_. True) (items q)"
        using none by (intro filter_mset_cong) auto
      ultimately show ?thesis using less.prems by auto
    qed
  qed
qed

end

section \<open>The code implements the interface\<close>

context greater_than
begin

lemma heap_up_ok: "heap_ok gt e n \<Longrightarrow> n < length e \<Longrightarrow> up_ok gt (e[n := v]) (n + 1) n"
  unfolding up_ok_def
proof (intro conjI impI ballI)
  fix j assume "heap_ok gt e n" "n < length e" "j \<in> {1..<n + 1}" "j \<noteq> n"
  then show "\<not> gt (e[n := v] ! (j div 2)) (e[n := v] ! j)"
    by (auto simp: heap_ok_def nth_list_update)
qed auto

lemma push_room:
  assumes "heap_ok gt e n" "n < length e"
  shows "\<exists>e'. (do { (e, i) \<leftarrow> sift_up gt e n v; set_slot i v e }) = Some e' \<and> length e' = length e \<and>
    heap_ok gt e' (n + 1) \<and> mset (take (n + 1) e') = add_mset v (mset (take n e))"
proof -
  obtain e1 i where e1: "sift_up gt e n v = Some (e1, i)" "i < n + 1" "length e1 = length e"
    "heap_ok gt (e1[i := v]) (n + 1)" "mset (take (n + 1) (e1[i := v])) = mset (take (n + 1) (e[n := v]))"
    using sift_up_ok [OF heap_up_ok [OF assms]] by blast
  moreover have "mset (take (n + 1) (e[n := v])) = add_mset v (mset (take n e))"
    using assms(2) by (simp add: take_Suc_conv_app_nth)
  ultimately show ?thesis using assms(2) by (simp add: set_slot_def)
qed

lemma push_ok:
  assumes "mq_inv gt q" "realloc_ok m"
  shows "minq_push q v m = Some (-1, q) \<or>
    (\<exists>q'. minq_push q v m = Some (0, q') \<and> mq_inv gt q' \<and> mq_items q' = add_mset v (mq_items q))"
proof -
  obtain q0 where q: "q = Some q0" "mq_cmp q0 = gt" "mq_alloc q0 = length (mq_e q0)"
    "heap_ok gt (mq_e q0) (mq_size q0)" using assms(1) by (auto simp: mq_inv_def split: option.splits)
  let ?n = "mq_size q0"
  show ?thesis
  proof (cases "?n = mq_alloc q0 \<and> m = None")
    case True
    then show ?thesis using q(1) by (simp add: minq_push_def)
  next
    case False
    define q1 where "q1 = (if ?n = mq_alloc q0
      then q0\<lparr>mq_e := mq_e q0 @ the m, mq_alloc := ?n + SLOTS_PER_MALLOC\<rparr> else q0)"
    have q1: "mq_cmp q1 = gt" "mq_size q1 = ?n" "mq_alloc q1 = length (mq_e q1)" "?n < length (mq_e q1)"
      "take ?n (mq_e q1) = take ?n (mq_e q0)" "heap_ok gt (mq_e q1) ?n"
      using q False assms(2)
      by (auto simp: q1_def realloc_ok_def heap_ok_def SLOTS_PER_MALLOC_def nth_append)
    obtain e' where e': "do { (e, i) \<leftarrow> sift_up gt (mq_e q1) ?n v; set_slot i v e } = Some e'"
      "length e' = length (mq_e q1)" "heap_ok gt e' (?n + 1)"
      "mset (take (?n + 1) e') = add_mset v (mset (take ?n (mq_e q1)))"
      using push_room [OF q1(6,4)] by blast
    let ?q' = "Some (q1\<lparr>mq_size := ?n + 1, mq_e := e'\<rparr>)"
    have "minq_push q v m = Some (0, ?q')"
      using False q(1) e'(1) q1(1,2)
      by (auto simp: minq_push_def q1_def bind_eq_Some_conv split: option.splits)
    moreover have "mq_inv gt ?q'" "mq_items ?q' = add_mset v (mq_items q)"
      using e' q1 q(1) by (simp_all add: mq_inv_def mq_items_def)
    ultimately show ?thesis by blast
  qed
qed

lemma peek_ok:
  assumes "mq_inv gt q"
  shows "mq_items q = {#} \<Longrightarrow> minq_peek q = Some None"
    "mq_items q \<noteq> {#} \<Longrightarrow> \<exists>v. minq_peek q = Some (Some v) \<and> v \<in># mq_items q \<and> (\<forall>x \<in># mq_items q. \<not> gt v x)"
proof -
  obtain q0 where q: "q = Some q0" "mq_alloc q0 = length (mq_e q0)" "heap_ok gt (mq_e q0) (mq_size q0)"
    using assms(1) by (auto simp: mq_inv_def split: option.splits)
  have le: "mq_size q0 \<le> length (mq_e q0)" using q(3) by (simp add: heap_ok_def)
  show "minq_peek q = Some None" if "mq_items q = {#}"
    using that q(1) le by (auto simp: mq_items_def minq_peek_def minq_empty_def)
  show "\<exists>v. minq_peek q = Some (Some v) \<and> v \<in># mq_items q \<and> (\<forall>x \<in># mq_items q. \<not> gt v x)"
    if "mq_items q \<noteq> {#}"
  proof (intro exI conjI ballI)
    have pos: "0 < mq_size q0" "0 < length (mq_e q0)"
      using that q(1) le by (auto simp: mq_items_def)
    then show "minq_peek q = Some (Some (mq_e q0 ! 0))"
      using q(1) by (simp add: minq_peek_def minq_empty_def slot_def)
    show "mq_e q0 ! 0 \<in># mq_items q"
      using pos le q(1) by (auto simp: mq_items_def in_set_conv_nth)
    fix x assume "x \<in># mq_items q"
    then show "\<not> gt (mq_e q0 ! 0) x"
      using q(1,3) le heap_root_least by (auto simp: mq_items_def in_set_conv_nth)
  qed
qed

lemma pop_ok:
  assumes "mq_inv gt q" "minq_peek q = Some (Some v)"
  shows "\<exists>q'. minq_pop q = Some q' \<and> mq_inv gt q' \<and> mq_items q' = mq_items q - {#v#}"
proof -
  obtain q0 where q: "q = Some q0" "mq_cmp q0 = gt" "mq_alloc q0 = length (mq_e q0)"
    "heap_ok gt (mq_e q0) (mq_size q0)" using assms(1) by (auto simp: mq_inv_def split: option.splits)
  obtain n where n: "mq_size q0 = Suc n"
    using assms(2) q(1) by (cases "mq_size q0") (auto simp: minq_peek_def minq_empty_def)
  let ?e = "mq_e q0"
  have len: "n < length ?e" using q(4) n by (simp add: heap_ok_def)
  then have v: "v = ?e ! 0"
    using assms(2) q(1) n by (cases "?e") (auto simp: minq_peek_def minq_empty_def slot_def)
  have "down_ok gt (?e[0 := ?e ! n]) n 0"
    using q(4) n len unfolding down_ok_def heap_ok_def by (auto simp: nth_list_update)
  then obtain e' where e': "sift_down gt n (?e[0 := ?e ! n]) 0 = Some e'" "length e' = length ?e"
    "heap_ok gt e' n" "mset (take n e') = mset (take n (?e[0 := ?e ! n]))"
    using sift_down_ok [of "?e[0 := ?e ! n]" n 0] by auto
  have "mset (take n (?e[0 := ?e ! n])) = mset (take (Suc n) ?e) - {#?e ! 0#}"
  proof (cases n)
    case 0
    then show ?thesis using len by (cases ?e) auto
  next
    case (Suc k)
    obtain x xs where e: "?e = x # xs" using len by (cases ?e) auto
    then show ?thesis using len Suc by (simp add: take_Suc_conv_app_nth)
  qed
  moreover have "minq_pop q = Some (Some (q0\<lparr>mq_size := n, mq_e := e'\<rparr>))"
    using q(1,2) n len e'(1) by (auto simp: minq_pop_def minq_empty_def slot_def set_slot_def Let_def)
  ultimately show ?thesis using e' q v n by (auto simp: mq_inv_def mq_items_def)
qed

end

sublocale greater_than \<subseteq> queue: priority_queue gt "mq_inv gt" mq_items realloc_ok minq_push minq_peek minq_pop
  by unfold_locales (use push_ok peek_ok pop_ok in blast)+

section \<open>Properties\<close>

lemma nat_greater: "greater_than ((>) :: nat \<Rightarrow> nat \<Rightarrow> bool)"
  by unfold_locales auto

definition demo_minqueue :: "nat minqueue option" where
  "demo_minqueue = Some \<lparr>mq_cmp = (>), mq_size = 4, mq_alloc = 5, mq_e = [1, 2, 9, 3, 0]\<rparr>"

lemma demo_minqueue_inv: "mq_inv (>) demo_minqueue"
proof -
  have "{1..<4 :: nat} = {1, 2, 3}" by auto
  then show ?thesis by (simp add: mq_inv_def demo_minqueue_def heap_ok_def)
qed

text \<open>For a comparison that is the strict part of a total preorder, \<open>minq_push\<close> on a
  well-formed queue ends without leaving the array and either fails with the queue
  untouched (only when it is full and \<open>realloc\<close> fails) or adds the element and keeps the
  heap order.\<close>

theorem minq_push_refines:
  assumes "greater_than gt" "mq_inv gt q" "realloc_ok m"
  shows "(m = None \<and> minq_push q v m = Some (-1, q)) \<or>
    (\<exists>q'. minq_push q v m = Some (0, q') \<and> mq_inv gt q' \<and> mq_items q' = add_mset v (mq_items q))"
proof (cases m)
  case None
  then show ?thesis using greater_than.push_ok [OF assms] by blast
next
  case (Some new)
  then have "minq_push q v m \<noteq> Some (-1, q)"
    using assms(2) by (auto simp: minq_push_def mq_inv_def bind_eq_Some_conv split: option.splits if_splits)
  then show ?thesis using greater_than.push_ok [OF assms] by blast
qed

theorem minq_push_refines_witness:
  "\<exists>q'. minq_push demo_minqueue 0 (Some (replicate 20 0)) = Some (0, q') \<and> mq_items q' = {#0, 1, 2, 9, 3#}"
  using minq_push_refines [OF nat_greater demo_minqueue_inv, of "Some (replicate 20 0)" 0]
  by (auto simp: realloc_ok_def SLOTS_PER_MALLOC_def mq_items_def demo_minqueue_def)

text \<open>C26. On a well-formed queue \<open>minq_peek\<close> gives the null pointer exactly when the queue is
  empty, otherwise an element such that none is smaller; \<open>minq_pop\<close> then ends without
  leaving the array, removes exactly that element and keeps the heap order.\<close>

theorem minq_pop_removes_least:
  assumes "greater_than gt" "mq_inv gt q"
  shows "(minq_size q = 0 \<and> minq_peek q = Some None \<and> minq_pop q = Some q) \<or>
    (\<exists>v q'. minq_peek q = Some (Some v) \<and> v \<in># mq_items q \<and> (\<forall>x \<in># mq_items q. \<not> gt v x) \<and>
       minq_pop q = Some q' \<and> mq_inv gt q' \<and> mq_items q' = mq_items q - {#v#})"
proof (cases "mq_items q = {#}")
  case True
  then have "minq_size q = 0" using mq_items_size [OF assms(2)] by simp
  moreover from this have "minq_pop q = Some q"
    using assms(2) by (auto simp: minq_pop_def minq_empty_def minq_size_def split: option.splits)
  ultimately show ?thesis using greater_than.peek_ok(1) [OF assms True] by blast
next
  case False
  then show ?thesis
    using greater_than.peek_ok(2) [OF assms False] greater_than.pop_ok [OF assms] by blast
qed

theorem minq_pop_removes_least_witness:
  "\<exists>v q'. minq_peek demo_minqueue = Some (Some v) \<and> (\<forall>x \<in># {#1, 2, 9, 3#}. v \<le> x) \<and>
     minq_pop demo_minqueue = Some q' \<and> mq_items q' = {#1, 2, 9, 3#} - {#v#}"
proof -
  have "minq_size demo_minqueue \<noteq> 0" "mq_items demo_minqueue = {#1, 2, 9, 3#}"
    by (simp_all add: minq_size_def demo_minqueue_def mq_items_def)
  then show ?thesis using minq_pop_removes_least [OF nat_greater demo_minqueue_inv] by (auto simp: not_less)
qed

inductive minq_run :: "('a \<Rightarrow> 'a \<Rightarrow> bool) \<Rightarrow> 'a minqueue option \<Rightarrow> bool" for gt where
  new: "length slots = SLOTS_PER_MALLOC \<Longrightarrow> minq_new (Some gt) True (Some slots) = q \<Longrightarrow> minq_run gt q"
| push: "minq_run gt q \<Longrightarrow> realloc_ok m \<Longrightarrow> minq_push q v m = Some (r, q') \<Longrightarrow> minq_run gt q'"
| pop: "minq_run gt q \<Longrightarrow> minq_pop q = Some q' \<Longrightarrow> minq_run gt q'"

text \<open>A queue made by \<open>minq_new\<close>, whatever block \<open>malloc\<close> gives for its slots, is empty and
  well formed, so that every queue obtained from it by \<open>minq_push\<close> and \<open>minq_pop\<close> is.\<close>

theorem minq_run_keeps_heap:
  assumes "greater_than gt" "minq_run gt q"
  shows "mq_inv gt q"
  using assms(2)
proof induction
  case (new slots q)
  then show ?case by (auto simp: minq_new_def mq_inv_def heap_ok_def)
next
  case (push q m v r q')
  then show ?case using greater_than.push_ok [OF assms(1) push.IH push.hyps(2), of v] by auto
next
  case (pop q q')
  show ?case
  proof (cases "minq_empty q")
    case True
    then show ?thesis using pop by (simp add: minq_pop_def)
  next
    case False
    then obtain v where "minq_peek q = Some (Some v)"
      using greater_than.peek_ok [OF assms(1) pop.IH] mq_items_size [OF pop.IH]
      by (fastforce simp: minq_empty_def minq_size_def split: option.splits)
    then show ?thesis using greater_than.pop_ok [OF assms(1) pop.IH] pop.hyps by fastforce
  qed
qed

theorem minq_run_keeps_heap_witness:
  "mq_inv (>) (minq_new (Some (>)) True (Some (replicate 20 (7 :: nat))))"
  by (rule minq_run_keeps_heap [OF nat_greater minq_run.new]) (simp_all add: SLOTS_PER_MALLOC_def)

end
