(* ===== verification/Link_Sim.thy ===== *)
theory Link_Sim
  imports Min_Queue
begin

text \<open>
  The link simulator, \<open>src/link_simulator/link_sim.c\<close>: a UDP proxy that drops, truncates,
  corrupts and delays packets. Its globals are the record \<open>link\<close>. What the environment
  decides is the record \<open>env\<close>: the results of \<open>rand\<close> and of \<open>sendto\<close> by the number of
  calls made so far, and of the allocations. Datagrams sent are appended to \<open>l_out\<close>. A
  result \<open>None\<close> is undefined behaviour of the C program (a remainder by zero, an access
  outside an array). Long integers are \<open>int\<close>, unsigned ones 32-bit words.
\<close>

section \<open>Time\<close>

datatype timeval = Timeval (tv_sec: int) (tv_usec: int)

definition timeval_cmp :: "timeval \<Rightarrow> timeval \<Rightarrow> bool" where
  "timeval_cmp left right =
     (if tv_sec left = tv_sec right then tv_usec left > tv_usec right
      else tv_sec left > tv_sec right)"

definition timeval_diff :: "timeval \<Rightarrow> timeval \<Rightarrow> timeval" where
  "timeval_diff a b =
     (let sec = tv_sec a - tv_sec b;
          usec = tv_usec a - tv_usec b in
      if usec < 0 then
        let sec = sec - 1 in
        if sec \<noteq> 0 then Timeval sec (usec + 1000000) else Timeval sec usec
      else Timeval sec usec)"

text \<open>The comparison is the strict part of a linear order.\<close>

instantiation timeval :: linorder
begin

definition less_eq_timeval :: "timeval \<Rightarrow> timeval \<Rightarrow> bool" where
  "less_eq_timeval a b \<longleftrightarrow> tv_sec a < tv_sec b \<or> (tv_sec a = tv_sec b \<and> tv_usec a \<le> tv_usec b)"

definition less_timeval :: "timeval \<Rightarrow> timeval \<Rightarrow> bool" where
  "less_timeval a b \<longleftrightarrow> tv_sec a < tv_sec b \<or> (tv_sec a = tv_sec b \<and> tv_usec a < tv_usec b)"

instance
  by intro_classes (auto simp: less_eq_timeval_def less_timeval_def timeval.expand)

end

lemma timeval_cmp_less: "timeval_cmp a b \<longleftrightarrow> b < a"
  by (auto simp: timeval_cmp_def less_timeval_def)

section \<open>Slots, environment and state\<close>

definition MIN_PKT_LEN :: nat where "MIN_PKT_LEN = 10"
definition MIN_PKT_PDATA_LEN :: nat where "MIN_PKT_PDATA_LEN = 12"
definition MAX_PKT_LEN :: nat where "MAX_PKT_LEN = MIN_PKT_LEN + 2 + 512 + 4"
definition LINK_FORWARD :: u32 where "LINK_FORWARD = 1"
definition LINK_REVERSE :: u32 where "LINK_REVERSE = 2"

record pkt_slot =
  ps_ts :: timeval
  ps_direction :: u32
  ps_buf :: bytes

definition pkt_slot_cmp :: "pkt_slot \<Rightarrow> pkt_slot \<Rightarrow> bool" where
  "pkt_slot_cmp a b = timeval_cmp (ps_ts a) (ps_ts b)"

interpretation slots: greater_than pkt_slot_cmp
  by unfold_locales (auto simp: pkt_slot_cmp_def timeval_cmp_less)

type_synonym sockaddr = "bytes \<times> u16"

datatype send_result = Sent | Again | Failed

record env =
  e_rand :: "nat \<Rightarrow> nat"
  e_send :: "nat \<Rightarrow> send_result"
  e_malloc :: bool
  e_realloc :: "pkt_slot list option"

record link =
  l_delay :: u32
  l_jitter :: u32
  l_err_rate :: u32
  l_cut_rate :: u32
  l_loss_rate :: u32
  l_direction :: u32
  l_queue :: "pkt_slot minqueue option"
  l_clock :: timeval
  l_dest :: sockaddr
  l_src :: "sockaddr option"
  l_rands :: nat
  l_sends :: nat
  l_errno :: send_result
  l_out :: "(sockaddr option \<times> bytes) list"

text \<open>\<open>rand()\<close>, and the test \<open>rate && RAND_PERCENT < rate\<close>, which only draws when needed.\<close>

definition draw :: "env \<Rightarrow> link \<Rightarrow> nat \<times> link" where
  "draw env st = (e_rand env (l_rands st), st\<lparr>l_rands := l_rands st + 1\<rparr>)"

definition chance :: "env \<Rightarrow> u32 \<Rightarrow> link \<Rightarrow> bool \<times> link" where
  "chance env rate st =
     (if rate = 0 then (False, st)
      else let (r, st) = draw env st in (of_nat (r mod 101) < rate, st))"

section \<open>Sending and delayed delivery\<close>

text \<open>\<open>src_addr\<close> is all zero, here \<open>None\<close>, until a packet came in.\<close>

definition write_out :: "env \<Rightarrow> bytes \<Rightarrow> u32 \<Rightarrow> link \<Rightarrow> int \<times> link" where
  "write_out env buf direction st =
     (let addr = (if direction = LINK_FORWARD then Some (l_dest st)
                  else if direction = LINK_REVERSE then l_src st else None);
          r = e_send env (l_sends st);
          st = st\<lparr>l_sends := l_sends st + 1\<rparr> in
      if r = Sent then (0, st\<lparr>l_out := l_out st @ [(addr, buf)]\<rparr>)
      else (1, st\<lparr>l_errno := r\<rparr>))"

partial_function (option) deliver_delayed_pkt :: "env \<Rightarrow> link \<Rightarrow> (int \<times> link) option" where
  "deliver_delayed_pkt env st = do {
     t \<leftarrow> minq_peek (l_queue st);
     (case t of None \<Rightarrow> Some (0, st)
      | Some p \<Rightarrow>
        if timeval_cmp (l_clock st) (ps_ts p) then
          (case write_out env (ps_buf p) (ps_direction p) st of (r, st) \<Rightarrow>
             if r \<noteq> 0 then
               if l_errno st = Again then Some (0, st) else Some (1, st)
             else do {
               q \<leftarrow> minq_pop (l_queue st);
               deliver_delayed_pkt env (st\<lparr>l_queue := q\<rparr>)
             })
        else Some (0, st))
   }"

definition get_queue_timeout :: "link \<Rightarrow> timeval option option" where
  "get_queue_timeout st =
     (if minq_empty (l_queue st) then Some None
      else do {
        t \<leftarrow> minq_peek (l_queue st);
        p \<leftarrow> t;
        let timeout = timeval_diff (ps_ts p) (l_clock st);
        Some (Some (if tv_sec timeout < 0 \<or> (tv_sec timeout = 0 \<and> tv_usec timeout \<le> 0)
                    then Timeval 0 1000 else timeout))
      })"

section \<open>The lossy link\<close>

text \<open>The delay in milliseconds; \<open>None\<close> where the C code takes a remainder by zero.\<close>

definition applied_delay :: "env \<Rightarrow> link \<Rightarrow> (u32 \<times> link) option" where
  "applied_delay env st =
     (if l_jitter st \<noteq> 0 then
        (case draw env st of (r, st) \<Rightarrow>
           if l_jitter st > l_delay st then
             if l_delay st + l_jitter st = 0 then None
             else Some (of_nat r mod (l_delay st + l_jitter st) mod 10000, st)
           else
             if 2 * l_jitter st = 0 then None
             else Some ((l_delay st + of_nat r mod (2 * l_jitter st) - l_jitter st) mod 10000, st))
      else Some (l_delay st mod 10000, st))"

text \<open>Truncation or corruption of the packet, at most one of them.\<close>

definition alter_pkt :: "env \<Rightarrow> bytes \<Rightarrow> link \<Rightarrow> (bytes \<times> link) option" where
  "alter_pkt env buf st =
     (case chance env (l_cut_rate st) st of (truncated, st) \<Rightarrow>
        if truncated \<and> length buf > MIN_PKT_PDATA_LEN then
          Some ((take MIN_PKT_PDATA_LEN buf)[0 := buf ! 0 OR 0x20], st)
        else
          (case chance env (l_err_rate st) st of (err, st) \<Rightarrow>
             if err then
               (case draw env st of (r, st) \<Rightarrow>
                  if buf = [] then None
                  else let idx = r mod length buf in Some (buf[idx := NOT (buf ! idx)], st))
             else Some (buf, st)))"

definition simulate_link :: "env \<Rightarrow> bytes \<Rightarrow> u32 \<Rightarrow> link \<Rightarrow> (int \<times> link) option" where
  "simulate_link env buf direction st =
     (case chance env (l_loss_rate st) st of (lost, st) \<Rightarrow>
        if lost then Some (0, st)
        else do {
          (buf, st) \<leftarrow> alter_pkt env buf st;
          if l_delay st \<noteq> 0 then do {
            (d, st) \<leftarrow> applied_delay env st;
            if \<not> e_malloc env then Some (1, st)
            else do {
              let slot = \<lparr>ps_ts = Timeval (tv_sec (l_clock st) + uint (d div 1000))
                                         (tv_usec (l_clock st) + uint (d mod 1000 * 1000)),
                          ps_direction = direction, ps_buf = buf\<rparr>;
              (r, q) \<leftarrow> minq_push (l_queue st) slot (e_realloc env);
              Some (if r \<noteq> 0 then 1 else 0, st\<lparr>l_queue := q\<rparr>)
            }
          } else
            (case write_out env buf direction st of (r, st) \<Rightarrow> Some (if r \<noteq> 0 then 1 else 0, st))
        })"

section \<open>The proxy\<close>

definition sockaddr_cmp :: "sockaddr \<Rightarrow> sockaddr \<Rightarrow> int" where
  "sockaddr_cmp a b = (if fst a \<noteq> fst b \<or> snd a \<noteq> snd b then 1 else 0)"

lemma sockaddr_cmp_0 [simp]: "sockaddr_cmp a b = 0 \<longleftrightarrow> a = b"
  by (auto simp: sockaddr_cmp_def prod_eq_iff)

text \<open>What \<open>recvfrom\<close> returns: an error that is retried, another one, or a datagram.\<close>

datatype recv_result = Recv_Again | Recv_Failed | Recv sockaddr bytes

definition process_incoming_pkt :: "env \<Rightarrow> recv_result \<Rightarrow> link \<Rightarrow> (int \<times> link) option" where
  "process_incoming_pkt env input st =
     (case input of Recv_Again \<Rightarrow> Some (0, st)
      | Recv_Failed \<Rightarrow> Some (1, st)
      | Recv from dgram \<Rightarrow>
        let buf = take MAX_PKT_LEN dgram in
        if length buf < MIN_PKT_LEN then Some (0, st)
        else
          let st = (if l_src st = None then st\<lparr>l_src := Some from\<rparr> else st);
              direction = (if sockaddr_cmp from (l_dest st) = 0 then LINK_REVERSE else 0);
              direction = (case l_src st of None \<Rightarrow> direction
                | Some src \<Rightarrow> if sockaddr_cmp from src = 0 then LINK_FORWARD else direction) in
          if direction = 0 then Some (0, st)
          else if direction AND l_direction st = 0 then
            (case write_out env buf direction st of (r, st) \<Rightarrow> Some (if r \<noteq> 0 then 1 else 0, st))
          else simulate_link env buf direction st)"

text \<open>
  One turn of \<open>proxy_loop\<close> after \<open>select\<close> returned: the new time (\<open>None\<close> when the clock
  fails) and, when the socket is ready, what it gives. The result is whether the loop goes on.
\<close>

definition proxy_turn :: "env \<Rightarrow> timeval option \<Rightarrow> recv_result option \<Rightarrow> link \<Rightarrow> (bool \<times> link) option" where
  "proxy_turn env clock input st =
     (case clock of None \<Rightarrow> Some (False, st)
      | Some now \<Rightarrow> do {
          (r, st) \<leftarrow> deliver_delayed_pkt env (st\<lparr>l_clock := now\<rparr>);
          if r \<noteq> 0 then Some (False, st)
          else (case input of None \<Rightarrow> Some (True, st)
            | Some i \<Rightarrow> do {
                (r, st) \<leftarrow> process_incoming_pkt env i st;
                Some (r = 0, st)
              })
        })"

section \<open>Delivery\<close>

definition way :: "link \<Rightarrow> u32 \<Rightarrow> sockaddr option" where
  "way st d = (if d = LINK_FORWARD then Some (l_dest st) else if d = LINK_REVERSE then l_src st else None)"

definition slot_addr :: "link \<Rightarrow> pkt_slot \<Rightarrow> sockaddr option" where
  "slot_addr st p = way st (ps_direction p)"

definition sent_of :: "link \<Rightarrow> pkt_slot list \<Rightarrow> (sockaddr option \<times> bytes) list" where
  "sent_of st vs = map (\<lambda>p. (slot_addr st p, ps_buf p)) vs"

lemma write_out_sent:
  "e_send env (l_sends st) = Sent \<Longrightarrow> write_out env (ps_buf p) (ps_direction p) st =
     (0, st\<lparr>l_sends := l_sends st + 1, l_out := l_out st @ sent_of st [p]\<rparr>)"
  by (simp add: write_out_def Let_def sent_of_def slot_addr_def way_def)

lemma write_out_error:
  "e_send env (l_sends st) \<noteq> Sent \<Longrightarrow> write_out env buf d st =
     (1, st\<lparr>l_sends := l_sends st + 1, l_errno := e_send env (l_sends st)\<rparr>)"
  by (simp add: write_out_def Let_def)

lemma deliver_pop_while:
  "pop_while (\<lambda>p. timeval_cmp (l_clock st) (ps_ts p)) minq_peek minq_pop (l_queue st) = Some (vs, q') \<Longrightarrow>
   (\<And>k. e_send env k = Sent) \<Longrightarrow>
   deliver_delayed_pkt env st =
     Some (0, st\<lparr>l_queue := q', l_sends := l_sends st + length vs, l_out := l_out st @ sent_of st vs\<rparr>)"
proof (induction vs arbitrary: st)
  case Nil
  obtain t where t: "minq_peek (l_queue st) = Some t" "\<And>v. t = Some v \<Longrightarrow> \<not> timeval_cmp (l_clock st) (ps_ts v)"
    "q' = l_queue st"
    using Nil(1) [unfolded pop_while.simps [of _ _ _ "l_queue st"]]
    by (auto simp: bind_eq_Some_conv split: option.splits if_splits)
  then have "deliver_delayed_pkt env st = Some (0, st)"
    by (subst deliver_delayed_pkt.simps) (simp split: option.splits)
  then show ?case using t(3) by (simp add: sent_of_def)
next
  case (Cons v vs)
  obtain q1 where q1: "minq_peek (l_queue st) = Some (Some v)" "timeval_cmp (l_clock st) (ps_ts v)"
    "minq_pop (l_queue st) = Some q1"
    "pop_while (\<lambda>p. timeval_cmp (l_clock st) (ps_ts p)) minq_peek minq_pop q1 = Some (vs, q')"
    using Cons.prems(1) [unfolded pop_while.simps [of _ _ _ "l_queue st"]]
    by (auto simp: bind_eq_Some_conv split: option.splits if_splits)
  let ?st = "st\<lparr>l_sends := l_sends st + 1, l_out := l_out st @ sent_of st [v], l_queue := q1\<rparr>"
  have "deliver_delayed_pkt env st = deliver_delayed_pkt env ?st"
    using q1 Cons.prems(2) by (subst deliver_delayed_pkt.simps) (simp add: write_out_sent)
  also have "\<dots> = Some (0, ?st\<lparr>l_queue := q', l_sends := l_sends ?st + length vs, l_out := l_out ?st @ sent_of ?st vs\<rparr>)"
    using q1(4) Cons.prems(2) by (intro Cons.IH) simp_all
  finally show ?case by (simp add: sent_of_def slot_addr_def way_def)
qed

text \<open>Whatever \<open>sendto\<close> answers, delivery ends and a packet is either sent or still queued.\<close>

lemma deliver_conserves:
  assumes "mq_inv pkt_slot_cmp (l_queue st)"
  shows "\<exists>r vs st'. deliver_delayed_pkt env st = Some (r, st') \<and> mq_inv pkt_slot_cmp (l_queue st') \<and>
    mset vs + mq_items (l_queue st') = mq_items (l_queue st) \<and> l_out st' = l_out st @ sent_of st vs \<and>
    (\<forall>p \<in> set vs. timeval_cmp (l_clock st) (ps_ts p)) \<and> (r = 0 \<or> r = 1) \<and>
    st'\<lparr>l_queue := l_queue st, l_sends := l_sends st, l_errno := l_errno st, l_out := l_out st\<rparr> = st"
  using assms
proof (induction "size (mq_items (l_queue st))" arbitrary: st rule: less_induct)
  case less
  show ?case
  proof (cases "\<exists>v. minq_peek (l_queue st) = Some (Some v) \<and> timeval_cmp (l_clock st) (ps_ts v)")
    case False
    have "\<exists>t. minq_peek (l_queue st) = Some t"
      using slots.queue.peek_empty slots.queue.peek_least less.prems by blast
    then have "deliver_delayed_pkt env st = Some (0, st)"
      using False by (subst deliver_delayed_pkt.simps) (auto split: option.splits)
    then show ?thesis using less.prems by (intro exI [of _ 0] exI [of _ "[]"] exI [of _ st]) (simp add: sent_of_def)
  next
    case True
    then obtain v where v: "minq_peek (l_queue st) = Some (Some v)" "timeval_cmp (l_clock st) (ps_ts v)" by blast
    show ?thesis
    proof (cases "e_send env (l_sends st) = Sent")
      case False
      let ?st = "st\<lparr>l_sends := l_sends st + 1, l_errno := e_send env (l_sends st)\<rparr>"
      have "deliver_delayed_pkt env st = Some (if e_send env (l_sends st) = Again then 0 else 1, ?st)"
        using v False by (subst deliver_delayed_pkt.simps) (simp add: write_out_error)
      then show ?thesis using less.prems
        by (intro exI [of _ "if e_send env (l_sends st) = Again then 0 else 1"] exI [of _ "[]"] exI [of _ ?st])
          (simp add: sent_of_def)
    next
      case sent: True
      obtain q1 where q1: "minq_pop (l_queue st) = Some q1" "mq_inv pkt_slot_cmp q1"
        "mq_items q1 = mq_items (l_queue st) - {#v#}"
        using slots.queue.pop [OF less.prems v(1)] by blast
      have mem: "v \<in># mq_items (l_queue st)"
        using slots.queue.peek_empty slots.queue.peek_least less.prems v(1)
        by (metis option.inject option.distinct(1))
      let ?st = "st\<lparr>l_sends := l_sends st + 1, l_out := l_out st @ sent_of st [v], l_queue := q1\<rparr>"
      have step: "deliver_delayed_pkt env st = deliver_delayed_pkt env ?st"
        using q1 v sent by (subst deliver_delayed_pkt.simps) (simp add: write_out_sent)
      have "size (mq_items (l_queue ?st)) < size (mq_items (l_queue st))"
        using q1(3) mem by (simp add: size_Diff1_less)
      from less.hyps [OF this] q1(2) obtain r vs st' where IH: "deliver_delayed_pkt env ?st = Some (r, st')"
        "mq_inv pkt_slot_cmp (l_queue st')" "mset vs + mq_items (l_queue st') = mq_items q1"
        "l_out st' = l_out ?st @ sent_of ?st vs" "\<forall>p \<in> set vs. timeval_cmp (l_clock st) (ps_ts p)"
        "r = 0 \<or> r = 1"
        "st'\<lparr>l_queue := q1, l_sends := l_sends ?st, l_errno := l_errno st, l_out := l_out ?st\<rparr> = ?st" by auto
      have "st'\<lparr>l_queue := l_queue st, l_sends := l_sends st, l_errno := l_errno st, l_out := l_out st\<rparr> = st"
        using arg_cong [OF IH(7), of "\<lambda>s. s\<lparr>l_queue := l_queue st, l_sends := l_sends st, l_errno := l_errno st, l_out := l_out st\<rparr>"] by simp
      moreover have "mset (v # vs) + mq_items (l_queue st') = mq_items (l_queue st)"
        using IH(3) q1(3) mem by simp
      moreover have "l_out st' = l_out st @ sent_of st (v # vs)"
        using IH(4) by (simp add: sent_of_def slot_addr_def way_def)
      ultimately show ?thesis using IH(1,2,5,6) step v(2)
        by (intro exI [of _ r] exI [of _ "v # vs"] exI [of _ st']) simp
    qed
  qed
qed

section \<open>The effect on one packet\<close>

text \<open>The packets the lossy link makes of one: untouched, truncated, or with a byte inverted.\<close>

definition truncated_pkt :: "bytes \<Rightarrow> bytes" where
  "truncated_pkt buf = (take MIN_PKT_PDATA_LEN buf)[0 := buf ! 0 OR 0x20]"

definition altered :: "bytes \<Rightarrow> bytes \<Rightarrow> bool" where
  "altered buf buf' \<longleftrightarrow> buf' = buf \<or> (length buf > MIN_PKT_PDATA_LEN \<and> buf' = truncated_pkt buf) \<or>
     (\<exists>i < length buf. buf' = buf[i := NOT (buf ! i)])"

lemma altered_intros:
  "altered buf buf"
  "length buf > MIN_PKT_PDATA_LEN \<Longrightarrow> altered buf ((take MIN_PKT_PDATA_LEN buf)[0 := buf ! 0 OR 0x20])"
  "buf \<noteq> [] \<Longrightarrow> altered buf (buf[r mod length buf := NOT (buf ! (r mod length buf))])"
  using mod_less_divisor [of "length buf" r] by (auto simp: altered_def truncated_pkt_def simp del: mod_less_divisor)

text \<open>No remainder by zero: the delay and jitter of the command line are below 12 days each.\<close>

definition delays_ok :: "link \<Rightarrow> bool" where
  "delays_ok st \<longleftrightarrow> unat (l_delay st) + unat (l_jitter st) < 2 ^ 31"

lemma chance_rands: "\<exists>b k. chance env rate st = (b, st\<lparr>l_rands := k\<rparr>)"
  by (cases "rate = 0") (auto simp: chance_def draw_def Let_def intro: exI [of _ "l_rands st"])

lemma chance_zero [simp]: "chance env 0 st = (False, st)"
  by (simp add: chance_def)

lemma alter_pkt_altered:
  assumes "buf \<noteq> []"
  shows "\<exists>buf' k. alter_pkt env buf st = Some (buf', st\<lparr>l_rands := k\<rparr>) \<and> altered buf buf' \<and>
    (l_err_rate st = 0 \<and> length buf \<le> MIN_PKT_PDATA_LEN \<longrightarrow> buf' = buf)"
proof -
  obtain c k where c: "chance env (l_cut_rate st) st = (c, st\<lparr>l_rands := k\<rparr>)" using chance_rands by blast
  obtain f k' where f: "chance env (l_err_rate st) (st\<lparr>l_rands := k\<rparr>) = (f, st\<lparr>l_rands := k'\<rparr>)"
    using chance_rands [of env "l_err_rate st" "st\<lparr>l_rands := k\<rparr>"] by auto
  show ?thesis
    using assms c f by (auto simp: alter_pkt_def draw_def Let_def intro: altered_intros)
qed

lemma applied_delay_defined:
  assumes "delays_ok st"
  shows "\<exists>d k. applied_delay env st = Some (d, st\<lparr>l_rands := k\<rparr>)"
proof (cases "l_jitter st = 0")
  case True
  then show ?thesis by (auto simp: applied_delay_def intro: exI [of _ "l_rands st"])
next
  case False
  have "l_delay st + l_jitter st \<noteq> 0" if "l_jitter st > l_delay st"
    using assms that by (simp add: delays_ok_def word_less_nat_alt flip: unat_eq_0)
      (simp add: unat_plus_if')
  moreover have "2 * l_jitter st \<noteq> 0" if "\<not> l_jitter st > l_delay st"
  proof -
    have "unat (2 * l_jitter st) = 2 * unat (l_jitter st)"
      using assms that by (simp add: delays_ok_def word_less_nat_alt unat_word_ariths)
    moreover have "unat (l_jitter st) \<noteq> 0" using False by (simp add: unat_eq_0)
    ultimately show ?thesis by (metis mult_eq_0_iff unsigned_0 zero_neq_numeral)
  qed
  ultimately show ?thesis using False by (auto simp: applied_delay_def draw_def)
qed

text \<open>Everything \<open>simulate_link\<close> can do.\<close>

lemma simulate_link_cases:
  assumes "mq_inv pkt_slot_cmp (l_queue st)" "realloc_ok (e_realloc env)" "delays_ok st" "buf \<noteq> []"
  shows "\<exists>r st'. simulate_link env buf d st = Some (r, st') \<and> mq_inv pkt_slot_cmp (l_queue st') \<and>
    st'\<lparr>l_queue := l_queue st, l_rands := l_rands st, l_sends := l_sends st, l_errno := l_errno st,
        l_out := l_out st\<rparr> = st \<and>
    ((mq_items (l_queue st') = mq_items (l_queue st) \<and> l_out st' = l_out st) \<or>
     (\<exists>buf'. altered buf buf' \<and> (l_err_rate st = 0 \<and> length buf \<le> MIN_PKT_PDATA_LEN \<longrightarrow> buf' = buf) \<and>
       ((\<exists>ts. mq_items (l_queue st') = add_mset \<lparr>ps_ts = ts, ps_direction = d, ps_buf = buf'\<rparr> (mq_items (l_queue st)) \<and>
             l_out st' = l_out st) \<or>
        (mq_items (l_queue st') = mq_items (l_queue st) \<and> l_out st' = l_out st @ [(way st d, buf')]))))"
proof -
  obtain l k where l: "chance env (l_loss_rate st) st = (l, st\<lparr>l_rands := k\<rparr>)" using chance_rands by blast
  show ?thesis
  proof (cases l)
    case True
    then show ?thesis using l assms(1) by (auto simp: simulate_link_def)
  next
    case False
    obtain buf' k' where a: "alter_pkt env buf (st\<lparr>l_rands := k\<rparr>) = Some (buf', st\<lparr>l_rands := k'\<rparr>)" "altered buf buf'"
      "l_err_rate st = 0 \<and> length buf \<le> MIN_PKT_PDATA_LEN \<longrightarrow> buf' = buf"
      using alter_pkt_altered [OF assms(4), of env "st\<lparr>l_rands := k\<rparr>"] by auto
    show ?thesis
    proof (cases "l_delay st = 0")
      case True
      then show ?thesis using l False a assms(1)
        by (cases "e_send env (l_sends st) = Sent") (auto simp: simulate_link_def write_out_def way_def Let_def)
    next
      case delay: False
      obtain ms k'' where ms: "applied_delay env (st\<lparr>l_rands := k'\<rparr>) = Some (ms, st\<lparr>l_rands := k''\<rparr>)"
        using applied_delay_defined [of "st\<lparr>l_rands := k'\<rparr>" env] assms(3) by (auto simp: delays_ok_def)
      define slot where "slot = \<lparr>ps_ts = Timeval (tv_sec (l_clock st) + uint (ms div 1000))
          (tv_usec (l_clock st) + uint (ms mod 1000 * 1000)), ps_direction = d, ps_buf = buf'\<rparr>"
      have run: "simulate_link env buf d st = (if \<not> e_malloc env then Some (1, st\<lparr>l_rands := k''\<rparr>)
          else do { (r, q) \<leftarrow> minq_push (l_queue st) slot (e_realloc env);
                    Some (if r \<noteq> 0 then 1 else 0, st\<lparr>l_rands := k'', l_queue := q\<rparr>) })"
        using l False a delay ms by (simp add: simulate_link_def slot_def Let_def)
      from slots.queue.push [OF assms(1,2), of slot] show ?thesis
        using run a assms(1) by (cases "e_malloc env") (fastforce simp: slot_def)+
    qed
  qed
qed

section \<open>Times\<close>

definition usecs :: "timeval \<Rightarrow> int" where
  "usecs t = tv_sec t * 1000000 + tv_usec t"

definition normalised :: "timeval \<Rightarrow> bool" where
  "normalised t \<longleftrightarrow> 0 \<le> tv_usec t \<and> tv_usec t < 1000000"

lemma timeval_cmp_usecs: "normalised a \<Longrightarrow> normalised b \<Longrightarrow> timeval_cmp a b \<longleftrightarrow> usecs a > usecs b"
  by (auto simp: timeval_cmp_def usecs_def normalised_def)

section \<open>Properties\<close>

definition demo_slot :: "int \<Rightarrow> byte \<Rightarrow> pkt_slot" where
  "demo_slot t b = \<lparr>ps_ts = Timeval t 0, ps_direction = LINK_FORWARD, ps_buf = replicate 12 b\<rparr>"

definition demo_queue :: "pkt_slot minqueue option" where
  "demo_queue = Some \<lparr>mq_cmp = pkt_slot_cmp, mq_size = 2, mq_alloc = 3,
     mq_e = [demo_slot 1 7, demo_slot 5 8, demo_slot 0 0]\<rparr>"

definition demo_link :: link where
  "demo_link = \<lparr>l_delay = 1200, l_jitter = 0, l_err_rate = 0, l_cut_rate = 0, l_loss_rate = 0,
     l_direction = LINK_FORWARD, l_queue = demo_queue, l_clock = Timeval 2 900000,
     l_dest = ([1], 12345), l_src = None, l_rands = 0, l_sends = 0, l_errno = Sent, l_out = []\<rparr>"

definition demo_env :: env where
  "demo_env = \<lparr>e_rand = (\<lambda>_. 150), e_send = (\<lambda>_. Sent), e_malloc = True,
     e_realloc = Some (replicate 20 (demo_slot 0 0))\<rparr>"

lemma demo_inv: "mq_inv pkt_slot_cmp (l_queue demo_link)"
  by (auto simp: mq_inv_def demo_link_def demo_queue_def heap_ok_def demo_slot_def pkt_slot_cmp_def
      timeval_cmp_def less_Suc_eq numeral_2_eq_2)

lemma demo_env_ok: "realloc_ok (e_realloc demo_env)" "delays_ok demo_link"
  by (simp_all add: demo_env_def realloc_ok_def SLOTS_PER_MALLOC_def delays_ok_def demo_link_def)

text \<open>C27. When the socket takes every datagram, one call of \<open>deliver_delayed_pkt\<close> sends exactly
  the queued packets whose expiration date is past, in the order of these dates, and keeps
  the others in a well-formed queue.\<close>

theorem deliver_in_order:
  assumes "mq_inv pkt_slot_cmp (l_queue st)" "\<And>k. e_send env k = Sent"
  shows "\<exists>vs q. deliver_delayed_pkt env st =
      Some (0, st\<lparr>l_queue := q, l_sends := l_sends st + length vs, l_out := l_out st @ sent_of st vs\<rparr>) \<and>
    mset vs = filter_mset (\<lambda>p. ps_ts p < l_clock st) (mq_items (l_queue st)) \<and>
    sorted (map ps_ts vs) \<and> mq_inv pkt_slot_cmp q \<and>
    mq_items q = filter_mset (\<lambda>p. \<not> ps_ts p < l_clock st) (mq_items (l_queue st))"
proof -
  have "\<exists>vs q'. pop_while (\<lambda>p. timeval_cmp (l_clock st) (ps_ts p)) minq_peek minq_pop (l_queue st) = Some (vs, q') \<and>
      mq_inv pkt_slot_cmp q' \<and>
      mset vs = filter_mset (\<lambda>p. timeval_cmp (l_clock st) (ps_ts p)) (mq_items (l_queue st)) \<and>
      mq_items q' = filter_mset (\<lambda>p. \<not> timeval_cmp (l_clock st) (ps_ts p)) (mq_items (l_queue st)) \<and>
      sorted_wrt (\<lambda>a b. \<not> pkt_slot_cmp a b) vs"
    using assms(1) by (intro slots.queue.pop_while_ok) (auto simp: pkt_slot_cmp_def timeval_cmp_less)
  then obtain vs q' where vs: "pop_while (\<lambda>p. timeval_cmp (l_clock st) (ps_ts p)) minq_peek minq_pop (l_queue st) = Some (vs, q')"
      "mq_inv pkt_slot_cmp q'"
      "mset vs = filter_mset (\<lambda>p. timeval_cmp (l_clock st) (ps_ts p)) (mq_items (l_queue st))"
      "mq_items q' = filter_mset (\<lambda>p. \<not> timeval_cmp (l_clock st) (ps_ts p)) (mq_items (l_queue st))"
      "sorted_wrt (\<lambda>a b. \<not> pkt_slot_cmp a b) vs" by blast
  have "sorted (map ps_ts vs)"
    using vs(5) by (simp add: sorted_map pkt_slot_cmp_def timeval_cmp_less not_less)
  then show ?thesis
    using deliver_pop_while [OF vs(1) assms(2)] vs(2-4) by (auto simp: timeval_cmp_less)
qed

theorem deliver_in_order_witness:
  "\<exists>vs q. deliver_delayed_pkt demo_env demo_link =
      Some (0, demo_link\<lparr>l_queue := q, l_sends := length vs, l_out := sent_of demo_link vs\<rparr>) \<and>
    mset vs = {#demo_slot 1 7#} \<and> mq_items q = {#demo_slot 5 8#}"
proof -
  have "demo_slot 1 7 \<noteq> demo_slot 5 8" by (simp add: demo_slot_def)
  moreover have "mq_items (l_queue demo_link) = {#demo_slot 1 7, demo_slot 5 8#}"
    by (simp add: demo_link_def demo_queue_def mq_items_def)
  ultimately show ?thesis
    using deliver_in_order [OF demo_inv, of demo_env]
    by (auto simp: demo_env_def demo_slot_def less_timeval_def demo_link_def)
qed

text \<open>Whatever \<open>sendto\<close> answers, \<open>deliver_delayed_pkt\<close> ends, keeps the queue well formed and
  loses no packet: what was queued is what was sent, all of it expired, and what is still
  queued; nothing else of the state changes.\<close>

theorem deliver_loses_nothing:
  assumes "mq_inv pkt_slot_cmp (l_queue st)"
  shows "\<exists>r vs st'. deliver_delayed_pkt env st = Some (r, st') \<and> mq_inv pkt_slot_cmp (l_queue st') \<and>
    mset vs + mq_items (l_queue st') = mq_items (l_queue st) \<and> l_out st' = l_out st @ sent_of st vs \<and>
    (\<forall>p \<in> set vs. timeval_cmp (l_clock st) (ps_ts p)) \<and> (r = 0 \<or> r = 1) \<and>
    st'\<lparr>l_queue := l_queue st, l_sends := l_sends st, l_errno := l_errno st, l_out := l_out st\<rparr> = st"
  by (rule deliver_conserves [OF assms])

theorem deliver_loses_nothing_witness:
  "\<exists>r vs st'. deliver_delayed_pkt (demo_env\<lparr>e_send := \<lambda>_. Failed\<rparr>) demo_link = Some (r, st') \<and>
    mset vs + mq_items (l_queue st') = {#demo_slot 1 7, demo_slot 5 8#} \<and> l_out st' = sent_of demo_link vs"
proof -
  have "mq_items (l_queue demo_link) = {#demo_slot 1 7, demo_slot 5 8#}" "l_out demo_link = []"
    by (simp_all add: demo_link_def demo_queue_def mq_items_def)
  then show ?thesis
    using deliver_loses_nothing [OF demo_inv, of "demo_env\<lparr>e_send := \<lambda>_. Failed\<rparr>"] by fastforce
qed

lemma simulate_link_keeps:
  assumes "mq_inv pkt_slot_cmp (l_queue st)" "realloc_ok (e_realloc env)" "delays_ok st" "buf \<noteq> []"
  shows "\<exists>r st'. simulate_link env buf dir st = Some (r, st') \<and> mq_inv pkt_slot_cmp (l_queue st') \<and> delays_ok st'"
proof -
  obtain r st' where s: "simulate_link env buf dir st = Some (r, st')" "mq_inv pkt_slot_cmp (l_queue st')"
    "st'\<lparr>l_queue := l_queue st, l_rands := l_rands st, l_sends := l_sends st, l_errno := l_errno st, l_out := l_out st\<rparr> = st"
    using simulate_link_cases [OF assms, of dir] by blast
  have "l_delay st' = l_delay st" "l_jitter st' = l_jitter st"
    using arg_cong [OF s(3), of l_delay] arg_cong [OF s(3), of l_jitter] by simp_all
  then show ?thesis using s assms(3) by (simp add: delays_ok_def)
qed

lemma deliver_keeps:
  assumes "mq_inv pkt_slot_cmp (l_queue st)" "delays_ok st"
  shows "\<exists>r st'. deliver_delayed_pkt env st = Some (r, st') \<and> mq_inv pkt_slot_cmp (l_queue st') \<and> delays_ok st'"
proof -
  obtain r vs st' where d: "deliver_delayed_pkt env st = Some (r, st')" "mq_inv pkt_slot_cmp (l_queue st')"
    "st'\<lparr>l_queue := l_queue st, l_sends := l_sends st, l_errno := l_errno st, l_out := l_out st\<rparr> = st"
    using deliver_conserves [OF assms(1), of env] by blast
  have "l_delay st' = l_delay st" "l_jitter st' = l_jitter st"
    using arg_cong [OF d(3), of l_delay] arg_cong [OF d(3), of l_jitter] by simp_all
  then show ?thesis using d assms(2) by (simp add: delays_ok_def)
qed

lemma process_incoming_keeps:
  assumes "mq_inv pkt_slot_cmp (l_queue st)" "realloc_ok (e_realloc env)" "delays_ok st"
  shows "\<exists>r st'. process_incoming_pkt env i st = Some (r, st') \<and> mq_inv pkt_slot_cmp (l_queue st') \<and> delays_ok st'"
proof (cases i)
  case (Recv addr dgram)
  let ?buf = "take MAX_PKT_LEN dgram"
  have "\<not> length ?buf < MIN_PKT_LEN \<Longrightarrow> ?buf \<noteq> []" by (auto simp: MIN_PKT_LEN_def)
  then have sim: "\<not> length ?buf < MIN_PKT_LEN \<Longrightarrow> \<exists>r st''. simulate_link env ?buf dir (st\<lparr>l_src := a\<rparr>) = Some (r, st'') \<and>
      mq_inv pkt_slot_cmp (l_queue st'') \<and> delays_ok st''" for dir a
    using assms by (intro simulate_link_keeps) (simp_all add: delays_ok_def)
  show ?thesis
    using assms Recv sim [of _ "l_src st"] sim [of _ "Some addr"]
    unfolding process_incoming_pkt_def write_out_def Let_def
    by (auto simp: delays_ok_def split: prod.splits)
qed (use assms in \<open>simp_all add: process_incoming_pkt_def\<close>)

lemma proxy_turn_keeps:
  assumes "mq_inv pkt_slot_cmp (l_queue st)" "realloc_ok (e_realloc env)" "delays_ok st"
  shows "\<exists>go st'. proxy_turn env clock input st = Some (go, st') \<and> mq_inv pkt_slot_cmp (l_queue st') \<and> delays_ok st'"
proof (cases clock)
  case None
  then show ?thesis using assms by (auto simp: proxy_turn_def)
next
  case (Some now)
  obtain r st1 where d: "deliver_delayed_pkt env (st\<lparr>l_clock := now\<rparr>) = Some (r, st1)"
    "mq_inv pkt_slot_cmp (l_queue st1)" "delays_ok st1"
    using deliver_keeps [of "st\<lparr>l_clock := now\<rparr>" env] assms by (auto simp: delays_ok_def)
  show ?thesis
  proof (cases input)
    case None
    then show ?thesis using d Some by (auto simp: proxy_turn_def)
  next
    case input: (Some i)
    obtain r' st2 where "process_incoming_pkt env i st1 = Some (r', st2)" "mq_inv pkt_slot_cmp (l_queue st2)"
      "delays_ok st2" using process_incoming_keeps [OF d(2) assms(2) d(3)] by blast
    then show ?thesis using d Some input by (cases "r = 0") (auto simp: proxy_turn_def)
  qed
qed

text \<open>With its queue well formed and a delay and a jitter that do not overflow, a turn of the
  proxy loop never leaves an array nor divides by zero, ends, and keeps all that, whatever
  the clock, the socket and the allocator answer.\<close>

theorem proxy_turn_safe:
  assumes "mq_inv pkt_slot_cmp (l_queue st)" "realloc_ok (e_realloc env)" "delays_ok st"
  shows "\<exists>go st'. proxy_turn env clock input st = Some (go, st') \<and> mq_inv pkt_slot_cmp (l_queue st') \<and> delays_ok st'"
  by (rule proxy_turn_keeps [OF assms])

theorem proxy_turn_safe_witness:
  "\<exists>go st'. proxy_turn demo_env (Some (Timeval 3 0)) (Some (Recv ([2], 7) (replicate 12 5))) demo_link = Some (go, st') \<and>
    mq_inv pkt_slot_cmp (l_queue st')"
  using proxy_turn_safe [OF demo_inv demo_env_ok, of "Some (Timeval 3 0)" "Some (Recv ([2], 7) (replicate 12 5))"]
  by blast

text \<open>One packet through \<open>simulate_link\<close>: it is dropped, or exactly one packet is sent or
  queued, which is the packet itself, the packet cut to its first 12 bytes with the TR bit
  set, or the packet with one byte inverted. The queue stays well formed.\<close>

theorem simulate_link_effects:
  assumes "mq_inv pkt_slot_cmp (l_queue st)" "realloc_ok (e_realloc env)" "delays_ok st" "buf \<noteq> []"
  shows "\<exists>r st'. simulate_link env buf d st = Some (r, st') \<and> mq_inv pkt_slot_cmp (l_queue st') \<and>
    st'\<lparr>l_queue := l_queue st, l_rands := l_rands st, l_sends := l_sends st, l_errno := l_errno st,
        l_out := l_out st\<rparr> = st \<and>
    ((mq_items (l_queue st') = mq_items (l_queue st) \<and> l_out st' = l_out st) \<or>
     (\<exists>buf'. altered buf buf' \<and> (l_err_rate st = 0 \<and> length buf \<le> MIN_PKT_PDATA_LEN \<longrightarrow> buf' = buf) \<and>
       ((\<exists>ts. mq_items (l_queue st') = add_mset \<lparr>ps_ts = ts, ps_direction = d, ps_buf = buf'\<rparr> (mq_items (l_queue st)) \<and>
             l_out st' = l_out st) \<or>
        (mq_items (l_queue st') = mq_items (l_queue st) \<and> l_out st' = l_out st @ [(way st d, buf')]))))"
  by (rule simulate_link_cases [OF assms])

theorem simulate_link_effects_witness:
  "\<exists>r st'. simulate_link demo_env (replicate 20 1) LINK_FORWARD (demo_link\<lparr>l_cut_rate := 60\<rparr>) = Some (r, st') \<and>
    mq_inv pkt_slot_cmp (l_queue st')"
proof -
  have "delays_ok (demo_link\<lparr>l_cut_rate := 60\<rparr>)" using demo_env_ok(2) by (simp add: delays_ok_def)
  with demo_inv demo_env_ok(1) show ?thesis
    using simulate_link_effects [of "demo_link\<lparr>l_cut_rate := 60\<rparr>" demo_env "replicate 20 1" LINK_FORWARD] by auto
qed

text \<open>With a jitter of at most the delay and less than 10 s together, the delay applied to a
  packet differs from the configured one by at most the jitter. (At 10 s and above the cap
  the comment speaks of is a remainder: a delay of 10000 ms is none.)\<close>

theorem applied_delay_bounds:
  assumes "l_jitter st \<le> l_delay st" "unat (l_delay st) + unat (l_jitter st) < 10000"
  shows "\<exists>d st'. applied_delay env st = Some (d, st') \<and>
    unat (l_delay st) \<le> unat d + unat (l_jitter st) \<and> unat d \<le> unat (l_delay st) + unat (l_jitter st)"
proof (cases "l_jitter st = 0")
  case True
  then show ?thesis using assms(2) by (simp add: applied_delay_def unat_mod)
next
  case False
  define r :: u32 where "r = of_nat (e_rand env (l_rands st)) mod (2 * l_jitter st)"
  have j: "unat (2 * l_jitter st) = 2 * unat (l_jitter st)"
    using assms(2) by (simp add: unat_word_ariths)
  have j0: "unat (l_jitter st) > 0" using False by (simp add: unat_gt_0)
  have r: "unat r < 2 * unat (l_jitter st)"
    using j j0 by (simp add: r_def unat_mod)
  have "unat (l_delay st + r) = unat (l_delay st) + unat r"
    using assms r by (simp add: word_le_nat_alt unat_plus_if')
  moreover have "l_jitter st \<le> l_delay st + r"
    using assms(1) \<open>unat (l_delay st + r) = _\<close> by (simp add: word_le_nat_alt)
  ultimately have d: "unat (l_delay st + r - l_jitter st) = unat (l_delay st) + unat r - unat (l_jitter st)"
    by (simp add: unat_sub)
  have small: "unat ((l_delay st + r - l_jitter st) mod 10000) = unat (l_delay st) + unat r - unat (l_jitter st)"
    using d assms r by (simp add: unat_mod word_le_nat_alt)
  have nz: "2 * l_jitter st \<noteq> 0" using j j0 by (metis gr_implies_not0 mult_eq_0_iff unsigned_0 zero_neq_numeral)
  have "applied_delay env st = Some ((l_delay st + r - l_jitter st) mod 10000, st\<lparr>l_rands := l_rands st + 1\<rparr>)"
    using False nz leD [OF assms(1)] by (simp add: applied_delay_def draw_def r_def)
  then show ?thesis using small assms(1) r by (auto simp: word_le_nat_alt)
qed

theorem applied_delay_bounds_witness:
  "\<exists>d st'. applied_delay demo_env (demo_link\<lparr>l_jitter := 200\<rparr>) = Some (d, st') \<and> 1200 \<le> unat d + 200 \<and> unat d \<le> 1400"
  using applied_delay_bounds [of "demo_link\<lparr>l_jitter := 200\<rparr>" demo_env] by (simp add: demo_link_def)

text \<open>\<open>timeval_diff\<close> is the difference of two normalised times except when they are in
  consecutive seconds and the microseconds underflow: the carry is then skipped, because
  the code tests the decremented seconds instead of just decrementing them.\<close>

theorem timeval_diff_exact_iff:
  assumes "normalised a" "normalised b"
  shows "usecs (timeval_diff a b) = usecs a - usecs b \<longleftrightarrow>
    \<not> (tv_sec a = tv_sec b + 1 \<and> tv_usec a < tv_usec b)"
  using assms by (auto simp: timeval_diff_def usecs_def normalised_def Let_def algebra_simps)

theorem timeval_diff_exact_iff_witness:
  "usecs (timeval_diff (Timeval 5 100) (Timeval 4 200)) \<noteq> 999900"
  using timeval_diff_exact_iff [of "Timeval 5 100" "Timeval 4 200"]
  by (simp add: normalised_def) (simp add: usecs_def)

text \<open>The expiration date of a slot is not normalised: when adding the delay to the
  microseconds of the clock passes a second, the packet that \<open>simulate_link\<close> queues counts as
  expired at the start of the next second, before its delay is over.\<close>

theorem early_delivery:
  assumes "mq_inv pkt_slot_cmp (l_queue st)" "realloc_ok (e_realloc env)" "e_malloc env"
    "l_loss_rate st = 0" "l_cut_rate st = 0" "l_err_rate st = 0" "l_jitter st = 0"
    "normalised (l_clock st)" "0 < l_delay st" "l_delay st < 1000"
    "tv_usec (l_clock st) + uint (l_delay st) * 1000 > 1000000"
  shows "\<exists>r st'. simulate_link env buf d st = Some (r, st') \<and> (r = 0 \<longrightarrow>
    (\<exists>p \<in># mq_items (l_queue st'). ps_buf p = buf \<and> (\<exists>now. normalised now \<and> timeval_cmp now (ps_ts p) \<and>
       usecs now < usecs (l_clock st) + uint (l_delay st) * 1000)))"
proof -
  define slot where "slot = \<lparr>ps_ts = Timeval (tv_sec (l_clock st)) (tv_usec (l_clock st) + uint (l_delay st) * 1000),
    ps_direction = d, ps_buf = buf\<rparr>"
  let ?now = "Timeval (tv_sec (l_clock st) + 1) 0"
  have lt: "uint (l_delay st) < 1000" using assms(10) by (simp add: word_less_def)
  then have "l_delay st mod 10000 = l_delay st" "l_delay st div 1000 = 0" "l_delay st mod 1000 = l_delay st"
    by (simp_all add: word_uint_eq_iff uint_mod uint_div zdiv_eq_0_iff)
  moreover have "uint (l_delay st * 1000) = uint (l_delay st) * 1000"
    using lt by (simp add: uint_word_ariths)
  ultimately have "simulate_link env buf d st =
      do { (r, q) \<leftarrow> minq_push (l_queue st) slot (e_realloc env);
           Some (if r \<noteq> 0 then 1 else 0, st\<lparr>l_queue := q\<rparr>) }"
    using assms(3-7) assms(9) [THEN less_imp_neq] by (simp add: simulate_link_def alter_pkt_def applied_delay_def slot_def Let_def)
  moreover have "normalised ?now" "timeval_cmp ?now (ps_ts slot)"
    "usecs ?now < usecs (l_clock st) + uint (l_delay st) * 1000" "ps_buf slot = buf"
    using assms(11) by (simp_all add: normalised_def timeval_cmp_def slot_def usecs_def)
  ultimately show ?thesis
    using slots.queue.push [OF assms(1,2), of slot] by (fastforce simp del: usecs_def)
qed

theorem early_delivery_witness:
  "\<exists>r st'. simulate_link demo_env [1] LINK_FORWARD (demo_link\<lparr>l_delay := 200\<rparr>) = Some (r, st') \<and> (r = 0 \<longrightarrow>
    (\<exists>p \<in># mq_items (l_queue st'). ps_buf p = [1] \<and> (\<exists>now. normalised now \<and> timeval_cmp now (ps_ts p) \<and>
       usecs now < 3100000)))"
  using early_delivery [of "demo_link\<lparr>l_delay := 200\<rparr>" demo_env "[1]" LINK_FORWARD] demo_inv demo_env_ok(1)
  by (simp add: demo_env_def demo_link_def normalised_def usecs_def)

end
