(* ===== verification/Receiver.thy ===== *)
theory Receiver
  imports Seq_Order Packet_Codec
begin

text \<open>
  The receiver, \<open>src/src/receiver.c\<close>. Its globals and the locals of its loop are the record
  \<open>rcv\<close>; what was written to the file and sent on the socket is kept in \<open>r_out\<close> and
  \<open>r_acks\<close>. What the system calls of one turn of the loop return is the record \<open>rturn\<close>. The
  C integers of the program stay far below their bounds and are \<open>int\<close>. The test on elapsed
  time is done exactly (the code uses single precision).

  \<open>write_buffer_to_file\<close> reads the node it has just freed whenever it empties the buffer.
  The parameter \<open>dang\<close> is what a read of a freed node gives: \<open>strict\<close> makes it undefined
  behaviour, \<open>lenient\<close> gives what the node held, as when nothing has reused its memory.
\<close>

section \<open>State and environment\<close>

definition MAX_SEQNUM :: int where "MAX_SEQNUM = 256"
definition ACK_SIZE :: nat where "ACK_SIZE = 10"
definition MAX_WINDOW :: int where "MAX_WINDOW = 31"

record rcv =
  r_window :: int
  r_last_acked :: int
  r_last_writed :: int
  r_nb_writed :: int
  r_lastack_to_send :: int
  r_time_last_data :: u32
  r_data_received :: int
  r_data_truncated_received :: int
  r_ack_sent :: int
  r_nack_sent :: int
  r_packet_ignored :: int
  r_packet_duplicated :: int
  r_heap :: heap
  r_buffer :: buffer
  r_ready :: int
  r_start :: "int \<times> int"
  r_reset_time :: bool
  r_n_accumulated :: int
  r_bypass :: bool
  r_out :: bytes
  r_writes :: nat
  r_acks :: "bytes list"

definition rcv_init :: "heap \<Rightarrow> rcv" where
  "rcv_init h = \<lparr>r_window = MAX_WINDOW, r_last_acked = 0, r_last_writed = -1, r_nb_writed = 0,
     r_lastack_to_send = -2, r_time_last_data = 0, r_data_received = 0, r_data_truncated_received = 0,
     r_ack_sent = 0, r_nack_sent = 0, r_packet_ignored = 0, r_packet_duplicated = 0,
     r_heap = h, r_buffer = buffer_init, r_ready = -1, r_start = (0, 0), r_reset_time = True,
     r_n_accumulated = 0, r_bypass = False, r_out = [], r_writes = 0, r_acks = []\<rparr>"

text \<open>
  \<open>t_pkt\<close>, \<open>t_ack\<close>: what \<open>pkt_new\<close> returns (an address and the contents of the block);
  \<open>t_stack\<close>: the array \<open>buf\<close> before \<open>read\<close>; \<open>t_write k\<close>: the number of bytes the \<open>k\<close>-th
  \<open>write\<close> writes at most, \<open>None\<close> for -1; \<open>t_read\<close>: the datagram, \<open>None\<close> for -1.
\<close>

record rturn =
  t_ready :: int
  t_pollin :: bool
  t_read :: "bytes option"
  t_stack :: bytes
  t_pkt :: "(addr \<times> pkt) option"
  t_payload_ok :: bool
  t_node :: "addr option"
  t_start :: "int \<times> int"
  t_end :: "int \<times> int"
  t_time :: u32
  t_write :: "nat \<Rightarrow> nat option"
  t_ack :: "pkt option"
  t_ack_payload :: bool
  t_send :: bool

section \<open>The functions of receiver.c\<close>

definition is_in_window :: "rcv \<Rightarrow> int \<Rightarrow> bool" where
  "is_in_window st seqnum =
     (if seqnum = r_last_writed st then False
      else if seqnum < r_last_writed st then
        seqnum + MAX_SEQNUM - r_last_writed st \<le> r_window st
      else seqnum - r_last_writed st < r_window st)"

definition read_node :: "(heap \<Rightarrow> addr \<Rightarrow> node option) \<Rightarrow> heap \<Rightarrow> addr \<Rightarrow> node option" where
  "read_node dang h a = (case nodes h a of Some n \<Rightarrow> Some n | None \<Rightarrow> dang h a)"

definition strict :: "heap \<Rightarrow> addr \<Rightarrow> node option" where
  "strict h a = None"

definition lenient :: "heap \<Rightarrow> addr \<Rightarrow> node option" where
  "lenient h a = stale h a"

text \<open>The bytes \<open>write\<close> is asked to write; the inner \<open>None\<close> is a null pointer with a length.\<close>

definition write_arg :: "pkt \<Rightarrow> bytes option option" where
  "write_arg q = (case pkt_get_payload q of
       None \<Rightarrow> Some (if pkt_get_length q = 0 then Some [] else None)
     | Some pl \<Rightarrow> do { bs \<leftarrow> read_bytes pl 0 (unat (pkt_get_length q)); Some (Some bs) })"

text \<open>The body of the loop: the result if it returns, the next \<open>current\<close> and the state.\<close>

definition write_step ::
  "(heap \<Rightarrow> addr \<Rightarrow> node option) \<Rightarrow> (nat \<Rightarrow> nat option) \<Rightarrow> rcv \<Rightarrow> addr \<Rightarrow> (int option \<times> addr option \<times> rcv) option" where
  "write_step dang wr st a = do {
     n \<leftarrow> read_node dang (r_heap st) a;
     q \<leftarrow> pkts (r_heap st) (n_pkt n);
     if uint (pkt_get_seqnum q) = (r_last_writed st + 1) mod MAX_SEQNUM then do {
       arg \<leftarrow> write_arg q;
       let result = (case arg of None \<Rightarrow> None | Some bs \<Rightarrow>
                       (case wr (r_writes st) of None \<Rightarrow> None | Some k \<Rightarrow> Some (take k bs)));
       let st = st\<lparr>r_writes := r_writes st + 1\<rparr>;
       (case result of None \<Rightarrow> Some (Some (-1), n_next n, st)
        | Some written \<Rightarrow> do {
            let st = st\<lparr>r_out := r_out st @ written, r_last_writed := uint (pkt_get_seqnum q)\<rparr>;
            (_, h, b) \<leftarrow> buffer_remove (r_heap st) (r_buffer st) (pkt_get_seqnum q);
            Some (None, n_next n, st\<lparr>r_heap := h, r_buffer := b, r_nb_writed := r_nb_writed st + 1\<rparr>)
          })
     } else Some (Some 1, n_next n, st)
   }"

partial_function (option) write_loop ::
  "(heap \<Rightarrow> addr \<Rightarrow> node option) \<Rightarrow> (nat \<Rightarrow> nat option) \<Rightarrow> rcv \<Rightarrow> addr option \<Rightarrow> (int \<times> rcv) option" where
  "write_loop dang wr st current =
     (if current = None then Some (1, st)
      else do {
        (r, next, st) \<leftarrow> write_step dang wr st (the current);
        if r = None then write_loop dang wr st next else Some (the r, st)
      })"

definition write_buffer_to_file ::
  "(heap \<Rightarrow> addr \<Rightarrow> node option) \<Rightarrow> (nat \<Rightarrow> nat option) \<Rightarrow> rcv \<Rightarrow> (int \<times> rcv) option" where
  "write_buffer_to_file dang wr st = do {
     _ \<leftarrow> buffer_print (r_heap st) (r_buffer st);
     write_loop dang wr st (b_first (r_buffer st))
   }"

definition send_ack ::
  "(bytes \<Rightarrow> u32) \<Rightarrow> endian \<Rightarrow> rturn \<Rightarrow> rcv \<Rightarrow> int \<Rightarrow> u32 \<Rightarrow> int \<Rightarrow> (int \<times> rcv) option" where
  "send_ack crc e inp st seqnum type wind =
     (case t_ack inp of None \<Rightarrow> Some (-1, st)
      | Some ack \<Rightarrow> do {
          let ack = snd (pkt_set_type ack type);
          let ack = snd (pkt_set_seqnum ack (word_of_int seqnum));
          let ack = snd (pkt_set_tr ack 0);
          let ack = snd (pkt_set_window ack (word_of_int wind));
          let ack = snd (pkt_set_timestamp ack (r_time_last_data st));
          (_, ack) \<leftarrow> pkt_set_payload (t_ack_payload inp) ack None 0;
          (code, buf, len) \<leftarrow> pkt_encode crc e (Some ack) (Some (replicate ACK_SIZE 0)) (Some 0);
          if code \<noteq> PKT_OK then Some (-1, st)
          else if \<not> t_send inp then Some (-1, st)
          else do {
            dgram \<leftarrow> buf;
            n \<leftarrow> len;
            let st = st\<lparr>r_acks := r_acks st @ [take n dgram]\<rparr>;
            Some (0, if type = PTYPE_ACK then st\<lparr>r_last_acked := seqnum, r_ack_sent := r_ack_sent st + 1\<rparr>
                     else st\<lparr>r_nack_sent := r_nack_sent st + 1\<rparr>)
          }
        })"

section \<open>One turn of the loop\<close>

text \<open>Whether the turn goes on to its last statement, is cut by \<open>continue\<close>, or the loop returns.\<close>

datatype flow = Go | Continue | Return

definition free_slots :: "rcv \<Rightarrow> int" where
  "free_slots st = r_window st - int (b_size (r_buffer st))"

text \<open>A packet that was decoded, of type DATA, at address \<open>a\<close>.\<close>

definition receive_data ::
  "(bytes \<Rightarrow> u32) \<Rightarrow> endian \<Rightarrow> (heap \<Rightarrow> addr \<Rightarrow> node option) \<Rightarrow> rturn \<Rightarrow> addr \<Rightarrow> pkt \<Rightarrow> rcv \<Rightarrow> (flow \<times> rcv) option" where
  "receive_data crc e dang inp a p st = do {
     let st = st\<lparr>r_data_received := r_data_received st + 1\<rparr>;
     present \<leftarrow> is_in_buffer (r_heap st) (Some (r_buffer st)) (pkt_get_seqnum p);
     if present then
       Some (Go, st\<lparr>r_bypass := True, r_data_truncated_received := r_data_truncated_received st + 1\<rparr>)
     else if is_in_window st (uint (pkt_get_seqnum p)) then
       if pkt_get_tr p = 1 then do {
         (_, st) \<leftarrow> send_ack crc e inp st (uint (pkt_get_seqnum p)) PTYPE_NACK (free_slots st);
         Some (Continue, st)
       } else if pkt_get_type p = PTYPE_DATA \<and> pkt_get_length p = 0 then
         Some (Go, st\<lparr>r_lastack_to_send := uint (pkt_get_seqnum p), r_bypass := True\<rparr>)
       else do {
         (err, h, b) \<leftarrow> buffer_enqueue (r_heap st) (r_buffer st) a (t_node inp);
         let st = st\<lparr>r_heap := h, r_buffer := b\<rparr>;
         if err = -1 then Some (Return, st)
         else do {
           (_, st) \<leftarrow> write_buffer_to_file dang (t_write inp) (st\<lparr>r_time_last_data := t_time inp\<rparr>);
           Some (Go, if r_window st > MAX_WINDOW then st\<lparr>r_window := MAX_WINDOW\<rparr> else st)
         }
       }
     else Some (Go, st)
   }"

text \<open>
  The array after \<open>read\<close> and the number of bytes read; -1 becomes the greatest \<open>size_t\<close> as
  the code goes on after a failed read.
\<close>

definition turn_buf :: "rturn \<Rightarrow> bytes" where
  "turn_buf inp = (case t_read inp of None \<Rightarrow> t_stack inp
     | Some d \<Rightarrow> take MAX_PKT_SIZE d @ drop (length d) (t_stack inp))"

definition turn_len :: "rturn \<Rightarrow> nat" where
  "turn_len inp = (case t_read inp of None \<Rightarrow> 2 ^ 64 - 1 | Some d \<Rightarrow> length (take MAX_PKT_SIZE d))"

text \<open>The datagram: decoded into the new packet, then handled or dropped.\<close>

definition receive_datagram ::
  "(bytes \<Rightarrow> u32) \<Rightarrow> endian \<Rightarrow> (heap \<Rightarrow> addr \<Rightarrow> node option) \<Rightarrow> rturn \<Rightarrow> rcv \<Rightarrow> (flow \<times> rcv) option" where
  "receive_datagram crc e dang inp st = do {
     let st = st\<lparr>r_start := (if r_reset_time st then t_start inp else r_start st), r_reset_time := False,
                 r_n_accumulated := r_n_accumulated st + 1\<rparr>;
     let s = turn_len inp;
     let ignored = st\<lparr>r_bypass := True, r_packet_ignored := r_packet_ignored st + 1\<rparr>;
     (case t_pkt inp of
        None \<Rightarrow> if s > MAX_PAYLOAD_SIZE + 16 \<or> s < 10 then Some (Go, ignored) else None
      | Some (a, block) \<Rightarrow> do {
          (code, p) \<leftarrow> pkt_decode crc e (t_payload_ok inp) (Some (turn_buf inp)) s block;
          let h = (r_heap st)\<lparr>pkts := (pkts (r_heap st))(a \<mapsto> p)\<rparr>;
          if code \<noteq> PKT_OK \<or> pkt_get_type p \<noteq> PTYPE_DATA then do {
            h \<leftarrow> pkt_del h (Some a);
            Some (Go, ignored\<lparr>r_heap := h\<rparr>)
          } else receive_data crc e dang inp a p (st\<lparr>r_heap := h\<rparr>)
        })
   }"

text \<open>The acknowledgement at the end of a turn; the comparison is in microseconds.\<close>

definition ack_due :: "rturn \<Rightarrow> rcv \<Rightarrow> bool" where
  "ack_due inp st \<longleftrightarrow>
     (fst (t_end inp) - fst (r_start st)) * 1000000 + (snd (t_end inp) - snd (r_start st)) > 500000
     \<or> r_n_accumulated st \<ge> MAX_WINDOW div 4 \<or> r_bypass st \<or> r_nb_writed st = 1"

definition rcv_turn ::
  "(bytes \<Rightarrow> u32) \<Rightarrow> endian \<Rightarrow> (heap \<Rightarrow> addr \<Rightarrow> node option) \<Rightarrow> rturn \<Rightarrow> rcv \<Rightarrow> (flow \<times> rcv) option" where
  "rcv_turn crc e dang inp st = do {
     let st = st\<lparr>r_ready := t_ready inp\<rparr>;
     if t_ready inp = -1 then Some (Return, st)
     else do {
       let st = (case t_pkt inp of None \<Rightarrow> st
                 | Some (a, block) \<Rightarrow> st\<lparr>r_heap := (r_heap st)\<lparr>pkts := (pkts (r_heap st))(a \<mapsto> block)\<rparr>\<rparr>);
       if \<not> t_pollin inp then Some (Go, st)
       else do {
         (f, st) \<leftarrow> receive_datagram crc e dang inp st;
         if f = Go \<and> ack_due inp st then do {
           (_, st) \<leftarrow> send_ack crc e inp st ((r_last_writed st + 1) mod MAX_SEQNUM) PTYPE_ACK (free_slots st);
           Some (Go, st\<lparr>r_n_accumulated := 0, r_reset_time := True, r_bypass := False\<rparr>)
         } else Some (f, st)
       }
     }
   }"

text \<open>The condition of the loop.\<close>

definition rcv_running :: "rcv \<Rightarrow> bool" where
  "rcv_running st \<longleftrightarrow> r_last_acked st \<noteq> r_lastack_to_send st \<and> r_ready st \<noteq> 0"

section \<open>The first node and its removal\<close>

text \<open>
  What the loop of \<open>write_buffer_to_file\<close> sees: the successor it has read before the removal
  is the new first node, or, when the buffer becomes empty, the freed node itself.
\<close>

lemma drain_first:
  assumes "holds h b (p # ps)"
  shows "\<exists>a n h' b'. b_first b = Some a \<and> nodes h a = Some n \<and> n_pkt n = p \<and>
    buffer_remove h b (pseq h p) = Some (Some p, h', b') \<and> holds h' b' ps \<and> pkts h' = pkts h \<and>
    (if ps = [] then n_next n = Some a \<and> nodes h' a = None \<and> stale h' a = Some n else n_next n = b_first b')"
proof -
  obtain a as where as: "rep h b (a # as)" "pk h a = p" "map (pk h) as = ps" "dom (nodes h) = set (a # as)"
    using assms by (auto simp: holds_def)
  obtain n where n: "nodes h a = Some n" "n_pkt n = p" "n_next n = Some (hd (as @ [a]))"
    using node_at_rep [of h b "[]" a as] as by auto
  have f: "b_first b = Some a" using rep_facts(4) [OF as(1)] by simp
  have find: "find (\<lambda>x. pseq h (pk h x) = pseq h p) (a # as) = Some a" using as(2) by simp
  show ?thesis
  proof (cases "as = []")
    case True
    let ?h' = "h\<lparr>nodes := (nodes h)(a := None), stale := (stale h)(a \<mapsto> n)\<rparr>"
    have "node_seq h (Some a) = Some (pseq h p)" using node_seq_rep [OF as(1), of a] as(2) by simp
    then have "find_node h b (pseq h p) (Some a) = Some (Some a)" by (subst find_node.simps) simp
    then have "buffer_remove h b (pseq h p) = Some (Some p, ?h', buffer_init)"
      using f n rep_facts(3) [OF as(1)] True
      by (simp add: buffer_remove_def node_at_def node_free_def buffer_init_def)
    moreover have "holds ?h' buffer_init ps"
      using True as(3,4) by (auto simp: holds_empty simp flip: dom_eq_empty_conv)
    ultimately show ?thesis using True as(3) n f by auto
  next
    case False
    from buffer_remove_rep [OF as(1) find] as(2) obtain h' b' xs ys where r:
      "buffer_remove h b (pseq h p) = Some (Some p, h', b')" "a # as = xs @ a # ys"
      "\<forall>x \<in> set xs. pseq h (pk h x) \<noteq> pseq h p" "rep h' b' (xs @ ys)"
      "map (pk h') (xs @ ys) = map (pk h) (xs @ ys)" "pkts h' = pkts h" "dom (nodes h') = dom (nodes h) - {a}"
      by blast
    have "xs = []" "ys = as" using r(2,3) as(2) by (cases xs; auto)+
    then have "holds h' b' ps" "b_first b' = Some (hd as)"
      using r(4,5,7) as(3,4) rep_facts(2) [OF as(1)] rep_facts(4) [of h' b' as] False
      by (auto simp: holds_def)
    then show ?thesis using r(1,6) n f as(3) False by auto
  qed
qed

section \<open>The invariant of the receiver\<close>

text \<open>
  The file is sent in pieces: \<open>chunk k\<close> is the payload of the \<open>k\<close>-th data packet, whose
  sequence number is \<open>k\<close> modulo 256. After \<open>m\<close> packets were written, the output is the first
  \<open>m\<close> pieces, and a waiting packet carries one of the 31 following ones.
\<close>

definition carries :: "(nat \<Rightarrow> bytes) \<Rightarrow> nat \<Rightarrow> pkt \<Rightarrow> bool" where
  "carries chunk k q \<longleftrightarrow> unat (pkt_get_seqnum q) = k mod 256 \<and> p_length q \<noteq> 0 \<and>
     p_payload q = Some (chunk k) \<and> length (chunk k) = unat (p_length q) \<and> length (chunk k) \<le> 512"

definition rcv_inv :: "(nat \<Rightarrow> bytes) \<Rightarrow> nat \<Rightarrow> addr list \<Rightarrow> rcv \<Rightarrow> bool" where
  "rcv_inv chunk m ps st \<longleftrightarrow> holds (r_heap st) (r_buffer st) ps \<and> distinct (map (pseq (r_heap st)) ps) \<and>
     r_window st = 31 \<and> r_nb_writed st = int m \<and>
     r_last_writed st = (if m = 0 then -1 else int ((m - 1) mod 256)) \<and>
     r_out st = concat (map chunk [0..<m]) \<and> (\<forall>k < m. chunk k \<noteq> []) \<and>
     (\<forall>p \<in> set ps. \<exists>k q. m \<le> k \<and> k \<le> m + 30 \<and> pkts (r_heap st) p = Some q \<and> carries chunk k q)"

text \<open>\<open>write\<close> writes all it is asked to, or fails.\<close>

definition full_writes :: "(nat \<Rightarrow> nat option) \<Rightarrow> bool" where
  "full_writes wr \<longleftrightarrow> (\<forall>i k. wr i = Some k \<longrightarrow> 512 \<le> k)"

lemma rcv_inv_facts:
  assumes "rcv_inv chunk m ps st"
  shows "holds (r_heap st) (r_buffer st) ps" "distinct (map (pseq (r_heap st)) ps)" "r_window st = 31"
    "r_nb_writed st = int m" "r_out st = concat (map chunk [0..<m])"
    "j < m \<Longrightarrow> chunk j \<noteq> []"
    "x \<in> set ps \<Longrightarrow> \<exists>k q. m \<le> k \<and> k \<le> m + 30 \<and> pkts (r_heap st) x = Some q \<and> carries chunk k q"
  using assms unfolding rcv_inv_def by blast+

lemma carries_facts:
  assumes "carries chunk k q"
  shows "unat (pkt_get_seqnum q) = k mod 256" "length (chunk k) \<le> 512"
  using assms unfolding carries_def by blast+

lemma expected: "rcv_inv chunk m ps st \<Longrightarrow> (r_last_writed st + 1) mod MAX_SEQNUM = int (m mod 256)"
  by (cases m) (auto simp: rcv_inv_def MAX_SEQNUM_def zmod_int mod_simps add.commute)

lemma write_arg_carries: "carries chunk k q \<Longrightarrow> write_arg q = Some (Some (chunk k))"
  by (auto simp: carries_def write_arg_def pkt_get_payload_def pkt_get_length_def read_bytes_def)

lemma uint_eq_int: "uint x = int n \<longleftrightarrow> unat x = n"
  by (metis of_nat_eq_iff uint_nat)

lemma mod_256_eq:
  fixes k j :: nat
  assumes "k mod 256 = j mod 256" "k < j + 256" "j < k + 256"
  shows "k = j"
proof -
  have "k = k div 256 * 256 + k mod 256" "j = j div 256 * 256 + j mod 256" by simp_all
  then have "k div 256 = j div 256" using assms by linarith
  then show ?thesis using assms(1) by (metis div_mult_mod_eq)
qed

lemma mod_256_Suc: "(m :: nat) mod 256 \<noteq> Suc m mod 256"
  by (simp add: mod_Suc)

lemma carries_inj:
  assumes "carries chunk k q" "carries chunk j r" "m \<le> k" "k \<le> m + 30" "m \<le> j" "j \<le> m + 30"
  shows "pkt_get_seqnum q = pkt_get_seqnum r \<longleftrightarrow> k = j"
proof -
  have "unat (pkt_get_seqnum q) = k mod 256" "unat (pkt_get_seqnum r) = j mod 256"
    using assms(1,2) unfolding carries_def by blast+
  moreover have "k < j + 256" "j < k + 256" using assms(3-6) by linarith+
  ultimately show ?thesis using mod_256_eq [of k j] by (metis word_unat_eq_iff)
qed

text \<open>One successful round of the loop.\<close>

lemma written_inv:
  assumes inv: "rcv_inv chunk m (p # ps) st" and q: "pkts (r_heap st) p = Some q" "unat (pkt_get_seqnum q) = m mod 256"
    and h': "holds h' b' ps" "pkts h' = pkts (r_heap st)"
  shows "carries chunk m q \<and> rcv_inv chunk (Suc m) ps
    (st\<lparr>r_writes := r_writes st + 1, r_out := r_out st @ chunk m, r_last_writed := uint (pkt_get_seqnum q),
        r_heap := h', r_buffer := b', r_nb_writed := r_nb_writed st + 1\<rparr>)"
proof -
  obtain k where k: "m \<le> k" "k \<le> m + 30" "carries chunk k q" using rcv_inv_facts(7) [OF inv, of p] q(1) by auto
  have "k mod 256 = m mod 256" using carries_facts(1) [OF k(3)] q(2) by (rule trans [OF sym])
  moreover have "k < m + 256" "m < k + 256" using k(1,2) by linarith+
  ultimately have km: "k = m" by (rule mod_256_eq)
  have dist: "distinct (map (pseq (r_heap st)) (p # ps))"
    and old: "\<And>x. x \<in> set (p # ps) \<Longrightarrow> \<exists>k q. m \<le> k \<and> k \<le> m + 30 \<and> pkts (r_heap st) x = Some q \<and> carries chunk k q"
    and rest: "r_window st = 31" "r_nb_writed st = int m" "r_out st = concat (map chunk [0..<m])" "\<forall>k < m. chunk k \<noteq> []"
    using inv unfolding rcv_inv_def by blast+
  have later: "\<exists>j q'. Suc m \<le> j \<and> j \<le> Suc m + 30 \<and> pkts h' x = Some q' \<and> carries chunk j q'" if x: "x \<in> set ps" for x
  proof -
    obtain j q' where j: "m \<le> j" "j \<le> m + 30" "pkts (r_heap st) x = Some q'" "carries chunk j q'"
      using old [of x] x by auto
    have "pseq (r_heap st) x \<noteq> pseq (r_heap st) p" using dist x by (metis distinct.simps(2) imageI list.map(2) list.set_map)
    then have "pkt_get_seqnum q' \<noteq> pkt_get_seqnum q" using q(1) j(3) by (simp add: pseq_def)
    then have "j \<noteq> m" using carries_inj [OF j(4) k(3) j(1,2) k(1,2)] km by simp
    then have "Suc m \<le> j" "j \<le> Suc m + 30" using j(1,2) by linarith+
    then show ?thesis using j h'(2) by (intro exI [of _ j] exI [of _ q']) simp
  qed
  have ps: "pseq h' = pseq (r_heap st)" using h'(2) by (auto simp: pseq_def)
  have "uint (pkt_get_seqnum q) = int ((Suc m - 1) mod 256)"
    using q(2) by (simp only: uint_eq_int diff_Suc_1)
  moreover have "\<forall>j < Suc m. chunk j \<noteq> []"
    using k(3) km rest(4) unfolding carries_def less_Suc_eq by (auto simp: unat_eq_0)
  ultimately show ?thesis using h'(1) later k(3) km rest dist ps unfolding rcv_inv_def by simp
qed

lemma write_loop_ok:
  assumes "rcv_inv chunk m ps st" "full_writes wr"
    "ps \<noteq> [] \<Longrightarrow> current = b_first (r_buffer st)"
    "ps = [] \<Longrightarrow> \<exists>a n q. current = Some a \<and> read_node lenient (r_heap st) a = Some n \<and>
       pkts (r_heap st) (n_pkt n) = Some q \<and> unat (pkt_get_seqnum q) \<noteq> m mod 256"
  shows "\<exists>c st' m' ps' xs. write_loop lenient wr st current = Some (c, st') \<and> m \<le> m' \<and> rcv_inv chunk m' ps' st' \<and>
    pkts (r_heap st') = pkts (r_heap st) \<and> ps = xs @ ps' \<and>
    (c = 1 \<longrightarrow> ps' = [] \<or> unat (pseq (r_heap st') (hd ps')) \<noteq> m' mod 256)"
  using assms
proof (induction ps arbitrary: m st current)
  case Nil
  then obtain a n q where c: "current = Some a" "read_node lenient (r_heap st) a = Some n"
    "pkts (r_heap st) (n_pkt n) = Some q" "unat (pkt_get_seqnum q) \<noteq> m mod 256" by blast
  have "uint (pkt_get_seqnum q) \<noteq> int (m mod 256)" using c(4) by (simp only: uint_eq_int not_False_eq_True)
  then have "write_loop lenient wr st current = Some (1, st)"
    using c expected [OF Nil.prems(1)] by (subst write_loop.simps) (simp add: write_step_def)
  then show ?case using Nil.prems(1) by auto
next
  case (Cons p ps)
  have hold: "holds (r_heap st) (r_buffer st) (p # ps)" by (rule rcv_inv_facts(1) [OF Cons.prems(1)])
  obtain a n h' b' where d: "b_first (r_buffer st) = Some a" "nodes (r_heap st) a = Some n" "n_pkt n = p"
    "buffer_remove (r_heap st) (r_buffer st) (pseq (r_heap st) p) = Some (Some p, h', b')" "holds h' b' ps"
    "pkts h' = pkts (r_heap st)"
    "if ps = [] then n_next n = Some a \<and> nodes h' a = None \<and> stale h' a = Some n else n_next n = b_first b'"
    using drain_first [OF hold] by blast
  obtain k q where q: "pkts (r_heap st) p = Some q" "carries chunk k q"
    using rcv_inv_facts(7) [OF Cons.prems(1), of p] by auto
  have pq: "pseq (r_heap st) p = pkt_get_seqnum q" using q(1) by (simp add: pseq_def)
  have cur: "current = Some a" "read_node lenient (r_heap st) a = Some n"
    using Cons.prems(3) d(1,2) by (simp_all add: read_node_def)
  note exp = expected [OF Cons.prems(1)]
  show ?case
  proof (cases "unat (pkt_get_seqnum q) = m mod 256")
    case False
    then have "uint (pkt_get_seqnum q) \<noteq> int (m mod 256)" by (simp only: uint_eq_int not_False_eq_True)
    then have "write_loop lenient wr st current = Some (1, st)"
      using cur d(3) q(1) exp by (subst write_loop.simps) (simp add: write_step_def)
    then show ?thesis using Cons.prems(1) False pq
      by (intro exI [of _ 1] exI [of _ st] exI [of _ m] exI [of _ "p # ps"] exI [of _ "[]"]) simp
  next
    case True
    note w = written_inv [OF Cons.prems(1) q(1) True d(5,6)]
    have eq: "uint (pkt_get_seqnum q) = (r_last_writed st + 1) mod MAX_SEQNUM"
      using True exp by (simp only: uint_eq_int)
    show ?thesis
    proof (cases "wr (r_writes st)")
      case None
      let ?st = "st\<lparr>r_writes := r_writes st + 1\<rparr>"
      have "write_loop lenient wr st current = Some (-1, ?st)"
        using cur d(3) q(1) eq None write_arg_carries [OF conjunct1 [OF w]]
        by (subst write_loop.simps) (simp add: write_step_def Let_def)
      moreover have "rcv_inv chunk m (p # ps) ?st" using Cons.prems(1) unfolding rcv_inv_def by simp
      ultimately show ?thesis
        by (intro exI [of _ "-1"] exI [of _ ?st] exI [of _ m] exI [of _ "p # ps"] exI [of _ "[]"]) simp
    next
      case (Some j)
      have "take j (chunk m) = chunk m"
      proof -
        have "512 \<le> j" using Some Cons.prems(2) unfolding full_writes_def by blast
        then show ?thesis using carries_facts(2) [of chunk m q] w by auto
      qed
      let ?st = "st\<lparr>r_writes := r_writes st + 1, r_out := r_out st @ chunk m, r_last_writed := uint (pkt_get_seqnum q),
        r_heap := h', r_buffer := b', r_nb_writed := r_nb_writed st + 1\<rparr>"
      have step: "write_loop lenient wr st current = write_loop lenient wr ?st (n_next n)"
        using cur d(3,4) q(1) eq Some write_arg_carries [OF conjunct1 [OF w]] pq \<open>take j _ = _\<close>
        by (subst write_loop.simps) (simp add: write_step_def Let_def del: take_all_iff)
      have inv: "rcv_inv chunk (Suc m) ps ?st" using w by simp
      have ne: "unat (pkt_get_seqnum q) \<noteq> Suc m mod 256" using mod_256_Suc [of m] True by (simp only: not_False_eq_True)
      have dang: "\<exists>a n q. n_next n' = Some a \<and> read_node lenient (r_heap ?st) a = Some n \<and>
         pkts (r_heap ?st) (n_pkt n) = Some q \<and> unat (pkt_get_seqnum q) \<noteq> Suc m mod 256" if "ps = []" "n' = n" for n'
        using that d(3,6,7) q(1) ne by (intro exI [of _ a] exI [of _ n] exI [of _ q]) (simp add: read_node_def lenient_def)
      from Cons.IH [OF inv Cons.prems(2), of "n_next n"] d(7) dang
      obtain c st' m' ps' xs where IH: "write_loop lenient wr ?st (n_next n) = Some (c, st')" "Suc m \<le> m'"
        "rcv_inv chunk m' ps' st'" "pkts (r_heap st') = pkts (r_heap ?st)" "ps = xs @ ps'"
        "c = 1 \<longrightarrow> ps' = [] \<or> unat (pseq (r_heap st') (hd ps')) \<noteq> m' mod 256" by auto
      then show ?thesis using step d(6)
        by (intro exI [of _ c] exI [of _ st'] exI [of _ m'] exI [of _ ps'] exI [of _ "p # xs"]) simp
    qed
  qed
qed

section \<open>Acknowledgements\<close>

text \<open>The structure \<open>send_ack\<close> encodes.\<close>

definition ack_pkt :: "pkt \<Rightarrow> u32 \<Rightarrow> int \<Rightarrow> int \<Rightarrow> u32 \<Rightarrow> bool \<Rightarrow> pkt" where
  "ack_pkt block type seqnum wind ts ok =
     block\<lparr>p_type := ucast type, p_seqnum := word_of_int seqnum, p_tr := 0, p_window := word_of_int wind,
       p_timestamp := ts, p_length := (if ok then 0 else p_length block),
       p_payload := (if ok then Some [] else None)\<rparr>"

lemma send_ack_sends:
  assumes "type = PTYPE_ACK \<or> type = PTYPE_NACK" "0 \<le> wind" "wind \<le> 31" "t_ack inp = Some block" "t_send inp"
  shows "send_ack crc e inp st seqnum type wind = Some (0,
    let st = st\<lparr>r_acks := r_acks st @ [ack_wire crc e (ack_pkt block type seqnum wind (r_time_last_data st) (t_ack_payload inp))]\<rparr>
    in if type = PTYPE_ACK then st\<lparr>r_last_acked := seqnum, r_ack_sent := r_ack_sent st + 1\<rparr>
       else st\<lparr>r_nack_sent := r_nack_sent st + 1\<rparr>)"
proof -
  let ?p = "ack_pkt block type seqnum wind (r_time_last_data st) (t_ack_payload inp)"
  have u: "uint (word_of_int wind :: u8) = wind" using assms(2,3) by (simp add: uint_word_of_int)
  then have w: "unat (word_of_int wind :: u8) \<le> 31" "ucast (word_of_int wind :: u8) = (word_of_int wind :: 5 word)"
    using assms(2,3) by (simp_all add: unat_eq_nat_uint unsigned_ucast_eq word_uint_eq_iff uint_word_of_int take_bit_eq_mod nat_le_iff)
  have enc: "pkt_encode crc e (Some ?p) (Some (replicate 10 0)) (Some 0) =
      Some (PKT_OK, Some (ack_wire crc e ?p), Some 10)"
    using pkt_encode_ack [of ?p "replicate 10 0" crc e 0] assms(1) by (auto simp: ack_pkt_def)
  have set: "pkt_set_payload (t_ack_payload inp) (snd (pkt_set_timestamp (snd (pkt_set_window (snd (pkt_set_tr
      (snd (pkt_set_seqnum (snd (pkt_set_type block type)) (word_of_int seqnum))) 0)) (word_of_int wind))) (r_time_last_data st))) None 0
      = Some (if t_ack_payload inp then PKT_OK else E_NOMEM, ?p)"
    using assms(1) w
    by (auto simp: pkt_set_payload_def pkt_set_type_def pkt_set_seqnum_def pkt_set_window_def pkt_set_timestamp_def
        pkt_set_length_def ack_pkt_def)
  have len: "take 10 (ack_wire crc e ?p) = ack_wire crc e ?p" by simp
  show ?thesis
    unfolding send_ack_def assms(4) option.case Let_def set ACK_SIZE_def
    using assms(1,5) enc len by auto
qed

lemma send_ack_cases:
  assumes "type = PTYPE_ACK \<or> type = PTYPE_NACK" "0 \<le> wind" "wind \<le> 31"
  shows "\<exists>r st'. send_ack crc e inp st seqnum type wind = Some (r, st') \<and>
    st'\<lparr>r_acks := r_acks st, r_last_acked := r_last_acked st, r_ack_sent := r_ack_sent st, r_nack_sent := r_nack_sent st\<rparr> = st"
proof (cases "t_ack inp")
  case None
  then show ?thesis by (simp add: send_ack_def)
next
  case (Some block)
  show ?thesis
  proof (cases "t_send inp")
    case True
    then show ?thesis using send_ack_sends [OF assms Some True, of crc e st seqnum] by (simp add: Let_def)
  next
    case False
    obtain st1 where st1: "send_ack crc e (inp\<lparr>t_send := True\<rparr>) st seqnum type wind = Some (0, st1)"
      using send_ack_sends [OF assms, of "inp\<lparr>t_send := True\<rparr>" block crc e st seqnum] Some by simp
    then have "send_ack crc e inp st seqnum type wind = Some (-1, st)"
      using Some False by (simp add: send_ack_def Let_def bind_eq_Some_conv) (auto split: if_splits)
    then show ?thesis by simp
  qed
qed

section \<open>A turn keeps the invariant\<close>

lemma rcv_inv_acks:
  assumes "st'\<lparr>r_acks := a, r_last_acked := b, r_ack_sent := c, r_nack_sent := d\<rparr> = st" "rcv_inv chunk m ps st"
  shows "rcv_inv chunk m ps st'"
  using assms(2) unfolding assms(1) [symmetric] rcv_inv_def by simp

lemma rcv_inv_pkts:
  assumes "rcv_inv chunk m ps st" "\<And>p. p \<in> set ps \<Longrightarrow> M p = pkts (r_heap st) p"
  shows "rcv_inv chunk m ps (st\<lparr>r_heap := (r_heap st)\<lparr>pkts := M\<rparr>\<rparr>)"
proof -
  have "set ps \<subseteq> dom M"
    using holds_facts(2) [OF rcv_inv_facts(1) [OF assms(1)]] assms(2) by (auto simp: subset_iff domIff)
  then have "holds ((r_heap st)\<lparr>pkts := M\<rparr>) (r_buffer st) ps" by (rule holds_pkts [OF rcv_inv_facts(1) [OF assms(1)]])
  moreover have "map (pseq ((r_heap st)\<lparr>pkts := M\<rparr>)) ps = map (pseq (r_heap st)) ps"
    using assms(2) by (simp add: pseq_def)
  moreover have "\<forall>x \<in> set ps. \<exists>k q. m \<le> k \<and> k \<le> m + 30 \<and> M x = Some q \<and> carries chunk k q"
    using rcv_inv_facts(7) [OF assms(1)] assms(2) by simp
  ultimately show ?thesis using assms(1) unfolding rcv_inv_def by (simp del: map_eq_conv)
qed

text \<open>At most 31 packets wait, so that the advertised window is between 0 and 31.\<close>

lemma rcv_inv_length:
  assumes "rcv_inv chunk m ps st"
  shows "length ps \<le> 31"
proof -
  let ?h = "r_heap st"
  have "set (map (pseq ?h) ps) \<subseteq> (\<lambda>k. of_nat (k mod 256)) ` {m..m + 30}"
  proof
    fix s assume "s \<in> set (map (pseq ?h) ps)"
    then obtain x where x: "x \<in> set ps" "s = pseq ?h x" by auto
    obtain k q where k: "m \<le> k" "k \<le> m + 30" "pkts ?h x = Some q" "carries chunk k q"
      using rcv_inv_facts(7) [OF assms x(1)] by blast
    have "s = of_nat (k mod 256)" using k(3) carries_facts [OF k(4)] x(2)
      by (simp add: pseq_def word_unat_eq_iff unat_of_nat)
    then show "s \<in> (\<lambda>k. of_nat (k mod 256)) ` {m..m + 30}" using k(1,2) by simp
  qed
  then have "card (set (map (pseq ?h) ps)) \<le> card {m..m + 30}"
    by (meson card_image_le card_mono finite_atLeastAtMost finite_imageI le_trans)
  then show ?thesis using rcv_inv_facts(2) [OF assms] distinct_card [of "map (pseq ?h) ps"] by simp
qed

lemma free_slots_bounds:
  assumes "rcv_inv chunk m ps st"
  shows "0 \<le> free_slots st" "free_slots st \<le> 31"
  using rcv_inv_length [OF assms] rcv_inv_facts(3) [OF assms] holds_facts(3) [OF rcv_inv_facts(1) [OF assms]]
  by (simp_all add: free_slots_def)

lemma in_window_index:
  assumes "rcv_inv chunk m ps st" "is_in_window st (uint s)"
  shows "\<exists>k. m \<le> k \<and> k \<le> m + 30 \<and> k mod 256 = unat (s :: u8)"
proof -
  define u where "u = unat s"
  have s256: "u < 256" using unsigned_less [of s, where ?'a = nat] by (simp add: u_def)
  have "uint s = int u" unfolding u_def by (rule uint_nat)
  then have win: "is_in_window st (int u)" using assms(2) by simp
  have w: "r_window st = 31" by (rule rcv_inv_facts(3) [OF assms(1)])
  show ?thesis
  proof (cases m)
    case 0
    then have "r_last_writed st = -1" using assms(1) unfolding rcv_inv_def by simp
    then have "u < 30" using win w by (simp add: is_in_window_def split: if_splits)
    then show ?thesis using 0 unfolding u_def [symmetric] by (intro exI [of _ u]) simp
  next
    case (Suc n)
    define t where "t = n div 256"
    define L where "L = n mod 256"
    have L: "L < 256" "n = 256 * t + L" by (simp_all add: L_def t_def)
    have "r_last_writed st = int L" using assms(1) Suc unfolding rcv_inv_def L_def by simp
    then have c: "(u < L \<and> u + 256 \<le> L + 31) \<or> (L < u \<and> u < L + 31)"
      using win w by (auto simp: is_in_window_def MAX_SEQNUM_def split: if_splits)
    show ?thesis
    proof (cases "u < L")
      case True
      then have "u + 256 \<le> L + 31" using c by auto
      have "Suc n \<le> 256 * (t + 1) + u" "256 * (t + 1) + u \<le> Suc n + 30"
        using L \<open>u + 256 \<le> L + 31\<close> by simp_all
      moreover have "(256 * (t + 1) + u) mod 256 = u" using s256 by (simp only: mod_mult_self4 mod_less)
      ultimately show ?thesis using Suc unfolding u_def [symmetric] by blast
    next
      case False
      then have "L < u" "u < L + 31" using c by auto
      have "Suc n \<le> 256 * t + u" "256 * t + u \<le> Suc n + 30"
        using L \<open>L < u\<close> \<open>u < L + 31\<close> by simp_all
      moreover have "(256 * t + u) mod 256 = u" using s256 by (simp only: mod_mult_self4 mod_less)
      ultimately show ?thesis using Suc unfolding u_def [symmetric] by blast
    qed
  qed
qed

lemma rcv_inv_upd [simp]:
  "rcv_inv chunk m ps (st\<lparr>r_bypass := b\<rparr>) = rcv_inv chunk m ps st"
  "rcv_inv chunk m ps (st\<lparr>r_data_received := i\<rparr>) = rcv_inv chunk m ps st"
  "rcv_inv chunk m ps (st\<lparr>r_data_truncated_received := i\<rparr>) = rcv_inv chunk m ps st"
  "rcv_inv chunk m ps (st\<lparr>r_lastack_to_send := i\<rparr>) = rcv_inv chunk m ps st"
  "rcv_inv chunk m ps (st\<lparr>r_time_last_data := t\<rparr>) = rcv_inv chunk m ps st"
  "rcv_inv chunk m ps (st\<lparr>r_packet_ignored := i\<rparr>) = rcv_inv chunk m ps st"
  "rcv_inv chunk m ps (st\<lparr>r_ready := i\<rparr>) = rcv_inv chunk m ps st"
  "rcv_inv chunk m ps (st\<lparr>r_start := x\<rparr>) = rcv_inv chunk m ps st"
  "rcv_inv chunk m ps (st\<lparr>r_reset_time := b\<rparr>) = rcv_inv chunk m ps st"
  "rcv_inv chunk m ps (st\<lparr>r_n_accumulated := i\<rparr>) = rcv_inv chunk m ps st"
  by (simp_all add: rcv_inv_def)

lemma full_window [simp]: "rcv_inv chunk m ps st \<Longrightarrow> \<not> r_window st > MAX_WINDOW"
  using rcv_inv_facts(3) by (auto simp: MAX_WINDOW_def)

text \<open>A data packet carries the piece its number stands for among the next 31.\<close>

definition honest :: "(nat \<Rightarrow> bytes) \<Rightarrow> nat \<Rightarrow> pkt \<Rightarrow> bool" where
  "honest chunk m p \<longleftrightarrow> (\<forall>k. m \<le> k \<and> k \<le> m + 30 \<and> k mod 256 = unat (pkt_get_seqnum p) \<and>
     pkt_get_type p = PTYPE_DATA \<and> pkt_get_tr p = 0 \<and> pkt_get_length p \<noteq> 0 \<longrightarrow> carries chunk k p)"

lemma pkt_get_tr_cases: "pkt_get_tr p = 0 \<or> pkt_get_tr p = 1"
proof -
  have "unat (p_tr p) < 2" using unsigned_less [of "p_tr p", where ?'a = nat] by simp
  then have "unat (p_tr p) = 0 \<or> unat (p_tr p) = 1" by auto
  then show ?thesis by (auto simp: pkt_get_tr_def word_unat_eq_iff unsigned_ucast_eq)
qed

lemma enqueued_inv:
  assumes inv: "rcv_inv chunk m ps st" and p: "pkts (r_heap st) a = Some p"
    and fresh: "nodes (r_heap st) n = None"
    and absent: "is_in_buffer (r_heap st) (Some (r_buffer st)) (pkt_get_seqnum p) = Some False"
    and k: "m \<le> k" "k \<le> m + 30" "carries chunk k p"
  shows "\<exists>h' b' ps'. buffer_enqueue (r_heap st) (r_buffer st) a (Some n) = Some (0, h', b') \<and>
    rcv_inv chunk m ps' (st\<lparr>r_heap := h', r_buffer := b'\<rparr>) \<and> ps' \<noteq> [] \<and>
    (ps' = a # ps \<or> (ps \<noteq> [] \<and> hd ps' = hd ps)) \<and> set ps' = insert a (set ps) \<and> pkts h' = pkts (r_heap st)"
proof -
  have sq: "pseq (r_heap st) a = pkt_get_seqnum p" using p by (simp add: pseq_def)
  have "a \<in> dom (pkts (r_heap st))" using p by auto
  from buf.enq_new [OF rcv_inv_facts(1) [OF inv] fresh this absent [folded sq] rcv_inv_facts(2) [OF inv]]
  obtain h' b' ps' where e: "buffer_enqueue (r_heap st) (r_buffer st) a (Some n) = Some (0, h', b')"
    "holds h' b' ps'" "distinct (map (pseq h') ps')" "set ps' = insert a (set ps)"
    "ps' = a # ps \<or> (ps \<noteq> [] \<and> hd ps' = hd ps)" "pkts h' = pkts (r_heap st)" by blast
  have "\<forall>x \<in> set ps'. \<exists>k q. m \<le> k \<and> k \<le> m + 30 \<and> pkts h' x = Some q \<and> carries chunk k q"
    using rcv_inv_facts(7) [OF inv] k p unfolding e(4,6) by blast
  then have "rcv_inv chunk m ps' (st\<lparr>r_heap := h', r_buffer := b'\<rparr>)"
    using inv e(2,3) unfolding rcv_inv_def by simp
  then show ?thesis using e by (intro exI [of _ h'] exI [of _ b'] exI [of _ ps']) auto
qed

lemma receive_data_ok:
  assumes inv: "rcv_inv chunk m ps st" and wr: "full_writes (t_write inp)"
    and p: "pkts (r_heap st) a = Some p" "honest chunk m p" "pkt_get_type p = PTYPE_DATA"
    and fresh: "\<And>n. t_node inp = Some n \<Longrightarrow> nodes (r_heap st) n = None"
  shows "\<exists>f st' m' ps'. receive_data crc e lenient inp a p st = Some (f, st') \<and> m \<le> m' \<and> rcv_inv chunk m' ps' st'"
proof -
  let ?s = "pkt_get_seqnum p"
  let ?st = "st\<lparr>r_data_received := r_data_received st + 1\<rparr>"
  have inv1: "rcv_inv chunk m ps ?st" using inv by simp
  obtain present where pr: "is_in_buffer (r_heap st) (Some (r_buffer st)) ?s = Some present"
    using holds_mem [OF rcv_inv_facts(1) [OF inv]] by blast
  consider "present" | "\<not> present" "\<not> is_in_window ?st (uint ?s)"
    | "\<not> present" "is_in_window ?st (uint ?s)" "pkt_get_tr p = 1"
    | "\<not> present" "is_in_window ?st (uint ?s)" "pkt_get_tr p = 0" "pkt_get_length p = 0"
    | "\<not> present" "is_in_window ?st (uint ?s)" "pkt_get_tr p = 0" "pkt_get_length p \<noteq> 0"
    using pkt_get_tr_cases by blast
  then show ?thesis
  proof cases
    case 1
    then show ?thesis using pr inv1 by (auto simp: receive_data_def Let_def)
  next
    case 2
    then show ?thesis using pr inv1 by (auto simp: receive_data_def Let_def)
  next
    case 3
    obtain r st' where s: "send_ack crc e inp ?st (uint ?s) PTYPE_NACK (free_slots ?st) = Some (r, st')"
      "st'\<lparr>r_acks := r_acks ?st, r_last_acked := r_last_acked ?st, r_ack_sent := r_ack_sent ?st,
           r_nack_sent := r_nack_sent ?st\<rparr> = ?st"
      using send_ack_cases [of PTYPE_NACK "free_slots ?st"] free_slots_bounds [OF inv1] by blast
    have "receive_data crc e lenient inp a p st = Some (Continue, st')"
      using 3 pr s(1) by (simp add: receive_data_def Let_def)
    then show ?thesis using rcv_inv_acks [OF s(2) inv1] by blast
  next
    case 4
    have "pkt_get_tr p \<noteq> 1" using 4(3) by simp
    then show ?thesis using 4 pr p(3) inv1 by (auto simp: receive_data_def Let_def)
  next
    case 5
    obtain k where k: "m \<le> k" "k \<le> m + 30" "k mod 256 = unat ?s"
      using in_window_index [OF inv1 5(2)] by blast
    then have car: "carries chunk k p" using p(2,3) 5(3,4) unfolding honest_def by blast
    have tr: "pkt_get_tr p \<noteq> 1" using 5(3) by simp
    show ?thesis
    proof (cases "t_node inp")
      case None
      have "receive_data crc e lenient inp a p st = Some (Return, ?st)"
        using 5 pr tr None by (simp add: receive_data_def Let_def buffer_enqueue_def)
      then show ?thesis using inv1 by blast
    next
      case (Some n)
      obtain h' b' ps' where q: "buffer_enqueue (r_heap st) (r_buffer st) a (Some n) = Some (0, h', b')"
        "rcv_inv chunk m ps' (?st\<lparr>r_heap := h', r_buffer := b'\<rparr>)" "ps' \<noteq> []"
        using enqueued_inv [OF inv1, of a p n k] p(1) fresh [OF Some] pr 5(1) k(1,2) car by auto
      let ?st2 = "?st\<lparr>r_heap := h', r_buffer := b', r_time_last_data := t_time inp\<rparr>"
      have inv2: "rcv_inv chunk m ps' ?st2" using q(2) by simp
      from write_loop_ok [OF inv2 wr refl] q(3) obtain c st' m' ps'' where
        w: "write_loop lenient (t_write inp) ?st2 (b_first b') = Some (c, st')" "m \<le> m'" "rcv_inv chunk m' ps'' st'"
        by auto
      have "buffer_print h' b' \<noteq> None" using holds_print [OF rcv_inv_facts(1) [OF inv2]] by simp
      then have "receive_data crc e lenient inp a p st = Some (Go, st')"
        using 5 pr tr Some q(1) w(1) full_window [OF w(3)]
        by (auto simp: receive_data_def Let_def write_buffer_to_file_def)
      then show ?thesis using w(2,3) by blast
    qed
  qed
qed

text \<open>
  What a turn may rely on: the allocator gives fresh memory, \<open>write\<close> is complete, \<open>buf\<close> has
  its 528 bytes, and a datagram that decodes is an honest packet.
\<close>

definition input_ok :: "(bytes \<Rightarrow> u32) \<Rightarrow> endian \<Rightarrow> (nat \<Rightarrow> bytes) \<Rightarrow> nat \<Rightarrow> rcv \<Rightarrow> rturn \<Rightarrow> bool" where
  "input_ok crc e chunk m st inp \<longleftrightarrow> full_writes (t_write inp) \<and> length (t_stack inp) = MAX_PKT_SIZE \<and>
     (\<forall>n. t_node inp = Some n \<longrightarrow> nodes (r_heap st) n = None) \<and>
     (\<exists>a block. t_pkt inp = Some (a, block) \<and> pkts (r_heap st) a = None \<and>
       (\<forall>p. pkt_decode crc e (t_payload_ok inp) (Some (turn_buf inp)) (turn_len inp) block = Some (PKT_OK, p) \<longrightarrow>
          honest chunk m p))"

lemma turn_buf_length: "length (t_stack inp) = MAX_PKT_SIZE \<Longrightarrow> length (turn_buf inp) = MAX_PKT_SIZE"
  by (auto simp: turn_buf_def split: option.splits)

lemma decode_defined:
  assumes "length m = MAX_PKT_SIZE"
  shows "\<exists>st p. pkt_decode crc e ok (Some m) len q = Some (st, p)"
  using assms by (auto simp: decode_unfold split: if_splits prod.splits)

lemma receive_datagram_ok:
  assumes inv: "rcv_inv chunk m ps st" and ok: "input_ok crc e chunk m st inp"
    and a: "t_pkt inp = Some (a, block)"
  shows "\<exists>f st' m' ps'. receive_datagram crc e lenient inp
      (st\<lparr>r_heap := (r_heap st)\<lparr>pkts := (pkts (r_heap st))(a \<mapsto> block)\<rparr>\<rparr>) = Some (f, st') \<and> m \<le> m' \<and> rcv_inv chunk m' ps' st'"
proof -
  have ok': "full_writes (t_write inp)" "length (t_stack inp) = MAX_PKT_SIZE"
    "\<And>n. t_node inp = Some n \<Longrightarrow> nodes (r_heap st) n = None" "pkts (r_heap st) a = None"
    "\<And>p. pkt_decode crc e (t_payload_ok inp) (Some (turn_buf inp)) (turn_len inp) block = Some (PKT_OK, p) \<Longrightarrow> honest chunk m p"
    using ok a by (auto simp: input_ok_def)
  obtain code p where dec: "pkt_decode crc e (t_payload_ok inp) (Some (turn_buf inp)) (turn_len inp) block = Some (code, p)"
    using decode_defined [OF turn_buf_length [OF ok'(2)]] by blast
  have na: "a \<notin> set ps" using holds_facts(2) [OF rcv_inv_facts(1) [OF inv]] ok'(4) by auto
  define st0 where "st0 = st\<lparr>r_start := (if r_reset_time st then t_start inp else r_start st), r_reset_time := False,
    r_n_accumulated := r_n_accumulated st + 1\<rparr>"
  have inv0: "rcv_inv chunk m ps st0" using inv by (simp add: st0_def)
  have heap0: "r_heap st0 = r_heap st" by (simp add: st0_def)
  have upd: "rcv_inv chunk m ps (st0\<lparr>r_heap := (r_heap st0)\<lparr>pkts := (pkts (r_heap st0))(a := v)\<rparr>\<rparr>)" for v
    using na by (intro rcv_inv_pkts [OF inv0]) auto
  show ?thesis
  proof (cases "code \<noteq> PKT_OK \<or> pkt_get_type p \<noteq> PTYPE_DATA")
    case True
    have "receive_datagram crc e lenient inp (st\<lparr>r_heap := (r_heap st)\<lparr>pkts := (pkts (r_heap st))(a \<mapsto> block)\<rparr>\<rparr>) =
      Some (Go, (st0\<lparr>r_heap := (r_heap st0)\<lparr>pkts := (pkts (r_heap st0))(a := None)\<rparr>\<rparr>)
        \<lparr>r_bypass := True, r_packet_ignored := r_packet_ignored st + 1\<rparr>)"
      using True a dec by (simp add: receive_datagram_def Let_def pkt_del_def st0_def)
    then show ?thesis using upd [of None] by (auto simp del: fun_upd_apply)
  next
    case False
    let ?st1 = "st0\<lparr>r_heap := (r_heap st0)\<lparr>pkts := (pkts (r_heap st0))(a \<mapsto> p)\<rparr>\<rparr>"
    have "receive_datagram crc e lenient inp (st\<lparr>r_heap := (r_heap st)\<lparr>pkts := (pkts (r_heap st))(a \<mapsto> block)\<rparr>\<rparr>) =
        receive_data crc e lenient inp a p ?st1"
      using False a dec by (simp add: receive_datagram_def Let_def st0_def)
    moreover have "honest chunk m p" using ok'(5) dec False by simp
    ultimately show ?thesis
      using receive_data_ok [OF upd ok'(1), of "Some p" a p crc e] False ok'(3) heap0 by auto
  qed
qed

lemma rcv_turn_ok:
  assumes inv: "rcv_inv chunk m ps st" and ok: "input_ok crc e chunk m st inp"
  shows "\<exists>f st' m' ps'. rcv_turn crc e lenient inp st = Some (f, st') \<and> m \<le> m' \<and> rcv_inv chunk m' ps' st'"
proof (cases "t_ready inp = -1")
  case True
  then show ?thesis using inv by (auto simp: rcv_turn_def Let_def)
next
  case False
  obtain a block where a: "t_pkt inp = Some (a, block)" "pkts (r_heap st) a = None" using ok by (auto simp: input_ok_def)
  let ?st = "st\<lparr>r_ready := t_ready inp\<rparr>"
  let ?st1 = "?st\<lparr>r_heap := (r_heap ?st)\<lparr>pkts := (pkts (r_heap ?st))(a \<mapsto> block)\<rparr>\<rparr>"
  have inv0: "rcv_inv chunk m ps ?st" "input_ok crc e chunk m ?st inp" using inv ok by (simp_all add: input_ok_def)
  show ?thesis
  proof (cases "t_pollin inp")
    case npoll: False
    have "a \<notin> set ps" using holds_facts(2) [OF rcv_inv_facts(1) [OF inv]] a(2) by auto
    then have "rcv_inv chunk m ps ?st1" by (intro rcv_inv_pkts [OF inv0(1)]) auto
    moreover have "rcv_turn crc e lenient inp st = Some (Go, ?st1)"
      using False npoll a by (simp add: rcv_turn_def Let_def)
    ultimately show ?thesis by blast
  next
    case True
    obtain f st2 m' ps' where d: "receive_datagram crc e lenient inp ?st1 = Some (f, st2)" "m \<le> m'" "rcv_inv chunk m' ps' st2"
      using receive_datagram_ok [OF inv0 a(1)] by blast
    show ?thesis
    proof (cases "f = Go \<and> ack_due inp st2")
      case due: False
      then have "rcv_turn crc e lenient inp st = Some (f, st2)"
        using False True a d(1) by (auto simp: rcv_turn_def Let_def)
      then show ?thesis using d by blast
    next
      case due: True
      obtain r st3 where s: "send_ack crc e inp st2 ((r_last_writed st2 + 1) mod MAX_SEQNUM) PTYPE_ACK (free_slots st2) = Some (r, st3)"
        "st3\<lparr>r_acks := r_acks st2, r_last_acked := r_last_acked st2, r_ack_sent := r_ack_sent st2,
             r_nack_sent := r_nack_sent st2\<rparr> = st2"
        using send_ack_cases [of PTYPE_ACK "free_slots st2"] free_slots_bounds [OF d(3)] by blast
      have "rcv_turn crc e lenient inp st =
          Some (Go, st3\<lparr>r_n_accumulated := 0, r_reset_time := True, r_bypass := False\<rparr>)"
        using False True a d(1) due s(1) by (auto simp: rcv_turn_def Let_def)
      moreover have "rcv_inv chunk m' ps' (st3\<lparr>r_n_accumulated := 0, r_reset_time := True, r_bypass := False\<rparr>)"
        using rcv_inv_acks [OF s(2) d(3)] by simp
      ultimately show ?thesis using d(2) by blast
    qed
  qed
qed

text \<open>The runs of the loop, from its start, on inputs that can be relied on.\<close>

inductive rcv_run :: "(bytes \<Rightarrow> u32) \<Rightarrow> endian \<Rightarrow> (nat \<Rightarrow> bytes) \<Rightarrow> rcv \<Rightarrow> bool" for crc e chunk where
  start: "nodes h = Map.empty \<Longrightarrow> rcv_run crc e chunk (rcv_init h)"
| turn: "rcv_run crc e chunk st \<Longrightarrow> rcv_running st \<Longrightarrow> input_ok crc e chunk (nat (r_nb_writed st)) st inp \<Longrightarrow>
    rcv_turn crc e lenient inp st = Some (f, st') \<Longrightarrow> rcv_run crc e chunk st'"

lemma rcv_init_inv: "nodes h = Map.empty \<Longrightarrow> rcv_inv chunk 0 [] (rcv_init h)"
  by (simp add: rcv_inv_def rcv_init_def MAX_WINDOW_def holds_empty)

lemma rcv_run_inv: "rcv_run crc e chunk st \<Longrightarrow> \<exists>m ps. rcv_inv chunk m ps st"
proof (induction rule: rcv_run.induct)
  case (start h)
  then show ?case using rcv_init_inv by blast
next
  case (turn st inp f st')
  then obtain m ps where inv: "rcv_inv chunk m ps st" by blast
  moreover have "nat (r_nb_writed st) = m" using rcv_inv_facts(4) [OF inv] by simp
  ultimately show ?case using rcv_turn_ok [OF inv, of crc e inp] turn.hyps by auto
qed

section \<open>A receiver that is stuck\<close>

text \<open>
  The packet to write next is in the buffer, but not in front: the state the misplacement of
  \<open>Seq_Order\<close> leads to.
\<close>

definition rcv_stuck :: "rcv \<Rightarrow> bool" where
  "rcv_stuck st \<longleftrightarrow> (\<exists>ps. holds (r_heap st) (r_buffer st) ps \<and> distinct (map (pseq (r_heap st)) ps) \<and> ps \<noteq> [] \<and>
     uint (pseq (r_heap st) (hd ps)) \<noteq> (r_last_writed st + 1) mod MAX_SEQNUM \<and>
     (\<exists>p \<in> set ps. uint (pseq (r_heap st) p) = (r_last_writed st + 1) mod MAX_SEQNUM))"

lemma send_ack_frame:
  assumes "send_ack crc e inp st seqnum type wind = Some (r, st')"
  shows "st'\<lparr>r_acks := r_acks st, r_last_acked := r_last_acked st, r_ack_sent := r_ack_sent st, r_nack_sent := r_nack_sent st\<rparr> = st"
  using assms
  by (auto simp: send_ack_def Let_def bind_eq_Some_conv split: option.splits if_splits prod.splits)

lemma rcv_stuck_cong:
  assumes "r_heap st' = r_heap st" "r_buffer st' = r_buffer st" "r_last_writed st' = r_last_writed st"
  shows "rcv_stuck st' = rcv_stuck st"
  by (simp add: rcv_stuck_def assms)

lemma rcv_stuck_upd [simp]:
  "rcv_stuck (st\<lparr>r_bypass := b\<rparr>) = rcv_stuck st"
  "rcv_stuck (st\<lparr>r_data_received := i\<rparr>) = rcv_stuck st"
  "rcv_stuck (st\<lparr>r_data_truncated_received := i\<rparr>) = rcv_stuck st"
  "rcv_stuck (st\<lparr>r_lastack_to_send := i\<rparr>) = rcv_stuck st"
  "rcv_stuck (st\<lparr>r_time_last_data := t\<rparr>) = rcv_stuck st"
  "rcv_stuck (st\<lparr>r_packet_ignored := i\<rparr>) = rcv_stuck st"
  "rcv_stuck (st\<lparr>r_ready := i\<rparr>) = rcv_stuck st"
  "rcv_stuck (st\<lparr>r_start := x\<rparr>) = rcv_stuck st"
  "rcv_stuck (st\<lparr>r_reset_time := b\<rparr>) = rcv_stuck st"
  "rcv_stuck (st\<lparr>r_n_accumulated := i\<rparr>) = rcv_stuck st"
  "rcv_stuck (st\<lparr>r_window := i\<rparr>) = rcv_stuck st"
  by (simp_all add: rcv_stuck_def)

lemma send_ack_stuck:
  assumes "send_ack crc e inp st seqnum type wind = Some (r, st')"
  shows "rcv_stuck st' = rcv_stuck st \<and> r_out st' = r_out st"
proof -
  note fr = send_ack_frame [OF assms]
  have "r_heap st' = r_heap st" "r_buffer st' = r_buffer st" "r_last_writed st' = r_last_writed st" "r_out st' = r_out st"
    using arg_cong [OF fr, of r_heap] arg_cong [OF fr, of r_buffer] arg_cong [OF fr, of r_last_writed] arg_cong [OF fr, of r_out]
    by simp_all
  then show ?thesis using rcv_stuck_cong by blast
qed

lemma rcv_stuck_pkts:
  assumes "rcv_stuck st" "\<And>p. pkts (r_heap st) p \<noteq> None \<Longrightarrow> M p = pkts (r_heap st) p"
  shows "rcv_stuck (st\<lparr>r_heap := (r_heap st)\<lparr>pkts := M\<rparr>\<rparr>)"
proof -
  obtain ps where ps: "holds (r_heap st) (r_buffer st) ps" "distinct (map (pseq (r_heap st)) ps)" "ps \<noteq> []"
     "uint (pseq (r_heap st) (hd ps)) \<noteq> (r_last_writed st + 1) mod MAX_SEQNUM"
     "\<exists>p \<in> set ps. uint (pseq (r_heap st) p) = (r_last_writed st + 1) mod MAX_SEQNUM"
    using assms(1) unfolding rcv_stuck_def by blast
  have same: "M p = pkts (r_heap st) p" if "p \<in> set ps" for p
    using holds_facts(2) [OF ps(1)] that assms(2) by auto
  then have "set ps \<subseteq> dom M" using holds_facts(2) [OF ps(1)] by (auto simp: subset_iff domIff)
  then have "holds ((r_heap st)\<lparr>pkts := M\<rparr>) (r_buffer st) ps" by (rule holds_pkts [OF ps(1)])
  moreover have eq: "pseq ((r_heap st)\<lparr>pkts := M\<rparr>) p = pseq (r_heap st) p" if "p \<in> set ps" for p
    using same [OF that] by (simp add: pseq_def)
  moreover have "map (pseq ((r_heap st)\<lparr>pkts := M\<rparr>)) ps = map (pseq (r_heap st)) ps" using eq by simp
  ultimately show ?thesis using ps(2-5) hd_in_set [OF ps(3)] unfolding rcv_stuck_def
    by (intro exI [of _ ps]) (simp del: map_eq_conv)
qed

lemma write_loop_stuck:
  assumes "rcv_stuck st" "write_buffer_to_file dang wr st = Some (c, st')"
  shows "st' = st"
proof -
  obtain p ps where ps: "holds (r_heap st) (r_buffer st) (p # ps)"
     "uint (pseq (r_heap st) p) \<noteq> (r_last_writed st + 1) mod MAX_SEQNUM"
    using assms(1) unfolding rcv_stuck_def by (metis list.sel(1) neq_Nil_conv)
  obtain a n where a: "b_first (r_buffer st) = Some a" "nodes (r_heap st) a = Some n" "n_pkt n = p"
    using drain_first [OF ps(1)] by blast
  obtain q where "pkts (r_heap st) p = Some q" using holds_facts(2) [OF ps(1)] by auto
  then have "write_loop dang wr st (b_first (r_buffer st)) = Some (1, st)"
    using a ps(2) by (subst write_loop.simps) (simp add: write_step_def read_node_def pseq_def)
  then show ?thesis using assms(2) by (auto simp: write_buffer_to_file_def bind_eq_Some_conv)
qed

lemma enqueue_stuck:
  assumes "rcv_stuck st" "pkts (r_heap st) a = Some p"
    "is_in_buffer (r_heap st) (Some (r_buffer st)) (pkt_get_seqnum p) = Some False" "nodes (r_heap st) n = None"
    "buffer_enqueue (r_heap st) (r_buffer st) a (Some n) = Some (err, h, b)"
  shows "rcv_stuck (st\<lparr>r_heap := h, r_buffer := b\<rparr>)"
proof -
  obtain ps where ps: "holds (r_heap st) (r_buffer st) ps" "distinct (map (pseq (r_heap st)) ps)" "ps \<noteq> []"
     "uint (pseq (r_heap st) (hd ps)) \<noteq> (r_last_writed st + 1) mod MAX_SEQNUM"
     "\<exists>p \<in> set ps. uint (pseq (r_heap st) p) = (r_last_writed st + 1) mod MAX_SEQNUM"
    using assms(1) unfolding rcv_stuck_def by blast
  have sq: "pseq (r_heap st) a = pkt_get_seqnum p" using assms(2) by (simp add: pseq_def)
  have "a \<in> dom (pkts (r_heap st))" using assms(2) by auto
  from buf.enq_new [OF ps(1) assms(4) this assms(3) [folded sq] ps(2)] assms(5)
  obtain ps' where e: "holds h b ps'" "distinct (map (pseq h) ps')" "set ps' = insert a (set ps)"
    "ps' = a # ps \<or> (ps \<noteq> [] \<and> hd ps' = hd ps)" "pkts h = pkts (r_heap st)" by auto
  have pe: "pseq h = pseq (r_heap st)" using e(5) by (auto simp: pseq_def)
  have "pkt_get_seqnum p \<notin> set (map (pseq (r_heap st)) ps)"
    using assms(3) holds_mem [OF ps(1)] by auto
  then have "uint (pseq (r_heap st) a) \<noteq> (r_last_writed st + 1) mod MAX_SEQNUM"
    using ps(5) sq by (metis image_eqI list.set_map word_uint_eq_iff)
  then have "uint (pseq h (hd ps')) \<noteq> (r_last_writed st + 1) mod MAX_SEQNUM"
    using e(4) ps(4) pe by auto
  moreover have "\<exists>p \<in> set ps'. uint (pseq h p) = (r_last_writed st + 1) mod MAX_SEQNUM"
    using ps(5) e(3) pe by auto
  moreover have "ps' \<noteq> []" using e(3) by auto
  ultimately show ?thesis using e(1,2) unfolding rcv_stuck_def by (intro exI [of _ ps']) simp
qed

lemma receive_data_stuck:
  assumes st: "rcv_stuck st" "pkts (r_heap st) a = Some p"
    "\<And>n. t_node inp = Some n \<Longrightarrow> nodes (r_heap st) n = None"
    and run: "receive_data crc e dang inp a p st = Some (f, st')"
  shows "rcv_stuck st' \<and> r_out st' = r_out st"
proof -
  let ?st = "st\<lparr>r_data_received := r_data_received st + 1\<rparr>"
  have s1: "rcv_stuck ?st" using st(1) by simp
  obtain present where pr: "is_in_buffer (r_heap st) (Some (r_buffer st)) (pkt_get_seqnum p) = Some present"
    using run by (auto simp: receive_data_def bind_eq_Some_conv Let_def)
  show ?thesis
  proof (cases "\<not> present \<and> is_in_window ?st (uint (pkt_get_seqnum p)) \<and> pkt_get_tr p \<noteq> 1 \<and>
      \<not> (pkt_get_type p = PTYPE_DATA \<and> pkt_get_length p = 0)")
    case False
    then show ?thesis
      using run pr st(1) by (auto simp: receive_data_def Let_def bind_eq_Some_conv dest: send_ack_stuck split: if_splits)
  next
    case True
    obtain err h b where q: "buffer_enqueue (r_heap st) (r_buffer st) a (t_node inp) = Some (err, h, b)"
      using run pr True by (auto simp: receive_data_def Let_def bind_eq_Some_conv split: if_splits)
    show ?thesis
    proof (cases "t_node inp")
      case None
      then show ?thesis using run pr True s1
        by (auto simp: receive_data_def Let_def buffer_enqueue_def)
    next
      case (Some n)
      let ?st2 = "?st\<lparr>r_heap := h, r_buffer := b\<rparr>"
      have s2: "rcv_stuck ?st2"
        using enqueue_stuck [OF s1, of a p n err h b] st(2) st(3) [OF Some] pr True q Some by simp
      show ?thesis
      proof (cases "err = -1")
        case True
        then show ?thesis using run pr \<open>\<not> present \<and> _\<close> q s2 by (auto simp: receive_data_def Let_def)
      next
        case False
        let ?st3 = "?st2\<lparr>r_time_last_data := t_time inp\<rparr>"
        have s3: "rcv_stuck ?st3" using s2 by simp
        obtain c st4 where w: "write_buffer_to_file dang (t_write inp) ?st3 = Some (c, st4)"
          "st' = (if r_window st4 > MAX_WINDOW then st4\<lparr>r_window := MAX_WINDOW\<rparr> else st4)"
          using run pr \<open>\<not> present \<and> _\<close> q False by (auto simp: receive_data_def Let_def bind_eq_Some_conv)
        then have "st4 = ?st3" using write_loop_stuck [OF s3] by blast
        then show ?thesis using w(2) s3 by simp
      qed
    qed
  qed
qed

text \<open>Fresh memory, as in \<open>input_ok\<close>, but any bytes from the network and any result of \<open>write\<close>.\<close>

definition fresh_memory :: "rcv \<Rightarrow> rturn \<Rightarrow> bool" where
  "fresh_memory st inp \<longleftrightarrow> (\<forall>n. t_node inp = Some n \<longrightarrow> nodes (r_heap st) n = None) \<and>
     (\<forall>a block. t_pkt inp = Some (a, block) \<longrightarrow> pkts (r_heap st) a = None)"

lemma receive_datagram_stuck:
  assumes "rcv_stuck st" "fresh_memory st inp"
    "receive_datagram crc e dang inp (case t_pkt inp of None \<Rightarrow> st
       | Some (a, block) \<Rightarrow> st\<lparr>r_heap := (r_heap st)\<lparr>pkts := (pkts (r_heap st))(a \<mapsto> block)\<rparr>\<rparr>) = Some (f, st')"
  shows "rcv_stuck st' \<and> r_out st' = r_out st"
proof (cases "t_pkt inp")
  case None
  then show ?thesis using assms by (auto simp: receive_datagram_def Let_def split: if_splits)
next
  case (Some ab)
  obtain a block where a: "t_pkt inp = Some (a, block)" using Some by (cases ab) auto
  have na: "pkts (r_heap st) a = None" using assms(2) a by (auto simp: fresh_memory_def)
  define st0 where "st0 = st\<lparr>r_start := (if r_reset_time st then t_start inp else r_start st), r_reset_time := False,
    r_n_accumulated := r_n_accumulated st + 1\<rparr>"
  have s0: "rcv_stuck st0" "r_heap st0 = r_heap st" "r_out st0 = r_out st" using assms(1) by (simp_all add: st0_def)
  have upd: "rcv_stuck (st0\<lparr>r_heap := (r_heap st0)\<lparr>pkts := (pkts (r_heap st0))(a := v)\<rparr>\<rparr>)" for v
    using na s0 by (intro rcv_stuck_pkts) auto
  obtain code p where dec: "pkt_decode crc e (t_payload_ok inp) (Some (turn_buf inp)) (turn_len inp) block = Some (code, p)"
    using assms(3) a by (auto simp: receive_datagram_def Let_def bind_eq_Some_conv)
  show ?thesis
  proof (cases "code \<noteq> PKT_OK \<or> pkt_get_type p \<noteq> PTYPE_DATA")
    case True
    then have "st' = (st0\<lparr>r_heap := (r_heap st0)\<lparr>pkts := (pkts (r_heap st0))(a := None)\<rparr>\<rparr>)
        \<lparr>r_bypass := True, r_packet_ignored := r_packet_ignored st + 1\<rparr>"
      using assms(3) a dec by (auto simp: receive_datagram_def Let_def pkt_del_def st0_def)
    then show ?thesis using upd [of None] s0 by (simp del: fun_upd_apply)
  next
    case False
    let ?st1 = "st0\<lparr>r_heap := (r_heap st0)\<lparr>pkts := (pkts (r_heap st0))(a \<mapsto> p)\<rparr>\<rparr>"
    have run: "receive_data crc e dang inp a p ?st1 = Some (f, st')"
      using assms(3) a dec False by (cases "r_reset_time st") (simp_all add: receive_datagram_def Let_def st0_def)
    show ?thesis
      using receive_data_stuck [OF upd [of "Some p"] _ _ run] assms(2) s0 by (auto simp: fresh_memory_def)
  qed
qed

lemma rcv_turn_stuck:
  assumes "rcv_stuck st" "fresh_memory st inp" "rcv_turn crc e dang inp st = Some (f, st')"
  shows "rcv_stuck st' \<and> r_out st' = r_out st"
proof (cases "t_ready inp = -1")
  case True
  then show ?thesis using assms by (auto simp: rcv_turn_def Let_def)
next
  case False
  let ?st = "st\<lparr>r_ready := t_ready inp\<rparr>"
  let ?st1 = "case t_pkt inp of None \<Rightarrow> ?st
       | Some (a, block) \<Rightarrow> ?st\<lparr>r_heap := (r_heap ?st)\<lparr>pkts := (pkts (r_heap ?st))(a \<mapsto> block)\<rparr>\<rparr>"
  have s: "rcv_stuck ?st" "fresh_memory ?st inp" using assms(1,2) by (simp_all add: fresh_memory_def)
  show ?thesis
  proof (cases "t_pollin inp")
    case npoll: False
    then have "st' = ?st1" using assms(3) False by (auto simp: rcv_turn_def Let_def)
    moreover have "rcv_stuck ?st1"
    proof (cases "t_pkt inp")
      case (Some ab)
      obtain a block where ab: "ab = (a, block)" by (cases ab)
      have "rcv_stuck (?st\<lparr>r_heap := (r_heap ?st)\<lparr>pkts := (pkts (r_heap ?st))(a \<mapsto> block)\<rparr>\<rparr>)"
        using s(2) Some ab by (intro rcv_stuck_pkts [OF s(1)]) (auto simp: fresh_memory_def)
      then show ?thesis using Some ab by simp
    qed (use s in simp)
    ultimately show ?thesis by (auto split: option.splits)
  next
    case True
    obtain f2 st2 where d: "receive_datagram crc e dang inp ?st1 = Some (f2, st2)"
      using assms(3) False True by (auto simp: rcv_turn_def Let_def bind_eq_Some_conv)
    have s2: "rcv_stuck st2" "r_out st2 = r_out st" using receive_datagram_stuck [OF s d] by simp_all
    show ?thesis
    proof (cases "f2 = Go \<and> ack_due inp st2")
      case due: False
      then have "st' = st2" using assms(3) False True d by (auto simp: rcv_turn_def Let_def)
      then show ?thesis using s2 by simp
    next
      case due: True
      then obtain r st3 where "send_ack crc e inp st2 ((r_last_writed st2 + 1) mod MAX_SEQNUM) PTYPE_ACK (free_slots st2) = Some (r, st3)"
        "st' = st3\<lparr>r_n_accumulated := 0, r_reset_time := True, r_bypass := False\<rparr>"
        using assms(3) False True d by (auto simp: rcv_turn_def Let_def bind_eq_Some_conv)
      then show ?thesis using send_ack_stuck s2 by fastforce
    qed
  qed
qed

section \<open>Properties\<close>

text \<open>A turn in which the first piece of a file arrives, and a waiting receiver.\<close>

definition demo_data :: pkt where
  "demo_data = demo_pkt\<lparr>p_seqnum := 0\<rparr>"

definition demo_turn :: rturn where
  "demo_turn = \<lparr>t_ready = 1, t_pollin = True, t_read = Some (data_wire crc32 Little demo_data [83, 97, 108]),
     t_stack = replicate 528 0, t_pkt = Some (1, zero_pkt), t_payload_ok = True, t_node = Some 1,
     t_start = (0, 0), t_end = (0, 7), t_time = 99, t_write = (\<lambda>_. Some 512), t_ack = Some zero_pkt,
     t_ack_payload = True, t_send = True\<rparr>"

definition empty_heap :: heap where
  "empty_heap = \<lparr>nodes = Map.empty, stale = Map.empty, pkts = Map.empty\<rparr>"

lemma demo_data_sendable: "sendable crc32 demo_data [83, 97, 108]"
  using demo_sendable by (simp add: sendable_def demo_data_def)

lemma demo_turn_ok: "input_ok crc32 Little (\<lambda>_. [83, 97, 108]) 0 (rcv_init empty_heap) demo_turn"
proof -
  let ?w = "data_wire crc32 Little demo_data [83, 97, 108]"
  have buf: "turn_buf demo_turn = ?w @ replicate 509 0" "turn_len demo_turn = 16 + length [83 :: byte, 97, 108]"
    by (simp_all add: turn_buf_def turn_len_def demo_turn_def)
  have "honest (\<lambda>_. [83, 97, 108]) 0 (demo_data\<lparr>p_crc1 := c1, p_crc2 := c2\<rparr>)" for c1 c2
    by (auto simp: honest_def carries_def demo_data_def demo_pkt_def)
  then have "\<forall>p. pkt_decode crc32 Little True (Some (turn_buf demo_turn)) (turn_len demo_turn) zero_pkt = Some (PKT_OK, p) \<longrightarrow>
      honest (\<lambda>_. [83, 97, 108]) 0 p"
    unfolding buf decode_data_wire [OF demo_data_sendable] by simp
  then show ?thesis
    by (simp add: input_ok_def demo_turn_def full_writes_def rcv_init_def empty_heap_def)
qed

lemma demo_run: "rcv_run crc32 Little chunk (rcv_init empty_heap)"
  by (rule rcv_run.start) (simp add: empty_heap_def)

text \<open>C8. The file is written in order and without a gap, a repetition or a foreign byte: in
  every run of the receiver in which decoded data packets are those of the sender's window
  and \<open>write\<close> writes what it is given or fails, whatever is lost, repeated, reordered,
  damaged or refused, the output is the concatenation of the first \<open>nb_writed\<close> payloads.\<close>

theorem receiver_writes_prefix:
  assumes "rcv_run crc e chunk st"
  shows "\<exists>m. r_nb_writed st = int m \<and> r_out st = concat (map chunk [0..<m])"
  using rcv_run_inv [OF assms] rcv_inv_facts(4,5) by blast

theorem receiver_writes_prefix_witness:
  "\<exists>f st' m. rcv_turn crc32 Little lenient demo_turn (rcv_init empty_heap) = Some (f, st') \<and>
    r_nb_writed st' = int m \<and> r_out st' = concat (map (\<lambda>_. [83, 97, 108]) [0..<m])"
proof -
  obtain f st' where t: "rcv_turn crc32 Little lenient demo_turn (rcv_init empty_heap) = Some (f, st')"
    using rcv_turn_ok [OF rcv_init_inv demo_turn_ok] by (auto simp: empty_heap_def)
  have "rcv_running (rcv_init empty_heap)" by (simp add: rcv_running_def rcv_init_def)
  then have "rcv_run crc32 Little (\<lambda>_. [83, 97, 108]) st'"
    using rcv_run.turn [OF demo_run _ _ t] demo_turn_ok by (simp add: rcv_init_def)
  from receiver_writes_prefix [OF this] t show ?thesis by blast
qed



lemma succ_mod_256:
  fixes x :: int
  assumes "0 \<le> x" "x < 256"
  shows "x \<noteq> (x + 1) mod 256"
proof (cases "x = 255")
  case False
  then have "(x + 1) mod 256 = x + 1" using assms by (intro mod_pos_pos_trivial) simp_all
  then show ?thesis by simp
qed simp

text \<open>C19. Writing the last waiting packet makes \<open>write_buffer_to_file\<close> read a freed node: the
  node is its own successor, so \<open>current\<close> still points to it after the removal. Under the
  strict reading the call is undefined, under the lenient one it writes the packet.\<close>

theorem drain_reads_freed_node:
  assumes "holds (r_heap st) (r_buffer st) [p]" "pkts (r_heap st) p = Some q"
    "uint (pkt_get_seqnum q) = (r_last_writed st + 1) mod MAX_SEQNUM"
    "write_arg q = Some (Some bs)" "wr (r_writes st) = Some k"
  shows "write_buffer_to_file strict wr st = None \<and>
    (\<exists>st'. write_buffer_to_file lenient wr st = Some (1, st') \<and> r_out st' = r_out st @ take k bs)"
proof -
  obtain a n h' b' where d: "b_first (r_buffer st) = Some a" "nodes (r_heap st) a = Some n" "n_pkt n = p"
    "buffer_remove (r_heap st) (r_buffer st) (pseq (r_heap st) p) = Some (Some p, h', b')"
    "pkts h' = pkts (r_heap st)" "n_next n = Some a" "nodes h' a = None" "stale h' a = Some n"
    using drain_first [OF assms(1)] by auto
  have pq: "pseq (r_heap st) p = pkt_get_seqnum q" using assms(2) by (simp add: pseq_def)
  let ?st = "st\<lparr>r_writes := r_writes st + 1, r_out := r_out st @ take k bs, r_last_writed := uint (pkt_get_seqnum q),
        r_heap := h', r_buffer := b', r_nb_writed := r_nb_writed st + 1\<rparr>"
  have step: "write_loop dang wr st (Some a) = write_loop dang wr ?st (Some a)" for dang
    using d pq assms(2-5) by (subst write_loop.simps) (simp add: write_step_def read_node_def Let_def)
  have "write_loop strict wr ?st (Some a) = None"
    using d(7) by (subst write_loop.simps) (simp add: write_step_def read_node_def strict_def)
  moreover have "uint (pkt_get_seqnum q) \<noteq> (uint (pkt_get_seqnum q) + 1) mod 256"
  proof -
    have "0 \<le> uint (pkt_get_seqnum q)" "uint (pkt_get_seqnum q) < 256"
      using unsigned_less [of "pkt_get_seqnum q", where ?'a = int] by simp_all
    then show ?thesis by (rule succ_mod_256)
  qed
  then have "write_loop lenient wr ?st (Some a) = Some (1, ?st)"
    using d(3,5,7,8) assms(2) by (subst write_loop.simps) (simp add: write_step_def read_node_def lenient_def MAX_SEQNUM_def)
  moreover have "buffer_print (r_heap st) (r_buffer st) \<noteq> None" using holds_print [OF assms(1)] by simp
  ultimately show ?thesis using d(1) step by (auto simp: write_buffer_to_file_def)
qed

text \<open>One packet, numbered 0, in the buffer of a receiver that waits for it.\<close>

definition one_waiting :: rcv where
  "one_waiting = (rcv_init \<lparr>nodes = [5 \<mapsto> \<lparr>n_next = Some 5, n_prev = Some 5, n_pkt = 9\<rparr>], stale = Map.empty,
     pkts = [9 \<mapsto> demo_data]\<rparr>)\<lparr>r_buffer := \<lparr>b_first = Some 5, b_last = Some 5, b_size = 1\<rparr>\<rparr>"

theorem drain_reads_freed_node_witness:
  "write_buffer_to_file strict (\<lambda>_. Some 512) one_waiting = None \<and>
   (\<exists>st'. write_buffer_to_file lenient (\<lambda>_. Some 512) one_waiting = Some (1, st') \<and> r_out st' = [83, 97, 108])"
proof -
  have "holds (r_heap one_waiting) (r_buffer one_waiting) [9]"
    unfolding holds_def by (intro exI [of _ "[5]"])
      (auto simp: rep_def ring_def pk_def one_waiting_def rcv_init_def)
  moreover have "pkts (r_heap one_waiting) 9 = Some demo_data" by (simp add: one_waiting_def rcv_init_def)
  moreover have "uint (pkt_get_seqnum demo_data) = (r_last_writed one_waiting + 1) mod MAX_SEQNUM"
    by (simp add: one_waiting_def rcv_init_def demo_data_def pkt_get_seqnum_def)
  moreover have "write_arg demo_data = Some (Some [83, 97, 108])"
    by (simp add: write_arg_def demo_data_def demo_pkt_def pkt_get_payload_def pkt_get_length_def read_bytes_def)
  ultimately show ?thesis
    using drain_reads_freed_node [of one_waiting 9 demo_data "[83, 97, 108]" "\<lambda>_. Some 512" 512]
    by (simp add: one_waiting_def rcv_init_def)
qed

text \<open>C20. A receiver with the next packet in its buffer, but not in front, is stuck for ever:
  whatever arrives, at any turn, nothing more is written, since the packet it needs is
  taken for a duplicate when it comes again. (\<open>buffer_enqueue\<close> can bring it there, when
  numbers wrap around.)\<close>

theorem stuck_forever:
  assumes "rcv_stuck st" "fresh_memory st inp" "rcv_turn crc e dang inp st = Some (f, st')"
  shows "rcv_stuck st' \<and> r_out st' = r_out st"
  by (rule rcv_turn_stuck [OF assms])

text \<open>249 was written, 250 is needed; 2, 250 and 3 are in the buffer, in this order.\<close>

definition three_nodes :: heap where
  "three_nodes = \<lparr>nodes = [1 \<mapsto> \<lparr>n_next = Some 2, n_prev = Some 3, n_pkt = 11\<rparr>,
      2 \<mapsto> \<lparr>n_next = Some 3, n_prev = Some 1, n_pkt = 12\<rparr>, 3 \<mapsto> \<lparr>n_next = Some 1, n_prev = Some 2, n_pkt = 13\<rparr>],
     stale = Map.empty,
     pkts = [11 \<mapsto> demo_data\<lparr>p_seqnum := 2\<rparr>, 12 \<mapsto> demo_data\<lparr>p_seqnum := 250\<rparr>, 13 \<mapsto> demo_data\<lparr>p_seqnum := 3\<rparr>]\<rparr>"

definition stuck_rcv :: rcv where
  "stuck_rcv = (rcv_init three_nodes)\<lparr>r_buffer := \<lparr>b_first = Some 1, b_last = Some 3, b_size = 3\<rparr>,
     r_last_writed := 249, r_nb_writed := 250\<rparr>"

lemma stuck_rcv_stuck: "rcv_stuck stuck_rcv"
proof -
  have "holds (r_heap stuck_rcv) (r_buffer stuck_rcv) [11, 12, 13]"
    unfolding holds_def by (intro exI [of _ "[1, 2, 3]"])
      (auto simp: rep_def ring_def pk_def stuck_rcv_def three_nodes_def rcv_init_def)
  then show ?thesis unfolding rcv_stuck_def
    by (intro exI [of _ "[11, 12, 13]"])
      (simp add: pseq_def stuck_rcv_def three_nodes_def rcv_init_def pkt_get_seqnum_def MAX_SEQNUM_def)
qed

theorem stuck_forever_witness:
  "\<exists>st'. rcv_turn crc32 Little strict (demo_turn\<lparr>t_pollin := False, t_pkt := None, t_node := None\<rparr>) stuck_rcv = Some (Go, st') \<and>
     rcv_stuck st'"
proof -
  let ?i = "demo_turn\<lparr>t_pollin := False, t_pkt := None, t_node := None\<rparr>"
  have run: "rcv_turn crc32 Little strict ?i stuck_rcv = Some (Go, stuck_rcv\<lparr>r_ready := 1\<rparr>)"
    by (simp add: rcv_turn_def demo_turn_def)
  have "fresh_memory stuck_rcv ?i"
    by (simp add: fresh_memory_def demo_turn_def stuck_rcv_def three_nodes_def rcv_init_def)
  from stuck_forever [OF stuck_rcv_stuck this run] run show ?thesis by blast
qed

text \<open>Which numbers the receiver accepts: those at a distance of 1 to 30 from the last one
  written, and 31 only when the numbers wrap around in between. The two branches of
  \<open>is_in_window\<close> differ by one.\<close>

theorem receive_window_iff:
  assumes "r_window st = 31" "0 \<le> r_last_writed st" "r_last_writed st < 256" "0 \<le> s" "s < 256"
  shows "is_in_window st s \<longleftrightarrow>
    (let d = (s - r_last_writed st) mod 256 in 1 \<le> d \<and> (d \<le> 30 \<or> (d = 31 \<and> s < r_last_writed st)))"
proof (cases "s < r_last_writed st")
  case True
  then have "(s - r_last_writed st + 256) mod 256 = s + 256 - r_last_writed st"
    using assms by (subst mod_pos_pos_trivial) simp_all
  then have "(s - r_last_writed st) mod 256 = s + 256 - r_last_writed st"
    by (simp only: mod_add_self2)
  then show ?thesis using True assms by (auto simp: is_in_window_def MAX_SEQNUM_def)
next
  case False
  then have "(s - r_last_writed st) mod 256 = s - r_last_writed st"
    using assms by (simp add: mod_pos_pos_trivial)
  then show ?thesis using False assms by (auto simp: is_in_window_def)
qed

theorem receive_window_iff_witness:
  "is_in_window ((rcv_init empty_heap)\<lparr>r_last_writed := 240\<rparr>) 15 \<and>
   \<not> is_in_window ((rcv_init empty_heap)\<lparr>r_last_writed := 100\<rparr>) 131"
  using receive_window_iff [of "(rcv_init empty_heap)\<lparr>r_last_writed := 240\<rparr>" 15]
    receive_window_iff [of "(rcv_init empty_heap)\<lparr>r_last_writed := 100\<rparr>" 131]
  by (simp add: rcv_init_def MAX_WINDOW_def)

text \<open>An acknowledgement that \<open>send_ack\<close> sends decodes, at the other end, to its type, the
  sequence number modulo 256, the free slots of the buffer and the time of the last data;
  an ACK also updates \<open>last_acked\<close>.\<close>

theorem send_ack_decodes:
  assumes "type = PTYPE_ACK \<or> type = PTYPE_NACK" "0 \<le> wind" "wind \<le> 31" "t_ack inp = Some block" "t_send inp"
  shows "\<exists>st' dg p. send_ack crc e inp st seqnum type wind = Some (0, st') \<and> r_acks st' = r_acks st @ [dg] \<and>
    length dg = 10 \<and> pkt_decode crc e ok (Some (dg @ junk)) 10 q = Some (PKT_OK, p) \<and> pkt_get_type p = type \<and>
    pkt_get_seqnum p = word_of_int seqnum \<and> uint (pkt_get_window p) = wind \<and>
    pkt_get_timestamp p = r_time_last_data st \<and>
    (type = PTYPE_ACK \<longrightarrow> r_last_acked st' = seqnum)"
proof -
  let ?a = "ack_pkt block type seqnum wind (r_time_last_data st) (t_ack_payload inp)"
  have t: "p_type ?a = ucast type" "p_type ?a \<noteq> 0" "p_type ?a \<noteq> 1" "p_tr ?a = 0"
    using assms(1) by (auto simp: ack_pkt_def)
  let ?p = "zero_pkt\<lparr>p_type := p_type ?a, p_tr := p_tr ?a, p_window := p_window ?a, p_seqnum := p_seqnum ?a,
    p_timestamp := p_timestamp ?a, p_crc1 := crc (ack_header e ?a)\<rparr>"
  have "pkt_decode crc e ok (Some (ack_wire crc e ?a @ junk)) 10 q = Some (PKT_OK, ?p)"
    using pkt_decode_ack [of 10 ?a "rev (le32 (crc (ack_header e ?a)))" crc e ok junk q] t
    by (simp add: ack_wire_def Let_def)
  moreover have "uint (pkt_get_window ?p) = wind"
    using assms(2,3) by (simp add: pkt_get_window_def ack_pkt_def unsigned_ucast_eq uint_word_of_int take_bit_eq_mod)
  ultimately show ?thesis
    using send_ack_sends [OF assms, of crc e st seqnum] t assms(1)
    by (auto simp: Let_def pkt_get_type_def pkt_get_seqnum_def pkt_get_timestamp_def ack_pkt_def)
qed

theorem send_ack_decodes_witness:
  "\<exists>st' dg p. send_ack crc32 Little demo_turn (rcv_init empty_heap) 77 PTYPE_ACK 20 = Some (0, st') \<and>
    pkt_decode crc32 Little True (Some (dg @ [])) 10 zero_pkt = Some (PKT_OK, p) \<and> pkt_get_seqnum p = 77 \<and>
    r_last_acked st' = 77"
  using send_ack_decodes [of PTYPE_ACK 20 demo_turn zero_pkt crc32 Little "rcv_init empty_heap" 77 True "[]" zero_pkt]
  by (simp add: demo_turn_def) blast

end
