(* ===== verification/Sender.thy ===== *)
theory Sender
  imports Seq_Order Packet_Codec
begin

text \<open>
  The sender, \<open>src/src/sender.c\<close>. Its globals and the locals of its loop are the record
  \<open>sender\<close>, the datagrams it sent are \<open>s_out\<close>. What the system calls of one turn of the loop
  return is the record \<open>sturn\<close>. Round-trip times are kept in nanoseconds instead of the
  floating-point milliseconds of the code, which only compares them. The packets
  \<open>pkt_new\<close> allocates for acknowledgements and for \<open>resend\<close> are never linked and not in the
  heap of the model.
\<close>

section \<open>State and environment\<close>

type_synonym timespec = "int \<times> int"

definition MAX_SEQNUM :: int where "MAX_SEQNUM = 256"
definition ACK_SIZE :: nat where "ACK_SIZE = 10"
definition RTO :: u8 where "RTO = 2"

record sender =
  s_window :: int
  s_seqnum :: int
  s_lastack :: int
  s_nb_sended :: int
  s_data_sent :: int
  s_ack_received_stat :: int
  s_nack_received :: int
  s_min_rtt :: int
  s_max_rtt :: int
  s_rtt :: "u8 \<Rightarrow> timespec"
  s_heap :: heap
  s_buffer :: buffer
  s_last_ack_to_receive :: int
  s_pkt_tr :: int
  s_EOF_ACKED :: int
  s_ready :: int
  s_nb_last_ack_to :: int
  s_ack_received :: int
  s_buf_ack :: bytes
  s_out :: "bytes list"

definition sender_init :: "heap \<Rightarrow> bytes \<Rightarrow> sender" where
  "sender_init h buf_ack = \<lparr>s_window = 1, s_seqnum = 0, s_lastack = -1, s_nb_sended = 0, s_data_sent = 0,
     s_ack_received_stat = 0, s_nack_received = 0, s_min_rtt = 2147483647 * 1000000, s_max_rtt = 0,
     s_rtt = (\<lambda>_. (0, 0)), s_heap = h, s_buffer = buffer_init, s_last_ack_to_receive = -1, s_pkt_tr = -1,
     s_EOF_ACKED = 0, s_ready = -1, s_nb_last_ack_to = 0, s_ack_received = -1, s_buf_ack = buf_ack, s_out = []\<rparr>"

text \<open>
  \<open>u_file\<close>: what \<open>read\<close> returns on the file; \<open>u_pkt\<close>: the block of \<open>pkt_new\<close>; \<open>u_now\<close>: \<open>time(NULL)\<close>
  in \<open>send_pkt\<close>; \<open>u_times i\<close>: \<open>time(NULL)\<close> in round \<open>i\<close> of the scan for expired packets;
  \<open>u_send k\<close>: whether \<open>send\<close> succeeds when \<open>k\<close> datagrams have been sent; \<open>u_ack\<close>: what \<open>read\<close>
  returns on the socket; \<open>u_ack_new\<close>: the block for the acknowledgement.
\<close>

record sturn =
  u_ready :: int
  u_file_in :: bool
  u_file :: "bytes option"
  u_pkt :: "(addr \<times> pkt) option"
  u_payload_ok :: bool
  u_node :: "addr option"
  u_sock_out :: bool
  u_now :: u32
  u_times :: "nat \<Rightarrow> u32"
  u_clock :: timespec
  u_send :: "nat \<Rightarrow> bool"
  u_sock_in :: bool
  u_ack :: "bytes option"
  u_ack_new :: "pkt option"
  u_ack_clock :: timespec

section \<open>The functions of sender.c\<close>

text \<open>Declared in \<open>sender.c\<close>, never called.\<close>

definition is_in_window :: "sender \<Rightarrow> int \<Rightarrow> bool" where
  "is_in_window st seqnum_to_test =
     (if seqnum_to_test < s_seqnum st then seqnum_to_test + MAX_SEQNUM - s_seqnum st < s_window st
      else seqnum_to_test - s_seqnum st \<le> s_window st)"

definition diff :: "timespec \<Rightarrow> timespec \<Rightarrow> timespec" where
  "diff start stop =
     (if snd stop - snd start < 0
      then (fst stop - fst start - 1, 1000000000 + snd stop - snd start)
      else (fst stop - fst start, snd stop - snd start))"

text \<open>The packet read, \<open>None\<close> for the null pointer.\<close>

definition read_file :: "sturn \<Rightarrow> sender \<Rightarrow> (addr option \<times> sender) option" where
  "read_file inp st =
     (if int (b_size (s_buffer st)) \<ge> s_window st then Some (None, st)
      else case u_file inp of None \<Rightarrow> Some (None, st)
      | Some payload \<Rightarrow> (case u_pkt inp of None \<Rightarrow> Some (None, st)
      | Some (a, pkt) \<Rightarrow> do {
          let len = length payload;
          let pkt = snd (pkt_set_type pkt PTYPE_DATA);
          let pkt = snd (pkt_set_tr pkt 0);
          let pkt = snd (pkt_set_window pkt (word_of_int (s_window st)));
          let pkt = snd (pkt_set_timestamp pkt 0);
          let (err, pkt) = pkt_set_seqnum pkt (word_of_int (s_seqnum st));
          (err, pkt, st) \<leftarrow>
            (if len = 0 then
               (case pkt_set_length pkt 0 of (err, pkt) \<Rightarrow> Some (err, pkt, st))
             else do {
               (err, pkt) \<leftarrow> pkt_set_payload (u_payload_ok inp) pkt (Some payload) (of_nat len);
               Some (err, pkt, st\<lparr>s_seqnum := (s_seqnum st + 1) mod MAX_SEQNUM, s_nb_sended := s_nb_sended st + 1\<rparr>)
             });
          if err \<noteq> PKT_OK then Some (None, st)
          else Some (Some a, st\<lparr>s_heap := (s_heap st)\<lparr>pkts := (pkts (s_heap st))(a \<mapsto> pkt)\<rparr>\<rparr>)
        }))"

text \<open>\<open>None\<close> when the packet pointer is null or dangling.\<close>

definition send_pkt ::
  "(bytes \<Rightarrow> u32) \<Rightarrow> endian \<Rightarrow> sturn \<Rightarrow> sender \<Rightarrow> addr option \<Rightarrow> sender option" where
  "send_pkt crc e inp st p = do {
     a \<leftarrow> p;
     q \<leftarrow> pkts (s_heap st) a;
     let q = snd (pkt_set_timestamp q (u_now inp));
     let st = st\<lparr>s_heap := (s_heap st)\<lparr>pkts := (pkts (s_heap st))(a \<mapsto> q)\<rparr>\<rparr>;
     (code, buf, len) \<leftarrow> pkt_encode crc e (Some q) (Some (replicate MAX_PKT_SIZE 0)) (Some 0);
     if code \<noteq> PKT_OK then do {
       h \<leftarrow> pkt_del (s_heap st) (Some a);
       Some (st\<lparr>s_heap := h\<rparr>)
     } else if \<not> u_send inp (length (s_out st)) then Some st
     else do {
       dgram \<leftarrow> buf;
       n \<leftarrow> len;
       Some (st\<lparr>s_out := s_out st @ [take n dgram], s_data_sent := s_data_sent st + 1,
                s_rtt := (s_rtt st)(pkt_get_seqnum q := u_clock inp)\<rparr>)
     }
   }"

text \<open>The scan for expired packets: the packet found, whether one was, and the heap.\<close>

fun timedout_loop ::
  "sturn \<Rightarrow> heap \<Rightarrow> nat \<Rightarrow> nat \<Rightarrow> addr option \<Rightarrow> addr option \<Rightarrow> (addr option \<times> heap) option" where
  "timedout_loop inp h i 0 cur found = Some (found, h)"
| "timedout_loop inp h i (Suc k) cur found = do {
     let now_s = u_times inp i;
     c \<leftarrow> node_at h cur;
     q \<leftarrow> pkts h (n_pkt c);
     (if pkt_get_timestamp q \<noteq> 0 \<and> now_s - pkt_get_timestamp q > ucast RTO then
        if found = None then
          timedout_loop inp
            (h\<lparr>pkts := (pkts h)(n_pkt c \<mapsto> snd (pkt_set_timestamp q now_s))\<rparr>) (i + 1) k (n_next c) (Some (n_pkt c))
        else
          timedout_loop inp
            (h\<lparr>pkts := (pkts h)(n_pkt c \<mapsto> snd (pkt_set_timestamp q (now_s - ucast (RTO div 2))))\<rparr>) (i + 1) k (n_next c) found
      else timedout_loop inp h (i + 1) k (n_next c) found)
   }"

definition look_for_timedout_packet :: "sturn \<Rightarrow> heap \<Rightarrow> buffer option \<Rightarrow> (addr option \<times> heap) option" where
  "look_for_timedout_packet inp h bo =
     (case bo of None \<Rightarrow> Some (None, h)
      | Some b \<Rightarrow> if b_size b = 0 then Some (None, h)
                  else timedout_loop inp h 0 (b_size b) (b_first b) None)"

section \<open>One turn of the loop\<close>

text \<open>The file is readable: read a packet and enqueue it, unless the last one was already read.\<close>

definition turn_file :: "sturn \<Rightarrow> sender \<Rightarrow> sender option" where
  "turn_file inp st = do {
     (p, st) \<leftarrow> read_file inp st;
     (case p of None \<Rightarrow> Some st
      | Some a \<Rightarrow>
        if s_last_ack_to_receive st = -1 then do {
          q \<leftarrow> pkts (s_heap st) a;
          let st = (if pkt_get_length q = 0 \<and> uint (pkt_get_seqnum q) = s_seqnum st
                    then st\<lparr>s_last_ack_to_receive := s_seqnum st\<rparr> else st);
          (_, h, b) \<leftarrow> buffer_enqueue (s_heap st) (s_buffer st) a (u_node inp);
          _ \<leftarrow> buffer_print h b;
          Some (st\<lparr>s_heap := h, s_buffer := b\<rparr>)
        } else Some st)
   }"

text \<open>The socket is writable; the flag says that the loop is left by \<open>break\<close>.\<close>

definition turn_send ::
  "(bytes \<Rightarrow> u32) \<Rightarrow> endian \<Rightarrow> sturn \<Rightarrow> sender \<Rightarrow> (bool \<times> sender) option" where
  "turn_send crc e inp st = do {
     st \<leftarrow> (if s_ack_received st \<noteq> -1 then do {
              p \<leftarrow> buffer_get_pkt (s_heap st) (s_buffer st) (word_of_int (s_ack_received st));
              st \<leftarrow> send_pkt crc e inp st p;
              Some (st\<lparr>s_ack_received := -1\<rparr>)
            } else Some st);
     st \<leftarrow> (if s_pkt_tr st \<noteq> -1 then do {
              p \<leftarrow> buffer_get_pkt (s_heap st) (s_buffer st) (word_of_int (s_pkt_tr st));
              st \<leftarrow> send_pkt crc e inp st p;
              Some (st\<lparr>s_pkt_tr := -1\<rparr>)
            } else Some st);
     (p, h) \<leftarrow> look_for_timedout_packet inp (s_heap st) (Some (s_buffer st));
     let st = st\<lparr>s_heap := h\<rparr>;
     (gone, st) \<leftarrow> (case p of None \<Rightarrow> Some (False, st)
        | Some a \<Rightarrow> do {
            q \<leftarrow> pkts (s_heap st) a;
            let last = (uint (pkt_get_seqnum q) = s_last_ack_to_receive st);
            let st = (if last then st\<lparr>s_nb_last_ack_to := s_nb_last_ack_to st + 1\<rparr> else st);
            if last \<and> s_nb_last_ack_to st = 4 then Some (True, st)
            else do { st \<leftarrow> send_pkt crc e inp st (Some a); Some (False, st) }
          });
     if gone then Some (True, st)
     else do {
       p \<leftarrow> look_for_unsended_packet (s_heap st) (Some (s_buffer st));
       (case p of None \<Rightarrow> Some (False, st)
        | Some a \<Rightarrow> do { st \<leftarrow> send_pkt crc e inp st (Some a); Some (False, st) })
     }
   }"

text \<open>An acknowledgement that was decoded.\<close>

definition handle_ack :: "sturn \<Rightarrow> pkt \<Rightarrow> sender \<Rightarrow> sender option" where
  "handle_ack inp pkt st =
     (let s = uint (pkt_get_seqnum pkt) in
      if s > s_nb_sended st + 1 mod MAX_SEQNUM
         \<or> (s_last_ack_to_receive st \<noteq> -1 \<and> s > s_last_ack_to_receive st) then Some st
      else if pkt_get_type pkt = PTYPE_NACK then Some (st\<lparr>s_pkt_tr := s\<rparr>)
      else do {
        let st = st\<lparr>s_window := uint (pkt_get_window pkt), s_ack_received := s\<rparr>;
        (count, h, b) \<leftarrow> buffer_remove_acked (s_heap st) (s_buffer st) (pkt_get_seqnum pkt);
        _ \<leftarrow> buffer_print h b;
        let st = st\<lparr>s_heap := h, s_buffer := b, s_ack_received_stat := s_ack_received_stat st + 1\<rparr>;
        let st = (if snd (s_rtt st (pkt_get_seqnum pkt)) \<noteq> 0 then
                    let ns = snd (diff (s_rtt st (pkt_get_seqnum pkt)) (u_ack_clock inp));
                        st = (if ns > s_max_rtt st then st\<lparr>s_max_rtt := ns\<rparr> else st) in
                    if ns < s_min_rtt st then st\<lparr>s_min_rtt := ns\<rparr> else st
                  else st);
        Some (if count > 0 \<or> s_last_ack_to_receive st \<noteq> -1 then
                let st = st\<lparr>s_lastack := s_ack_received st, s_ack_received := -1\<rparr> in
                if s_lastack st = s_last_ack_to_receive st
                then st\<lparr>s_EOF_ACKED := s_EOF_ACKED st + 1\<rparr> else st
              else st)
      })"

text \<open>The socket is readable.\<close>

definition turn_ack :: "(bytes \<Rightarrow> u32) \<Rightarrow> endian \<Rightarrow> sturn \<Rightarrow> sender \<Rightarrow> sender option" where
  "turn_ack crc e inp st =
     (case u_ack inp of None \<Rightarrow> Some st
      | Some dgram \<Rightarrow>
        let d = take ACK_SIZE dgram;
            st = st\<lparr>s_buf_ack := d @ drop (length d) (s_buf_ack st)\<rparr> in
        (case u_ack_new inp of None \<Rightarrow> Some st
         | Some block \<Rightarrow> do {
             (code, pkt) \<leftarrow> pkt_decode crc e (u_payload_ok inp) (Some (s_buf_ack st)) (length d) block;
             if code \<noteq> PKT_OK \<or> pkt_get_type pkt = PTYPE_DATA then Some st
             else handle_ack inp pkt st
           }))"

text \<open>A turn of \<open>read_write_loop_sender\<close>; the flag says that the loop was left inside it.\<close>

definition sender_turn ::
  "(bytes \<Rightarrow> u32) \<Rightarrow> endian \<Rightarrow> sturn \<Rightarrow> sender \<Rightarrow> (bool \<times> sender) option" where
  "sender_turn crc e inp st = do {
     let st = st\<lparr>s_ready := u_ready inp\<rparr>;
     if u_ready inp = -1 then Some (True, st)
     else do {
       st \<leftarrow> (if u_file_in inp then turn_file inp st else Some st);
       (gone, st) \<leftarrow> (if u_sock_out inp then turn_send crc e inp st else Some (False, st));
       if gone then Some (True, st)
       else do {
         st \<leftarrow> (if u_sock_in inp then turn_ack crc e inp st else Some st);
         Some (False, st)
       }
     }
   }"

definition sender_running :: "sender \<Rightarrow> bool" where
  "sender_running st \<longleftrightarrow> s_EOF_ACKED st \<noteq> 1 \<and> s_ready st \<noteq> 0"

section \<open>Heaps that differ in the timestamps of packets\<close>

definition retimed :: "heap \<Rightarrow> heap \<Rightarrow> bool" where
  "retimed h h' \<longleftrightarrow> (\<exists>M. h' = h\<lparr>pkts := M\<rparr> \<and> dom M = dom (pkts h) \<and>
     (\<forall>p q. pkts h p = Some q \<longrightarrow> (\<exists>t. M p = Some (q\<lparr>p_timestamp := t\<rparr>))))"

lemma own_time: "\<exists>t. q = q\<lparr>p_timestamp := t\<rparr>" for q :: pkt
  by (rule exI [of _ "p_timestamp q"]) simp

lemma retimed_refl: "retimed h h"
  unfolding retimed_def using own_time by (intro exI [of _ "pkts h"]) auto

lemma retimed_trans:
  assumes "retimed h h1" "retimed h1 h2"
  shows "retimed h h2"
proof -
  obtain M1 where M1: "h1 = h\<lparr>pkts := M1\<rparr>" "dom M1 = dom (pkts h)"
    "\<And>p q. pkts h p = Some q \<Longrightarrow> \<exists>t. M1 p = Some (q\<lparr>p_timestamp := t\<rparr>)"
    using assms(1) unfolding retimed_def by blast
  obtain M2 where M2: "h2 = h1\<lparr>pkts := M2\<rparr>" "dom M2 = dom (pkts h1)"
    "\<And>p q. pkts h1 p = Some q \<Longrightarrow> \<exists>t. M2 p = Some (q\<lparr>p_timestamp := t\<rparr>)"
    using assms(2) unfolding retimed_def by blast
  have "\<exists>t. M2 p = Some (q\<lparr>p_timestamp := t\<rparr>)" if q: "pkts h p = Some q" for p q
  proof -
    obtain t where "pkts h1 p = Some (q\<lparr>p_timestamp := t\<rparr>)" using M1(3) [OF q] M1(1) by auto
    from M2(3) [OF this] show ?thesis by simp
  qed
  then show ?thesis unfolding retimed_def using M1(1,2) M2(1,2) by (intro exI [of _ M2]) simp
qed

lemma retimed_one:
  assumes "pkts h p = Some q"
  shows "retimed h (h\<lparr>pkts := (pkts h)(p \<mapsto> q\<lparr>p_timestamp := t\<rparr>)\<rparr>)"
proof -
  have "\<exists>u. ((pkts h)(p \<mapsto> q\<lparr>p_timestamp := t\<rparr>)) x = Some (r\<lparr>p_timestamp := u\<rparr>)" if r: "pkts h x = Some r" for x r
  proof (cases "x = p")
    case True
    then show ?thesis using assms r by auto
  next
    case False
    then show ?thesis using own_time [of r] r by simp
  qed
  then show ?thesis unfolding retimed_def
    using assms by (intro exI [of _ "(pkts h)(p \<mapsto> q\<lparr>p_timestamp := t\<rparr>)"]) auto
qed

lemma retimed_nodes: "retimed h h' \<Longrightarrow> nodes h' = nodes h"
  by (auto simp: retimed_def)

lemma retimed_pkt: "retimed h h' \<Longrightarrow> pkts h p = Some q \<Longrightarrow> \<exists>t. pkts h' p = Some (q\<lparr>p_timestamp := t\<rparr>)"
  by (auto simp: retimed_def)

lemma retimed_holds: "retimed h h' \<Longrightarrow> holds h b ps \<Longrightarrow> holds h' b ps"
  using holds_pkts [of h b ps] holds_facts(2) [of h b ps] by (metis retimed_def)

lemma retimed_dom: "retimed h h' \<Longrightarrow> dom (pkts h') = dom (pkts h)"
  unfolding retimed_def by (elim exE conjE) simp

section \<open>The invariant of the sender\<close>

text \<open>
  The file in pieces: \<open>chunk k\<close> is what the \<open>k\<close>-th successful \<open>read\<close> returned. With \<open>N\<close> pieces
  read, packet number \<open>k\<close> is the \<open>k\<close>-th piece, or for \<open>k = N\<close> the end-of-file packet. The
  buffer holds consecutive packets from number \<open>n\<close> on.
\<close>

definition piece :: "(bytes \<Rightarrow> u32) \<Rightarrow> (nat \<Rightarrow> bytes) \<Rightarrow> nat \<Rightarrow> nat \<Rightarrow> pkt \<Rightarrow> bool" where
  "piece crc chunk N k q \<longleftrightarrow> p_type q = 1 \<and> p_tr q = 0 \<and> pkt_get_seqnum q = of_nat k \<and>
     (if k < N then sendable crc q (chunk k) else k = N \<and> p_length q = 0)"

definition sent_ok :: "(bytes \<Rightarrow> u32) \<Rightarrow> endian \<Rightarrow> (nat \<Rightarrow> bytes) \<Rightarrow> nat \<Rightarrow> bool \<Rightarrow> bytes \<Rightarrow> bool" where
  "sent_ok crc e chunk N eof dg \<longleftrightarrow> (\<exists>k q. piece crc chunk N k q \<and>
     (if k < N then dg = data_wire crc e q (chunk k) else eof \<and> dg = eof_wire crc e q))"

definition snd_inv :: "(bytes \<Rightarrow> u32) \<Rightarrow> endian \<Rightarrow> (nat \<Rightarrow> bytes) \<Rightarrow> nat \<Rightarrow> nat \<Rightarrow> addr list \<Rightarrow> sender \<Rightarrow> bool" where
  "snd_inv crc e chunk N n ps st \<longleftrightarrow> holds (s_heap st) (s_buffer st) ps \<and>
     s_nb_sended st = int N \<and> s_seqnum st = int (N mod 256) \<and> s_window st \<le> 31 \<and> length ps \<le> 31 \<and>
     length (s_buf_ack st) = ACK_SIZE \<and>
     (s_last_ack_to_receive st = -1 \<and> n + length ps = N \<or>
      s_last_ack_to_receive st = int (N mod 256) \<and> n + length ps = N + 1) \<and>
     (\<forall>i < length ps. \<exists>q. pkts (s_heap st) (ps ! i) = Some q \<and> piece crc chunk N (n + i) q) \<and>
     (\<forall>dg \<in> set (s_out st). sent_ok crc e chunk N (s_last_ack_to_receive st \<noteq> -1) dg)"

lemma snd_inv_facts:
  assumes "snd_inv crc e chunk N n ps st"
  shows "holds (s_heap st) (s_buffer st) ps" "s_nb_sended st = int N" "s_seqnum st = int (N mod 256)"
    "s_window st \<le> 31" "length ps \<le> 31"
    "i < length ps \<Longrightarrow> \<exists>q. pkts (s_heap st) (ps ! i) = Some q \<and> piece crc chunk N (n + i) q"
    "s_last_ack_to_receive st = -1 \<and> n + length ps = N \<or>
      s_last_ack_to_receive st = int (N mod 256) \<and> n + length ps = N + 1"
    "dg \<in> set (s_out st) \<Longrightarrow> sent_ok crc e chunk N (s_last_ack_to_receive st \<noteq> -1) dg"
    "length (s_buf_ack st) = ACK_SIZE"
  using assms unfolding snd_inv_def by blast+

lemma piece_retime: "piece crc chunk N k q \<Longrightarrow> piece crc chunk N k (q\<lparr>p_timestamp := t\<rparr>)"
  by (cases "k < N") (simp_all add: piece_def sendable_def pkt_get_seqnum_def)

lemma snd_inv_retimed:
  assumes "snd_inv crc e chunk N n ps st" "retimed (s_heap st) h"
  shows "snd_inv crc e chunk N n ps (st\<lparr>s_heap := h\<rparr>)"
proof -
  have "\<exists>q. pkts h (ps ! i) = Some q \<and> piece crc chunk N (n + i) q" if i: "i < length ps" for i
    using snd_inv_facts(6) [OF assms(1) i] retimed_pkt [OF assms(2)] piece_retime by metis
  then show ?thesis
    using assms(1) retimed_holds [OF assms(2) snd_inv_facts(1) [OF assms(1)]] unfolding snd_inv_def by simp
qed

text \<open>The numbers in the buffer are consecutive.\<close>

lemma snd_inv_seqs:
  assumes "snd_inv crc e chunk N n ps st"
  shows "map (pseq (s_heap st)) ps = map (\<lambda>i. of_nat (n + i)) [0..<length ps]"
proof (rule nth_equalityI)
  fix i assume i: "i < length (map (pseq (s_heap st)) ps)"
  then obtain q where "pkts (s_heap st) (ps ! i) = Some q" "piece crc chunk N (n + i) q"
    using snd_inv_facts(6) [OF assms] by auto
  then show "map (pseq (s_heap st)) ps ! i = map (\<lambda>i. of_nat (n + i)) [0..<length ps] ! i"
    using i by (simp add: pseq_def piece_def)
qed simp

lemma key_of_nat: "i < 256 \<Longrightarrow> window_key (of_nat n) (of_nat (n + i)) = i"
  by (simp add: window_key_def unat_of_nat)

lemma consecutive_sorted:
  assumes "l \<le> 49"
  shows "window_sorted (of_nat n) (map (\<lambda>i. of_nat (n + i)) [0..<l])"
proof -
  have "map (window_key (of_nat n)) (map (\<lambda>i. of_nat (n + i)) [0..<l]) = [0..<l]"
    using assms key_of_nat by (intro nth_equalityI) auto
  then show ?thesis using assms key_of_nat unfolding window_sorted_def by (auto simp: sorted_wrt_upt)
qed

section \<open>Sending\<close>

lemma snd_inv_upd [simp]:
  "snd_inv crc e chunk N n ps (st\<lparr>s_ack_received := i\<rparr>) = snd_inv crc e chunk N n ps st"
  "snd_inv crc e chunk N n ps (st\<lparr>s_pkt_tr := i\<rparr>) = snd_inv crc e chunk N n ps st"
  "snd_inv crc e chunk N n ps (st\<lparr>s_nb_last_ack_to := i\<rparr>) = snd_inv crc e chunk N n ps st"
  "snd_inv crc e chunk N n ps (st\<lparr>s_ready := i\<rparr>) = snd_inv crc e chunk N n ps st"
  "snd_inv crc e chunk N n ps (st\<lparr>s_data_sent := i\<rparr>) = snd_inv crc e chunk N n ps st"
  "snd_inv crc e chunk N n ps (st\<lparr>s_rtt := f\<rparr>) = snd_inv crc e chunk N n ps st"
  "snd_inv crc e chunk N n ps (st\<lparr>s_lastack := i\<rparr>) = snd_inv crc e chunk N n ps st"
  "snd_inv crc e chunk N n ps (st\<lparr>s_EOF_ACKED := i\<rparr>) = snd_inv crc e chunk N n ps st"
  "snd_inv crc e chunk N n ps (st\<lparr>s_max_rtt := i\<rparr>) = snd_inv crc e chunk N n ps st"
  "snd_inv crc e chunk N n ps (st\<lparr>s_min_rtt := i\<rparr>) = snd_inv crc e chunk N n ps st"
  "snd_inv crc e chunk N n ps (st\<lparr>s_ack_received_stat := i\<rparr>) = snd_inv crc e chunk N n ps st"
  by (simp_all add: snd_inv_def)

text \<open>What the code leaves alone while it sends: all but the heap, the output and statistics.\<close>

definition same_control :: "sender \<Rightarrow> sender \<Rightarrow> bool" where
  "same_control st st' \<longleftrightarrow> s_buffer st' = s_buffer st \<and> s_ack_received st' = s_ack_received st \<and> s_pkt_tr st' = s_pkt_tr st \<and>
     s_last_ack_to_receive st' = s_last_ack_to_receive st \<and> s_window st' = s_window st \<and>
     s_nb_last_ack_to st' = s_nb_last_ack_to st \<and> retimed (s_heap st) (s_heap st')"

text \<open>The datagram of a packet.\<close>

definition piece_wire :: "(bytes \<Rightarrow> u32) \<Rightarrow> endian \<Rightarrow> (nat \<Rightarrow> bytes) \<Rightarrow> nat \<Rightarrow> nat \<Rightarrow> pkt \<Rightarrow> bytes" where
  "piece_wire crc e chunk N k q = (if k < N then data_wire crc e q (chunk k) else eof_wire crc e q)"

lemma encode_piece:
  assumes "piece crc chunk N k q"
  shows "\<exists>b n. pkt_encode crc e (Some q) (Some (replicate MAX_PKT_SIZE 0)) (Some 0) = Some (PKT_OK, Some b, Some n) \<and>
    take n b = piece_wire crc e chunk N k q"
proof (cases "k < N")
  case True
  then have s: "sendable crc q (chunk k)" using assms by (simp add: piece_def)
  then have "16 + length (chunk k) \<le> length (replicate MAX_PKT_SIZE (0 :: byte))" by (simp add: sendable_def)
  from pkt_encode_data [OF s this] True show ?thesis by (simp add: piece_wire_def)
next
  case False
  then have "p_type q = 1" "p_length q = 0" "p_tr q = 0" using assms by (simp_all add: piece_def)
  from pkt_encode_eof [OF this(1,2), of "replicate MAX_PKT_SIZE 0" crc e 0] this(3) False
  show ?thesis by (simp add: piece_wire_def)
qed

text \<open>A packet of the buffer is encoded and sent, with a new timestamp.\<close>

lemma send_pkt_sends:
  assumes inv: "snd_inv crc e chunk N n ps st" and i: "i < length ps" and q: "pkts (s_heap st) (ps ! i) = Some q"
    and s: "u_send inp (length (s_out st))"
  defines "q' \<equiv> q\<lparr>p_timestamp := u_now inp\<rparr>"
  defines "st' \<equiv> st\<lparr>s_heap := (s_heap st)\<lparr>pkts := (pkts (s_heap st))(ps ! i \<mapsto> q')\<rparr>,
      s_out := s_out st @ [piece_wire crc e chunk N (n + i) q'], s_data_sent := s_data_sent st + 1,
      s_rtt := (s_rtt st)(pkt_get_seqnum q := u_clock inp)\<rparr>"
  shows "send_pkt crc e inp st (Some (ps ! i)) = Some st'" "snd_inv crc e chunk N n ps st'" "piece crc chunk N (n + i) q'"
proof -
  have p: "piece crc chunk N (n + i) q" using snd_inv_facts(6) [OF inv i] q by auto
  show pq: "piece crc chunk N (n + i) q'" using p unfolding q'_def by (rule piece_retime)
  obtain b len where enc: "pkt_encode crc e (Some q') (Some (replicate MAX_PKT_SIZE 0)) (Some 0) = Some (PKT_OK, Some b, Some len)"
    "take len b = piece_wire crc e chunk N (n + i) q'" using encode_piece [OF pq] by blast
  have rt: "retimed (s_heap st) ((s_heap st)\<lparr>pkts := (pkts (s_heap st))(ps ! i \<mapsto> q')\<rparr>)"
    unfolding q'_def using q by (rule retimed_one)
  show "send_pkt crc e inp st (Some (ps ! i)) = Some st'"
    using s q enc by (simp add: send_pkt_def pkt_set_timestamp_def Let_def pkt_get_seqnum_def st'_def q'_def)
  have "n + i < N \<or> s_last_ack_to_receive st \<noteq> -1" using snd_inv_facts(7) [OF inv] i by auto
  then have "sent_ok crc e chunk N (s_last_ack_to_receive st \<noteq> -1) (piece_wire crc e chunk N (n + i) q')"
    unfolding sent_ok_def piece_wire_def using pq by (intro exI [of _ "n + i"] exI [of _ q']) auto
  then show "snd_inv crc e chunk N n ps st'" using snd_inv_retimed [OF inv rt] unfolding snd_inv_def st'_def by simp
qed

lemma send_pkt_ok:
  assumes inv: "snd_inv crc e chunk N n ps st" and i: "i < length ps"
  shows "\<exists>st'. send_pkt crc e inp st (Some (ps ! i)) = Some st' \<and> snd_inv crc e chunk N n ps st' \<and> same_control st st'"
proof -
  obtain q where q: "pkts (s_heap st) (ps ! i) = Some q" "piece crc chunk N (n + i) q"
    using snd_inv_facts(6) [OF inv i] by blast
  let ?q = "q\<lparr>p_timestamp := u_now inp\<rparr>"
  have pq: "piece crc chunk N (n + i) ?q" using q(2) by (rule piece_retime)
  obtain b len where enc: "pkt_encode crc e (Some ?q) (Some (replicate MAX_PKT_SIZE 0)) (Some 0) = Some (PKT_OK, Some b, Some len)"
    "take len b = piece_wire crc e chunk N (n + i) ?q" using encode_piece [OF pq] by blast
  let ?h = "(s_heap st)\<lparr>pkts := (pkts (s_heap st))(ps ! i \<mapsto> ?q)\<rparr>"
  have rt: "retimed (s_heap st) ?h" using q(1) by (rule retimed_one)
  have inv1: "snd_inv crc e chunk N n ps (st\<lparr>s_heap := ?h\<rparr>)" by (rule snd_inv_retimed [OF inv rt])
  show ?thesis
  proof (cases "u_send inp (length (s_out st))")
    case False
    then have "send_pkt crc e inp st (Some (ps ! i)) = Some (st\<lparr>s_heap := ?h\<rparr>)"
      using q(1) enc by (simp add: send_pkt_def pkt_set_timestamp_def Let_def)
    then show ?thesis using inv1 rt by (auto simp: same_control_def)
  next
    case True
    from send_pkt_sends [OF inv i q(1) True] rt show ?thesis by (simp add: same_control_def)
  qed
qed

lemma same_control_trans: "same_control a b \<Longrightarrow> same_control b c \<Longrightarrow> same_control a c"
  by (auto simp: same_control_def intro: retimed_trans)

text \<open>The packet that an acknowledgement asks for again.\<close>

lemma resend_ok:
  assumes inv: "snd_inv crc e chunk N n ps st"
  shows "if s \<in> set (map (pseq (s_heap st)) ps)
    then \<exists>st'. (do { p \<leftarrow> buffer_get_pkt (s_heap st) (s_buffer st) s; send_pkt crc e inp st p }) = Some st' \<and>
      snd_inv crc e chunk N n ps st' \<and> same_control st st'
    else (do { p \<leftarrow> buffer_get_pkt (s_heap st) (s_buffer st) s; send_pkt crc e inp st p }) = None"
proof (cases "s \<in> set (map (pseq (s_heap st)) ps)")
  case False
  then have "buffer_get_pkt (s_heap st) (s_buffer st) s = Some None"
    using holds_get [OF snd_inv_facts(1) [OF inv]] find_seq_None [of "s_heap st" s ps] by simp
  then show ?thesis using False by (simp add: send_pkt_def)
next
  case True
  then obtain p where p: "find_seq (s_heap st) s ps = Some p" using find_seq_None [of "s_heap st" s ps] by fastforce
  then obtain i where "i < length ps" "p = ps ! i" using find_seq_Some [OF p] by (auto simp: in_set_conv_nth)
  then show ?thesis using True holds_get [OF snd_inv_facts(1) [OF inv], of s] p send_pkt_ok [OF inv, of i inp] by simp
qed

lemma rep_retimed:
  assumes "retimed h h'" "rep h b as"
  shows "rep h' b as" "pk h' = pk h"
proof -
  show pk: "pk h' = pk h" using retimed_nodes [OF assms(1)] by (auto simp: pk_def)
  show "rep h' b as"
    using assms(2) retimed_nodes [OF assms(1)] retimed_dom [OF assms(1)] unfolding rep_def pk by simp
qed

text \<open>The scan visits the packets in order; \<open>expired\<close> is its test.\<close>

definition expired :: "u32 \<Rightarrow> pkt \<Rightarrow> bool" where
  "expired now q \<longleftrightarrow> pkt_get_timestamp q \<noteq> 0 \<and> now - pkt_get_timestamp q > 2"

lemma timedout_step:
  assumes "rep h b (xs @ y # ys)" "pkts h (pk h y) = Some q"
  shows "timedout_loop inp h i (Suc (length ys)) (Some y) found =
    (if expired (u_times inp i) q then
       timedout_loop inp (h\<lparr>pkts := (pkts h)(pk h y \<mapsto> q\<lparr>p_timestamp :=
           (if found = None then u_times inp i else u_times inp i - 1)\<rparr>)\<rparr>) (i + 1) (length ys)
         (Some (hd (ys @ xs @ [y]))) (if found = None then Some (pk h y) else found)
     else timedout_loop inp h (i + 1) (length ys) (Some (hd (ys @ xs @ [y]))) found)"
proof -
  obtain n where n: "node_at h (Some y) = Some n" "n_pkt n = pk h y" "n_next n = Some (hd (ys @ xs @ [y]))"
    using node_at_rep [OF assms(1)] by metis
  have "(ucast RTO :: u32) = 2" "(ucast (RTO div 2) :: u32) = 1" by (simp_all add: RTO_def)
  then show ?thesis using n assms(2) by (simp add: expired_def pkt_set_timestamp_def Let_def)
qed

lemma timedout_loop_ok:
  "rep h b (xs @ ys) \<Longrightarrow> (ys \<noteq> [] \<longrightarrow> cur = Some (hd ys)) \<Longrightarrow>
   \<exists>found' h'. timedout_loop inp h i (length ys) cur found = Some (found', h') \<and> retimed h h' \<and>
     (found' = found \<or> (\<exists>y \<in> set ys. found' = Some (pk h y)))"
proof (induction ys arbitrary: xs h i cur found)
  case Nil
  then show ?case using retimed_refl by auto
next
  case (Cons y ys)
  obtain q where q: "pkts h (pk h y) = Some q" using Cons.prems(1) by (auto simp: rep_def)
  let ?next = "Some (hd (ys @ xs @ [y]))"
  have nx: "ys \<noteq> [] \<longrightarrow> ?next = Some (hd ys)" by simp
  show ?case
  proof (cases "expired (u_times inp i) q")
    case False
    have "timedout_loop inp h i (length (y # ys)) cur found = timedout_loop inp h (i + 1) (length ys) ?next found"
      using timedout_step [OF Cons.prems(1) q, of inp i found] False Cons.prems(2) by (simp del: timedout_loop.simps)
    then show ?thesis using Cons.IH [of h "xs @ [y]" ?next "i + 1" found] Cons.prems(1) nx by auto
  next
    case True
    let ?h = "h\<lparr>pkts := (pkts h)(pk h y \<mapsto> q\<lparr>p_timestamp := (if found = None then u_times inp i else u_times inp i - 1)\<rparr>)\<rparr>"
    let ?f = "if found = None then Some (pk h y) else found"
    have rt: "retimed h ?h" using q by (rule retimed_one)
    have "timedout_loop inp h i (length (y # ys)) cur found = timedout_loop inp ?h (i + 1) (length ys) ?next ?f"
      using timedout_step [OF Cons.prems(1) q, of inp i found] True Cons.prems(2) by (simp del: timedout_loop.simps)
    moreover obtain found' h' where "timedout_loop inp ?h (i + 1) (length ys) ?next ?f = Some (found', h')"
      "retimed ?h h'" "found' = ?f \<or> (\<exists>z \<in> set ys. found' = Some (pk ?h z))"
      using Cons.IH [of ?h "xs @ [y]" ?next "i + 1" ?f] rep_retimed(1) [OF rt Cons.prems(1)] nx by auto
    ultimately show ?thesis
      using retimed_trans [OF rt] rep_retimed(2) [OF rt Cons.prems(1)] by (auto split: if_splits)
  qed
qed

lemma look_for_timedout_ok:
  assumes "holds h b ps"
  shows "\<exists>p h'. look_for_timedout_packet inp h (Some b) = Some (p, h') \<and> retimed h h' \<and> (p = None \<or> (\<exists>a \<in> set ps. p = Some a))"
proof -
  obtain as where as: "rep h b as" "map (pk h) as = ps" using assms by (auto simp: holds_def)
  show ?thesis
  proof (cases "as = []")
    case True
    then show ?thesis using rep_facts(3) [OF as(1)] retimed_refl by (simp add: look_for_timedout_packet_def)
  next
    case False
    then show ?thesis
      using timedout_loop_ok [of h b "[]" as "b_first b" inp 0 None] rep_facts(3,4) [OF as(1)] as
      by (auto simp: look_for_timedout_packet_def)
  qed
qed

lemma maybe_send_ok:
  assumes inv: "snd_inv crc e chunk N n ps st" and p: "p = None \<or> (\<exists>a \<in> set ps. p = Some a)"
  shows "\<exists>st'. (case p of None \<Rightarrow> Some st | Some a \<Rightarrow> send_pkt crc e inp st (Some a)) = Some st' \<and>
    snd_inv crc e chunk N n ps st' \<and> same_control st st'"
proof (cases p)
  case None
  then show ?thesis using inv by (simp add: same_control_def retimed_refl)
next
  case (Some a)
  then obtain i where "i < length ps" "a = ps ! i" using p by (auto simp: in_set_conv_nth)
  then show ?thesis using send_pkt_ok [OF inv] Some by simp
qed

text \<open>
  The packets asked for again have to be in the buffer: else the socket branch sends a null
  pointer.
\<close>

definition targets_present :: "sender \<Rightarrow> addr list \<Rightarrow> bool" where
  "targets_present st ps \<longleftrightarrow>
     (s_ack_received st \<noteq> -1 \<longrightarrow> word_of_int (s_ack_received st) \<in> set (map (pseq (s_heap st)) ps)) \<and>
     (s_pkt_tr st \<noteq> -1 \<longrightarrow> word_of_int (s_pkt_tr st) \<in> set (map (pseq (s_heap st)) ps))"

lemma retimed_seqs:
  assumes "retimed h h'" "set ps \<subseteq> dom (pkts h)"
  shows "map (pseq h') ps = map (pseq h) ps"
proof -
  have "pseq h' p = pseq h p" if p: "p \<in> set ps" for p
  proof -
    have "p \<in> dom (pkts h)" by (rule subsetD [OF assms(2) p])
    then obtain q where "pkts h p = Some q" by blast
    from retimed_pkt [OF assms(1) this] this show ?thesis by (auto simp: pseq_def pkt_get_seqnum_def)
  qed
  then show ?thesis by simp
qed

lemma turn_send_ok:
  assumes inv: "snd_inv crc e chunk N n ps st"
  shows "if targets_present st ps
    then \<exists>gone st'. turn_send crc e inp st = Some (gone, st') \<and> snd_inv crc e chunk N n ps st'
    else turn_send crc e inp st = None"
proof -
  have sub: "set ps \<subseteq> dom (pkts (s_heap st))" by (rule holds_facts(2) [OF snd_inv_facts(1) [OF inv]])
  let ?s1 = "word_of_int (s_ack_received st) :: u8"
  let ?s2 = "word_of_int (s_pkt_tr st) :: u8"
  let ?step1 = "if s_ack_received st \<noteq> -1 then do {
              p \<leftarrow> buffer_get_pkt (s_heap st) (s_buffer st) ?s1;
              st \<leftarrow> send_pkt crc e inp st p;
              Some (st\<lparr>s_ack_received := -1\<rparr>)
            } else Some st"
  show ?thesis
  proof (cases "s_ack_received st \<noteq> -1 \<and> ?s1 \<notin> set (map (pseq (s_heap st)) ps)")
    case True
    then have "?step1 = None" using resend_ok [OF inv, of ?s1 inp] by (auto simp: bind_eq_None_conv)
    then show ?thesis using True by (auto simp: turn_send_def targets_present_def)
  next
    case ok1: False
    obtain st1 where st1: "?step1 = Some st1" "snd_inv crc e chunk N n ps st1" "s_pkt_tr st1 = s_pkt_tr st"
      "retimed (s_heap st) (s_heap st1)" "s_buffer st1 = s_buffer st"
    proof (cases "s_ack_received st = -1")
      case True
      then show ?thesis using that inv retimed_refl by simp
    next
      case False
      then obtain st' where "(do { p \<leftarrow> buffer_get_pkt (s_heap st) (s_buffer st) ?s1; send_pkt crc e inp st p }) = Some st'"
        "snd_inv crc e chunk N n ps st'" "same_control st st'" using resend_ok [OF inv, of ?s1 inp] ok1 by auto
      then show ?thesis using that [of "st'\<lparr>s_ack_received := -1\<rparr>"] False
        by (auto simp: same_control_def bind_eq_Some_conv)
    qed
    have seqs1: "map (pseq (s_heap st1)) ps = map (pseq (s_heap st)) ps" by (rule retimed_seqs [OF st1(4) sub])
    let ?step2 = "if s_pkt_tr st1 \<noteq> -1 then do {
              p \<leftarrow> buffer_get_pkt (s_heap st1) (s_buffer st1) ?s2;
              st \<leftarrow> send_pkt crc e inp st1 p;
              Some (st\<lparr>s_pkt_tr := -1\<rparr>)
            } else Some st1"
    show ?thesis
    proof (cases "s_pkt_tr st \<noteq> -1 \<and> ?s2 \<notin> set (map (pseq (s_heap st)) ps)")
      case True
      then have "?step2 = None" using resend_ok [OF st1(2), of ?s2 inp] st1(3) unfolding seqs1 by (auto simp: bind_eq_None_conv)
      then show ?thesis using True st1(1,3) by (auto simp: turn_send_def targets_present_def)
    next
      case ok2: False
      obtain st2 where st2: "?step2 = Some st2" "snd_inv crc e chunk N n ps st2"
      proof (cases "s_pkt_tr st = -1")
        case True
        then show ?thesis using that st1 by simp
      next
        case False
        then obtain st' where "(do { p \<leftarrow> buffer_get_pkt (s_heap st1) (s_buffer st1) ?s2; send_pkt crc e inp st1 p }) = Some st'"
          "snd_inv crc e chunk N n ps st'" using resend_ok [OF st1(2), of ?s2 inp] ok2 unfolding seqs1 by auto
        then show ?thesis using that [of "st'\<lparr>s_pkt_tr := -1\<rparr>"] False st1(3) by (auto simp: bind_eq_Some_conv)
      qed
      obtain p h where lt: "look_for_timedout_packet inp (s_heap st2) (Some (s_buffer st2)) = Some (p, h)"
        "retimed (s_heap st2) h" "p = None \<or> (\<exists>a \<in> set ps. p = Some a)"
        using look_for_timedout_ok [OF snd_inv_facts(1) [OF st2(2)]] by blast
      let ?st3 = "st2\<lparr>s_heap := h\<rparr>"
      have inv3: "snd_inv crc e chunk N n ps ?st3" by (rule snd_inv_retimed [OF st2(2) lt(2)])
      define rest where "rest = (\<lambda>(gone, st). if gone then Some (True, st) else do {
           p \<leftarrow> look_for_unsended_packet (s_heap st) (Some (s_buffer st));
           (case p of None \<Rightarrow> Some (False, st)
            | Some a \<Rightarrow> do { st \<leftarrow> send_pkt crc e inp st (Some a); Some (False, st) }) })"
      have rest: "\<exists>g st'. rest (gone, st4) = Some (g, st') \<and> snd_inv crc e chunk N n ps st'"
        if inv4: "snd_inv crc e chunk N n ps st4" for gone st4
      proof (cases gone)
        case False
        let ?p = "find (\<lambda>p. pkt_get_timestamp (the (pkts (s_heap st4) p)) = 0) ps"
        have "?p = None \<or> (\<exists>a \<in> set ps. ?p = Some a)" by (metis find_Some_iff nth_mem not_Some_eq)
        from maybe_send_ok [OF inv4 this, of inp] False holds_unsended [OF snd_inv_facts(1) [OF inv4]]
        show ?thesis by (auto simp: rest_def split: option.splits)
      qed (use inv4 in \<open>auto simp: rest_def\<close>)
      define mid where "mid = (case p of None \<Rightarrow> Some (False, ?st3)
        | Some a \<Rightarrow> do {
            q \<leftarrow> pkts (s_heap ?st3) a;
            let last = (uint (pkt_get_seqnum q) = s_last_ack_to_receive ?st3);
            let st = (if last then ?st3\<lparr>s_nb_last_ack_to := s_nb_last_ack_to ?st3 + 1\<rparr> else ?st3);
            if last \<and> s_nb_last_ack_to st = 4 then Some (True, st)
            else do { st \<leftarrow> send_pkt crc e inp st (Some a); Some (False, st) }
          })"
      have mid: "\<exists>gone st4. mid = Some (gone, st4) \<and> snd_inv crc e chunk N n ps st4"
      proof (cases p)
        case None
        then show ?thesis using inv3 by (auto simp: mid_def)
      next
        case (Some a)
        then have a: "a \<in> set ps" using lt(3) by auto
        obtain q where q: "pkts (s_heap ?st3) a = Some q" using holds_facts(2) [OF snd_inv_facts(1) [OF inv3]] a by auto
        define st4 where "st4 = (if uint (pkt_get_seqnum q) = s_last_ack_to_receive ?st3
          then ?st3\<lparr>s_nb_last_ack_to := s_nb_last_ack_to ?st3 + 1\<rparr> else ?st3)"
        have inv4: "snd_inv crc e chunk N n ps st4" using inv3 by (simp add: st4_def)
        obtain st5 where st5: "send_pkt crc e inp st4 (Some a) = Some st5" "snd_inv crc e chunk N n ps st5"
          using maybe_send_ok [OF inv4, of "Some a" inp] a by auto
        have "mid = (if uint (pkt_get_seqnum q) = s_last_ack_to_receive ?st3 \<and> s_nb_last_ack_to st4 = 4 then Some (True, st4)
            else do { st \<leftarrow> send_pkt crc e inp st4 (Some a); Some (False, st) })"
          unfolding mid_def st4_def Some option.case q bind.bind_lunit Let_def by (rule refl)
        then have "mid = (if uint (pkt_get_seqnum q) = s_last_ack_to_receive ?st3 \<and> s_nb_last_ack_to st4 = 4 then Some (True, st4)
            else Some (False, st5))" by (simp only: st5(1) bind.bind_lunit)
        then show ?thesis using inv4 st5(2) by auto
      qed
      have "turn_send crc e inp st = do { r \<leftarrow> mid; rest r }"
        unfolding turn_send_def mid_def rest_def st1(1) bind.bind_lunit
        by (simp only: st2(1) [unfolded st1(3)] st1(3) lt(1) bind.bind_lunit prod.case Let_def)
      then show ?thesis using mid rest ok1 ok2 by (fastforce simp: targets_present_def)
    qed
  qed
qed

section \<open>Reading the file\<close>

text \<open>
  What the file gives: the next piece, with a checksum that is not 0, or nothing. The end of
  the file stays the end, and the allocations succeed.
\<close>

definition file_ok :: "(bytes \<Rightarrow> u32) \<Rightarrow> (nat \<Rightarrow> bytes) \<Rightarrow> sender \<Rightarrow> sturn \<Rightarrow> bool" where
  "file_ok crc chunk st inp \<longleftrightarrow> (case u_file inp of None \<Rightarrow> True
     | Some d \<Rightarrow> (case u_pkt inp of None \<Rightarrow> False | Some (a, pkt) \<Rightarrow> pkts (s_heap st) a = None) \<and>
         (case u_node inp of None \<Rightarrow> False | Some nn \<Rightarrow> nodes (s_heap st) nn = None) \<and>
         (d \<noteq> [] \<longrightarrow> s_last_ack_to_receive st = -1 \<and> d = chunk (nat (s_nb_sended st)) \<and>
            length d \<le> MAX_PAYLOAD_SIZE \<and> crc d \<noteq> 0 \<and> u_payload_ok inp))"

lemma snd_inv_fresh:
  assumes "snd_inv crc e chunk N n ps st" "pkts (s_heap st) a = None"
  shows "snd_inv crc e chunk N n ps (st\<lparr>s_heap := (s_heap st)\<lparr>pkts := (pkts (s_heap st))(a \<mapsto> q)\<rparr>\<rparr>)"
proof -
  have sub: "set ps \<subseteq> dom (pkts (s_heap st))" by (rule holds_facts(2) [OF snd_inv_facts(1) [OF assms(1)]])
  then have "holds ((s_heap st)\<lparr>pkts := (pkts (s_heap st))(a \<mapsto> q)\<rparr>) (s_buffer st) ps"
    by (intro holds_pkts [OF snd_inv_facts(1) [OF assms(1)]]) auto
  moreover have "ps ! i \<noteq> a" if "i < length ps" for i
    using subsetD [OF sub nth_mem [OF that]] assms(2) by auto
  ultimately show ?thesis using assms(1) unfolding snd_inv_def by simp
qed

lemma snd_enqueue:
  assumes inv: "snd_inv crc e chunk N n ps st" and last: "s_last_ack_to_receive st = -1" and len: "length ps \<le> 30"
    and fresh: "pkts (s_heap st) a = None" "nodes (s_heap st) nn = None" and q: "pkt_get_seqnum q = of_nat N"
  shows "\<exists>h' b'. buffer_enqueue ((s_heap st)\<lparr>pkts := (pkts (s_heap st))(a \<mapsto> q)\<rparr>) (s_buffer st) a (Some nn) = Some (0, h', b') \<and>
    holds h' b' (ps @ [a]) \<and> pkts h' = (pkts (s_heap st))(a \<mapsto> q)"
proof -
  let ?h = "(s_heap st)\<lparr>pkts := (pkts (s_heap st))(a \<mapsto> q)\<rparr>"
  have inv1: "snd_inv crc e chunk N n ps (st\<lparr>s_heap := ?h\<rparr>)" by (rule snd_inv_fresh [OF inv fresh(1)])
  have "n + length ps = N" using snd_inv_facts(7) [OF inv] last by auto
  then have "map (pseq ?h) ps @ [pkt_get_seqnum q] = map (\<lambda>i. of_nat (n + i)) [0..<length ps + 1]"
    using snd_inv_seqs [OF inv1] q by auto
  then have "window_sorted (of_nat n) (map (pseq ?h) ps @ [pkt_get_seqnum q])"
    using consecutive_sorted [of "length ps + 1" n] len by (simp del: upt_Suc)
  from enqueue_at_end [OF _ _ _ this, of "s_buffer st" nn a] snd_inv_facts(1) [OF inv1] fresh(2)
  show ?thesis by simp
qed

lemma sent_ok_mono: "sent_ok crc e chunk N False dg \<Longrightarrow> sent_ok crc e chunk (N + 1) b dg"
  unfolding sent_ok_def
  by (elim exE conjE, rename_tac k q, rule_tac x = k in exI, rule_tac x = q in exI) (auto simp: piece_def split: if_splits)

lemma sent_ok_eof: "sent_ok crc e chunk N False dg \<Longrightarrow> sent_ok crc e chunk N True dg"
  unfolding sent_ok_def by (auto split: if_splits)

text \<open>The packet is put at the end: a piece of the file, or the end-of-file packet.\<close>

lemma snd_inv_appended:
  assumes inv: "snd_inv crc e chunk N n ps st" and last: "s_last_ack_to_receive st = -1" and len: "length ps \<le> 30"
    and a: "pkts (s_heap st) a = None" and h: "holds h' b' (ps @ [a])" "pkts h' = (pkts (s_heap st))(a \<mapsto> q)"
  shows "piece crc chunk (N + 1) N q \<Longrightarrow>
      snd_inv crc e chunk (N + 1) n (ps @ [a]) (st\<lparr>s_seqnum := (s_seqnum st + 1) mod MAX_SEQNUM,
        s_nb_sended := s_nb_sended st + 1, s_heap := h', s_buffer := b'\<rparr>)"
    and "piece crc chunk N N q \<Longrightarrow>
      snd_inv crc e chunk N n (ps @ [a]) (st\<lparr>s_last_ack_to_receive := s_seqnum st, s_heap := h', s_buffer := b'\<rparr>)"
proof -
  have N: "n + length ps = N" using snd_inv_facts(7) [OF inv] last by auto
  have sub: "set ps \<subseteq> dom (pkts (s_heap st))" by (rule holds_facts(2) [OF snd_inv_facts(1) [OF inv]])
  have old: "\<exists>r. pkts h' ((ps @ [a]) ! i) = Some r \<and> piece crc chunk N (n + i) r" if i: "i < length ps" for i
  proof -
    have "ps ! i \<noteq> a" using subsetD [OF sub nth_mem [OF i]] a by auto
    then show ?thesis using snd_inv_facts(6) [OF inv i] i h(2) by (simp add: nth_append)
  qed
  have up: "piece crc chunk N k r \<Longrightarrow> k < N \<Longrightarrow> piece crc chunk (N + 1) k r" for k r by (simp add: piece_def)
  show "snd_inv crc e chunk (N + 1) n (ps @ [a]) (st\<lparr>s_seqnum := (s_seqnum st + 1) mod MAX_SEQNUM,
        s_nb_sended := s_nb_sended st + 1, s_heap := h', s_buffer := b'\<rparr>)" if p: "piece crc chunk (N + 1) N q"
  proof -
    have "\<exists>r. pkts h' ((ps @ [a]) ! i) = Some r \<and> piece crc chunk (N + 1) (n + i) r" if i: "i < length (ps @ [a])" for i
    proof (cases "i < length ps")
      case True
      then show ?thesis using old [OF True] up N by (metis nat_add_left_cancel_less)
    next
      case False
      then have "i = length ps" using i by simp
      then show ?thesis using p h(2) N by simp
    qed
    moreover have "(int (N mod 256) + 1) mod MAX_SEQNUM = int ((N + 1) mod 256)"
      by (simp add: MAX_SEQNUM_def zmod_int mod_simps add.commute)
    moreover have "sent_ok crc e chunk (N + 1) False dg" if "dg \<in> set (s_out st)" for dg
      using snd_inv_facts(8) [OF inv that] last sent_ok_mono by simp
    ultimately show ?thesis using inv h(1) N len last unfolding snd_inv_def by simp
  qed
  show "snd_inv crc e chunk N n (ps @ [a]) (st\<lparr>s_last_ack_to_receive := s_seqnum st, s_heap := h', s_buffer := b'\<rparr>)"
    if p: "piece crc chunk N N q"
  proof -
    have "\<exists>r. pkts h' ((ps @ [a]) ! i) = Some r \<and> piece crc chunk N (n + i) r" if i: "i < length (ps @ [a])" for i
    proof (cases "i < length ps")
      case False
      then have "i = length ps" using i by simp
      then show ?thesis using p h(2) N by simp
    qed (rule old)
    moreover have "sent_ok crc e chunk N True dg" if "dg \<in> set (s_out st)" for dg
      using snd_inv_facts(8) [OF inv that] last sent_ok_eof by simp
    moreover have "int (N mod 256) \<noteq> -1" by simp
    ultimately show ?thesis using inv h(1) N len last unfolding snd_inv_def by simp
  qed
qed

text \<open>The packet \<open>read_file\<close> makes out of a block and what it read.\<close>

definition file_pkt :: "sender \<Rightarrow> bytes \<Rightarrow> pkt \<Rightarrow> pkt" where
  "file_pkt st d pkt = (snd (pkt_set_window (pkt\<lparr>p_type := 1, p_tr := 0\<rparr>) (word_of_int (s_window st))))
     \<lparr>p_timestamp := 0, p_seqnum := word_of_int (s_seqnum st), p_length := of_nat (length d),
      p_payload := (if d = [] then p_payload pkt else Some d)\<rparr>"

lemma file_pkt_fields [simp]:
  "p_type (file_pkt st d pkt) = 1" "p_tr (file_pkt st d pkt) = 0"
  "p_seqnum (file_pkt st d pkt) = word_of_int (s_seqnum st)" "p_length (file_pkt st d pkt) = of_nat (length d)"
  "d \<noteq> [] \<Longrightarrow> p_payload (file_pkt st d pkt) = Some d"
  by (simp_all add: file_pkt_def pkt_set_window_def)

lemma read_file_reads:
  assumes "int (b_size (s_buffer st)) < s_window st" "u_file inp = Some d" "u_pkt inp = Some (a, pkt)"
    "length d \<le> MAX_PAYLOAD_SIZE" "d \<noteq> [] \<Longrightarrow> u_payload_ok inp"
  shows "read_file inp st = Some (Some a,
    let st' = (if d = [] then st
      else st\<lparr>s_seqnum := (s_seqnum st + 1) mod MAX_SEQNUM, s_nb_sended := s_nb_sended st + 1\<rparr>) in
    st'\<lparr>s_heap := (s_heap st)\<lparr>pkts := (pkts (s_heap st))(a \<mapsto> file_pkt st d pkt)\<rparr>\<rparr>)"
proof -
  have ty: "snd (pkt_set_type pkt PTYPE_DATA) = pkt\<lparr>p_type := 1\<rparr>" by (simp add: pkt_set_type_def)
  have len: "unat (of_nat (length d) :: u16) = length d"
    using assms(4) by (simp add: unat_of_nat)
  show ?thesis
  proof (cases "d = []")
    case True
    then show ?thesis using assms(1-3)
      by (simp add: read_file_def Let_def ty file_pkt_def pkt_set_seqnum_def pkt_set_timestamp_def pkt_set_length_def pkt_set_window_def)
  next
    case False
    then have "(of_nat (length d) :: u16) \<noteq> 0" using len by (metis length_0_conv unat_eq_zero)
    moreover have "\<not> (of_nat (length d) :: u16) > 512" using len assms(4) by (simp add: word_less_nat_alt)
    ultimately have "pkt_set_payload (u_payload_ok inp) p (Some d) (of_nat (length d)) =
        Some (PKT_OK, p\<lparr>p_length := of_nat (length d), p_payload := Some d\<rparr>)" for p
      using assms(4,5) len False by (simp add: pkt_set_payload_def pkt_set_length_def read_bytes_def)
    then show ?thesis using assms(1-3) False
      by (simp add: read_file_def Let_def ty file_pkt_def pkt_set_seqnum_def pkt_set_timestamp_def pkt_set_window_def)
  qed
qed

lemma seq_of_nat: "uint (of_nat n :: u8) = int (n mod 256)"
  by (simp add: unsigned_of_nat take_bit_eq_mod)

lemma of_nat_mod_256: "(of_nat (n mod 256) :: u8) = of_nat n"
  using seq_of_nat [of "n mod 256"] seq_of_nat [of n]
  by (metis mod_mod_trivial word_uint_eq_iff)

lemma snd_inv_piece_of_file:
  assumes inv: "snd_inv crc e chunk N n ps st"
  shows "d \<noteq> [] \<Longrightarrow> d = chunk N \<Longrightarrow> length d \<le> MAX_PAYLOAD_SIZE \<Longrightarrow> crc d \<noteq> 0 \<Longrightarrow>
      piece crc chunk (N + 1) N (file_pkt st d pkt)"
    and "piece crc chunk N N (file_pkt st [] pkt)"
    and "pkt_get_seqnum (file_pkt st d pkt) = of_nat N"
proof -
  have s: "(word_of_int (s_seqnum st) :: u8) = of_nat N"
    using snd_inv_facts(3) [OF inv] by (simp add: of_nat_mod_256)
  then show seq: "pkt_get_seqnum (file_pkt st d pkt) = of_nat N" for d by (simp add: pkt_get_seqnum_def)
  show "piece crc chunk N N (file_pkt st [] pkt)" using seq by (simp add: piece_def)
  show "piece crc chunk (N + 1) N (file_pkt st d pkt)"
    if "d \<noteq> []" "d = chunk N" "length d \<le> MAX_PAYLOAD_SIZE" "crc d \<noteq> 0"
    using that seq by (simp add: piece_def sendable_def unat_of_nat)
qed

text \<open>Once the end-of-file packet is there, nothing is added.\<close>

definition file_progress :: "nat \<Rightarrow> sender \<Rightarrow> nat \<Rightarrow> sender \<Rightarrow> bool" where
  "file_progress N st N' st' \<longleftrightarrow> N \<le> N' \<and>
     (s_last_ack_to_receive st \<noteq> -1 \<longrightarrow> N' = N \<and> s_last_ack_to_receive st' = s_last_ack_to_receive st)"

lemma turn_file_appends:
  assumes inv: "snd_inv crc e chunk N n ps st" and last: "s_last_ack_to_receive st = -1"
    and room: "int (b_size (s_buffer st)) < s_window st"
    and inp: "u_file inp = Some d" "u_pkt inp = Some (a, pkt)" "u_node inp = Some nn"
    and fresh: "pkts (s_heap st) a = None" "nodes (s_heap st) nn = None"
    and ok: "d \<noteq> [] \<Longrightarrow> d = chunk N \<and> length d \<le> MAX_PAYLOAD_SIZE \<and> crc d \<noteq> 0 \<and> u_payload_ok inp"
  shows "\<exists>h b st'. turn_file inp st = Some st' \<and> pkts h = (pkts (s_heap st))(a \<mapsto> file_pkt st d pkt) \<and>
    snd_inv crc e chunk (if d = [] then N else N + 1) n (ps @ [a]) st' \<and>
    st' = (if d = [] then st\<lparr>s_last_ack_to_receive := s_seqnum st, s_heap := h, s_buffer := b\<rparr>
      else st\<lparr>s_seqnum := (s_seqnum st + 1) mod MAX_SEQNUM, s_nb_sended := s_nb_sended st + 1, s_heap := h, s_buffer := b\<rparr>)"
proof -
  let ?q = "file_pkt st d pkt" let ?h = "(s_heap st)\<lparr>pkts := (pkts (s_heap st))(a \<mapsto> file_pkt st d pkt)\<rparr>"
  have "length d \<le> MAX_PAYLOAD_SIZE" using ok by (cases "d = []") auto
  note read = read_file_reads [OF room inp(1,2) this] ok
  have "length ps \<le> 30" using room holds_facts(3) [OF snd_inv_facts(1) [OF inv]] snd_inv_facts(4) [OF inv] by simp
  note app = snd_enqueue [OF inv last this fresh snd_inv_piece_of_file(3) [OF inv]] snd_inv_appended [OF inv last this fresh(1)]
  obtain h' b' where e: "buffer_enqueue ?h (s_buffer st) a (Some nn) = Some (0, h', b')"
    "holds h' b' (ps @ [a])" "pkts h' = (pkts (s_heap st))(a \<mapsto> ?q)" using app(1) by blast
  have pr: "\<exists>r. buffer_print h' b' = Some r" using holds_print [OF e(2)] by blast
  show ?thesis
  proof (cases "d = []")
    case True
    have "turn_file inp st = Some (st\<lparr>s_last_ack_to_receive := s_seqnum st, s_heap := h', s_buffer := b'\<rparr>)"
      using read True last e(1) inp(3) pr snd_inv_facts(3) [OF inv] seq_of_nat [of "N mod 256"]
      by (auto simp: turn_file_def pkt_get_length_def pkt_get_seqnum_def)
    then show ?thesis using app(3) [OF e(2,3)] snd_inv_piece_of_file(2) [OF inv] e(3) True by auto
  next
    case False
    then have "unat (p_length ?q) = length d" using ok by (auto simp: unat_of_nat)
    then have "p_length ?q \<noteq> 0" using False by auto
    then have "turn_file inp st = Some (st\<lparr>s_seqnum := (s_seqnum st + 1) mod MAX_SEQNUM,
        s_nb_sended := s_nb_sended st + 1, s_heap := h', s_buffer := b'\<rparr>)"
      using read False last e(1) inp(3) pr by (auto simp: turn_file_def pkt_get_length_def)
    then show ?thesis using app(2) [OF e(2,3)] snd_inv_piece_of_file(1) [OF inv False] ok False e(3) by auto
  qed
qed

lemma turn_file_ok:
  assumes inv: "snd_inv crc e chunk N n ps st" and f: "file_ok crc chunk st inp"
  shows "\<exists>N' ps' st'. turn_file inp st = Some st' \<and> snd_inv crc e chunk N' n ps' st' \<and>
    file_progress N st N' st'"
proof (cases "int (b_size (s_buffer st)) \<ge> s_window st \<or> u_file inp = None")
  case True
  then have "read_file inp st = Some (None, st)" by (auto simp: read_file_def)
  then show ?thesis using inv by (auto simp: turn_file_def file_progress_def)
next
  case False
  then obtain d where d: "u_file inp = Some d" "int (b_size (s_buffer st)) < s_window st" by auto
  obtain a pkt nn where a: "u_pkt inp = Some (a, pkt)" "pkts (s_heap st) a = None"
    "u_node inp = Some nn" "nodes (s_heap st) nn = None"
    using f d(1) by (auto simp: file_ok_def split: option.splits prod.splits)
  have ok: "d \<noteq> [] \<Longrightarrow> s_last_ack_to_receive st = -1 \<and> d = chunk N \<and> length d \<le> MAX_PAYLOAD_SIZE \<and>
      crc d \<noteq> 0 \<and> u_payload_ok inp"
    using f d(1) snd_inv_facts(2) [OF inv] by (auto simp: file_ok_def split: option.splits prod.splits)
  show ?thesis
  proof (cases "s_last_ack_to_receive st = -1")
    case False
    then have "d = []" using ok by auto
    let ?st = "st\<lparr>s_heap := (s_heap st)\<lparr>pkts := (pkts (s_heap st))(a \<mapsto> file_pkt st d pkt)\<rparr>\<rparr>"
    have "turn_file inp st = Some ?st" using read_file_reads [OF d(2,1) a(1)] \<open>d = []\<close> False by (simp add: turn_file_def)
    moreover have "file_progress N st N ?st" by (simp add: file_progress_def)
    ultimately show ?thesis using snd_inv_fresh [OF inv a(2)] by blast
  next
    case True
    have "file_progress N st N' st'" if "N \<le> N'" for N' st' using True that by (simp add: file_progress_def)
    moreover obtain st' where "turn_file inp st = Some st'" "snd_inv crc e chunk (if d = [] then N else N + 1) n (ps @ [a]) st'"
      using turn_file_appends [OF inv True d(2,1) a(1,3,2,4)] ok by blast
    ultimately show ?thesis by (metis le_add1 order_refl)
  qed
qed

section \<open>Acknowledgements\<close>

definition ack_refused :: "sender \<Rightarrow> pkt \<Rightarrow> bool" where
  "ack_refused st pkt \<longleftrightarrow> uint (pkt_get_seqnum pkt) > s_nb_sended st + 1 \<or>
     (s_last_ack_to_receive st \<noteq> -1 \<and> uint (pkt_get_seqnum pkt) > s_last_ack_to_receive st)"

lemma ack_guard:
  "(uint (pkt_get_seqnum pkt) > s_nb_sended st + 1 mod MAX_SEQNUM \<or>
    (s_last_ack_to_receive st \<noteq> -1 \<and> uint (pkt_get_seqnum pkt) > s_last_ack_to_receive st)) = ack_refused st pkt"
  by (simp add: ack_refused_def MAX_SEQNUM_def)

lemma handle_ack_refused: "ack_refused st pkt \<Longrightarrow> handle_ack inp pkt st = Some st"
  unfolding handle_ack_def Let_def ack_guard by simp

lemma handle_ack_nack:
  "\<not> ack_refused st pkt \<Longrightarrow> pkt_get_type pkt = PTYPE_NACK \<Longrightarrow>
     handle_ack inp pkt st = Some (st\<lparr>s_pkt_tr := uint (pkt_get_seqnum pkt)\<rparr>)"
  unfolding handle_ack_def Let_def ack_guard by simp

text \<open>An acknowledgement: what is removed from the buffer, and the control variables.\<close>

lemma handle_ack_accepted:
  assumes "\<not> ack_refused st pkt" "pkt_get_type pkt \<noteq> PTYPE_NACK"
    "buffer_remove_acked (s_heap st) (s_buffer st) (pkt_get_seqnum pkt) = Some (c, h, b)" "holds h b ps'"
  shows "\<exists>st'. handle_ack inp pkt st = Some st' \<and> s_heap st' = h \<and> s_buffer st' = b \<and>
    s_window st' = uint (pkt_get_window pkt) \<and> s_nb_sended st' = s_nb_sended st \<and> s_seqnum st' = s_seqnum st \<and>
    s_last_ack_to_receive st' = s_last_ack_to_receive st \<and> s_out st' = s_out st \<and> s_pkt_tr st' = s_pkt_tr st \<and> s_buf_ack st' = s_buf_ack st \<and>
    s_ack_received st' = (if c > 0 \<or> s_last_ack_to_receive st \<noteq> -1 then -1 else uint (pkt_get_seqnum pkt)) \<and>
    s_EOF_ACKED st' = s_EOF_ACKED st + (if s_last_ack_to_receive st = uint (pkt_get_seqnum pkt) then 1 else 0)"
proof -
  obtain r where "buffer_print h b = Some r" using holds_print [OF assms(4)] by blast
  moreover have "uint (pkt_get_seqnum pkt) \<noteq> -1" by (metis uint_ge_0 not_one_le_zero minus_equation_iff neg_0_le_iff_le)
  ultimately show ?thesis using assms(1-3)
    unfolding handle_ack_def Let_def ack_guard by simp
qed

lemma snd_inv_cong:
  assumes "s_heap st' = s_heap st" "s_buffer st' = s_buffer st" "s_nb_sended st' = s_nb_sended st"
    "s_seqnum st' = s_seqnum st" "s_window st' = s_window st" "s_last_ack_to_receive st' = s_last_ack_to_receive st"
    "s_out st' = s_out st" "s_buf_ack st' = s_buf_ack st"
  shows "snd_inv crc e chunk N n ps st' = snd_inv crc e chunk N n ps st"
  unfolding snd_inv_def assms by (rule refl)

lemma window_31: "uint (pkt_get_window pkt) \<le> 31"
proof -
  have "unat (p_window pkt) < 2 ^ 5" using unsigned_less [of "p_window pkt", where ?'a = nat] by simp
  then have "unat (pkt_get_window pkt) \<le> 31" by (simp add: pkt_get_window_def unat_ucast_up)
  then show ?thesis unfolding uint_nat by linarith
qed

lemma snd_inv_dropped:
  assumes inv: "snd_inv crc e chunk N n ps st" and j: "j \<le> length ps"
    and h: "holds h b (drop j ps)" "pkts h = pkts (s_heap st) |` (- set (take j ps))" and w: "w \<le> 31"
  shows "snd_inv crc e chunk N (n + j) (drop j ps) (st\<lparr>s_heap := h, s_buffer := b, s_window := w\<rparr>)"
proof -
  have d: "set (take j ps) \<inter> set (drop j ps) = {}"
    using holds_facts(1) [OF snd_inv_facts(1) [OF inv]] by (simp add: set_take_disj_set_drop_if_distinct)
  have "\<exists>q. pkts h (drop j ps ! i) = Some q \<and> piece crc chunk N (n + j + i) q" if i: "i < length (drop j ps)" for i
  proof -
    have "drop j ps ! i \<notin> set (take j ps)" using nth_mem [OF i] d by blast
    then show ?thesis using snd_inv_facts(6) [OF inv, of "j + i"] i j by (simp add: h(2) add.assoc)
  qed
  then show ?thesis using inv j h(1) w unfolding snd_inv_def by auto
qed

text \<open>The buffer starts with packet \<open>n\<close> before, with \<open>n'\<close> after the acknowledgement \<open>pkt\<close>.\<close>

definition acked_to :: "pkt \<Rightarrow> nat \<Rightarrow> nat \<Rightarrow> bool" where
  "acked_to pkt n n' \<longleftrightarrow> n' = n \<or>
     pkt_get_type pkt \<noteq> PTYPE_NACK \<and> n \<le> n' \<and> n' \<le> n + 30 \<and> pkt_get_seqnum pkt = of_nat n'"

lemma handle_ack_ok:
  assumes inv: "snd_inv crc e chunk N n ps st"
  shows "\<exists>n' ps' st'. handle_ack inp pkt st = Some st' \<and> snd_inv crc e chunk N n' ps' st' \<and> acked_to pkt n n' \<and>
    s_last_ack_to_receive st' = s_last_ack_to_receive st"
proof -
  let ?s = "pkt_get_seqnum pkt"
  consider "ack_refused st pkt" | "\<not> ack_refused st pkt" "pkt_get_type pkt = PTYPE_NACK"
    | "\<not> ack_refused st pkt" "pkt_get_type pkt \<noteq> PTYPE_NACK" by blast
  then show ?thesis
  proof cases
    case 1
    then show ?thesis using handle_ack_refused inv by (auto simp: acked_to_def)
  next
    case 2
    have "handle_ack inp pkt st = Some (st\<lparr>s_pkt_tr := uint ?s\<rparr>)" by (rule handle_ack_nack [OF 2])
    moreover have "snd_inv crc e chunk N n ps (st\<lparr>s_pkt_tr := uint ?s\<rparr>)" using inv by simp
    moreover have "acked_to pkt n n" by (simp add: acked_to_def)
    ultimately show ?thesis by auto
  next
    case 3
    obtain c h b j where r: "buffer_remove_acked (s_heap st) (s_buffer st) ?s = Some (c, h, b)" "j \<le> length ps"
      "holds h b (drop j ps)" "pkts h = pkts (s_heap st) |` (- set (take j ps))" "acked_to pkt n (n + j)"
    proof (cases "?s \<in> set (map (pseq (s_heap st)) ps)")
      case True
      let ?j = "length (takeWhile (\<lambda>p. pseq (s_heap st) p \<noteq> ?s) ps)"
      have "take ?j ps = takeWhile (\<lambda>p. pseq (s_heap st) p \<noteq> ?s) ps"
        "drop ?j ps = dropWhile (\<lambda>p. pseq (s_heap st) p \<noteq> ?s) ps"
        by (simp_all add: dropWhile_eq_drop takeWhile_eq_take flip: takeWhile_eq_take)
      moreover have "acked_to pkt n (n + ?j)"
      proof -
        have "takeWhile (\<lambda>p. pseq (s_heap st) p \<noteq> ?s) ps \<noteq> ps"
          using True by (auto simp: takeWhile_eq_all_conv)
        then have j: "?j < length ps"
          by (metis le_neq_implies_less length_takeWhile_le order_refl take_all takeWhile_eq_take)
        then have "pseq (s_heap st) (ps ! ?j) = ?s" using nth_length_takeWhile [of "\<lambda>p. pseq (s_heap st) p \<noteq> ?s" ps] by simp
        moreover obtain q where "pkts (s_heap st) (ps ! ?j) = Some q" "piece crc chunk N (n + ?j) q"
          using snd_inv_facts(6) [OF inv j] by blast
        ultimately have "?s = of_nat (n + ?j)" by (simp add: pseq_def piece_def)
        then show ?thesis using 3(2) j snd_inv_facts(5) [OF inv] by (simp add: acked_to_def)
      qed
      ultimately show ?thesis using that [of ?j] holds_remove_acked [OF snd_inv_facts(1) [OF inv] True] length_takeWhile_le by metis
    next
      case False
      then show ?thesis
        using that [of 0 "s_heap st" "s_buffer st" 0] holds_remove_acked_absent [OF snd_inv_facts(1) [OF inv] False]
          snd_inv_facts(1) [OF inv] by (simp add: restrict_map_def acked_to_def)
    qed
    obtain st' where st': "handle_ack inp pkt st = Some st'" "s_heap st' = h" "s_buffer st' = b"
      "s_window st' = uint (pkt_get_window pkt)" "s_nb_sended st' = s_nb_sended st" "s_seqnum st' = s_seqnum st"
      "s_last_ack_to_receive st' = s_last_ack_to_receive st" "s_out st' = s_out st" "s_buf_ack st' = s_buf_ack st"
      using handle_ack_accepted [OF 3 r(1,3), of inp] by blast
    have "snd_inv crc e chunk N (n + j) (drop j ps) st'"
      using snd_inv_dropped [OF inv r(2-4) window_31]
      by (rule iffD1 [OF snd_inv_cong, rotated -1]) (simp_all add: st')
    then show ?thesis using st'(1,7) r(5) by blast
  qed
qed

text \<open>The buffer of 10 bytes is enough for a datagram that does not claim to be a DATA segment.\<close>

definition not_data :: "bytes \<Rightarrow> bool" where
  "not_data d \<longleftrightarrow> (ucast (drop_bit 6 (hd d AND 0xC0)) :: 2 word) \<noteq> 1"

lemma ack_wire_not_data: "p_type p \<noteq> 1 \<Longrightarrow> not_data (ack_wire crc e p)"
  using head_type [of p] by (simp add: not_data_def ack_wire_def ack_header_def del: push_bit_and ucast_drop_bit_eq)

lemma decode_control_defined:
  assumes "length m = ACK_SIZE" "len < 10 \<or> not_data m"
  shows "\<exists>code p. pkt_decode crc e ok (Some m) len q = Some (code, p)"
proof (cases "len < 10 \<or> len > 528")
  case True
  then show ?thesis by (auto simp: pkt_decode_def)
next
  case False
  have "take 1 m = [hd m]" using assms(1) by (cases m) (auto simp: ACK_SIZE_def)
  moreover have "(ucast (drop_bit 6 (hd m AND 0xC0)) :: 2 word) \<noteq> 1" using assms(2) False by (simp add: not_data_def)
  ultimately show ?thesis using assms(1) False
    by (auto simp: decode_unfold ACK_SIZE_def split: if_splits prod.splits)
qed

definition ack_ok :: "sturn \<Rightarrow> bool" where
  "ack_ok inp \<longleftrightarrow> (case u_ack inp of None \<Rightarrow> True | Some d \<Rightarrow> length d < ACK_SIZE \<or> not_data d)"

text \<open>The buffer moves on only when an acknowledgement was decoded.\<close>

definition ack_progress :: "(bytes \<Rightarrow> u32) \<Rightarrow> endian \<Rightarrow> sturn \<Rightarrow> nat \<Rightarrow> nat \<Rightarrow> bool" where
  "ack_progress crc e inp n n' \<longleftrightarrow> n' = n \<or> u_sock_in inp \<and> (\<exists>d block p. u_ack inp = Some d \<and> ACK_SIZE \<le> length d \<and>
     pkt_decode crc e (u_payload_ok inp) (Some (take ACK_SIZE d)) ACK_SIZE block = Some (PKT_OK, p) \<and>
     pkt_get_type p \<noteq> PTYPE_DATA \<and> acked_to p n n')"

lemma turn_ack_ok:
  assumes inv: "snd_inv crc e chunk N n ps st" and a: "ack_ok inp" and "u_sock_in inp"
  shows "\<exists>n' ps' st'. turn_ack crc e inp st = Some st' \<and> snd_inv crc e chunk N n' ps' st' \<and>
    ack_progress crc e inp n n' \<and> s_last_ack_to_receive st' = s_last_ack_to_receive st"
proof (cases "u_ack inp")
  case None
  then show ?thesis using inv by (auto simp: turn_ack_def ack_progress_def)
next
  case (Some dgram)
  let ?d = "take ACK_SIZE dgram" let ?m = "?d @ drop (length ?d) (s_buf_ack st)" let ?st = "st\<lparr>s_buf_ack := ?m\<rparr>"
  have len: "length ?m = ACK_SIZE" using snd_inv_facts(9) [OF inv] by simp
  then have inv1: "snd_inv crc e chunk N n ps ?st" using inv unfolding snd_inv_def by simp
  have "length ?d < 10 \<or> not_data ?m"
    using a Some by (cases dgram) (auto simp: ack_ok_def not_data_def ACK_SIZE_def)
  from decode_control_defined [OF len this, of crc e "u_payload_ok inp"]
  have dec: "\<exists>code p. pkt_decode crc e (u_payload_ok inp) (Some ?m) (length ?d) q = Some (code, p)" for q by blast
  show ?thesis
  proof (cases "u_ack_new inp")
    case None
    then have "turn_ack crc e inp st = Some ?st" using Some by (simp add: turn_ack_def Let_def)
    then show ?thesis using inv1 by (auto simp: ack_progress_def)
  next
    case block: (Some block)
    obtain code p where p: "pkt_decode crc e (u_payload_ok inp) (Some ?m) (length ?d) block = Some (code, p)" using dec by blast
    then have eq: "turn_ack crc e inp st = (if code \<noteq> PKT_OK \<or> pkt_get_type p = PTYPE_DATA then Some ?st else handle_ack inp p ?st)"
      using Some block by (simp add: turn_ack_def Let_def)
    show ?thesis
    proof (cases "code \<noteq> PKT_OK \<or> pkt_get_type p = PTYPE_DATA")
      case True
      then show ?thesis using inv1 eq by (auto simp: ack_progress_def)
    next
      case False
      have "ACK_SIZE \<le> length dgram"
        using p False by (auto simp: pkt_decode_def ACK_SIZE_def min_def split: if_splits)
      moreover from this have "?m = take ACK_SIZE dgram" "length ?d = ACK_SIZE"
        using snd_inv_facts(9) [OF inv] by simp_all
      ultimately have "ack_progress crc e inp n n'" if "acked_to p n n'" for n'
        using that p False Some assms(3) unfolding ack_progress_def by auto
      moreover have "turn_ack crc e inp st = handle_ack inp p ?st" using eq False by simp
      moreover obtain n' ps' st' where "handle_ack inp p ?st = Some st'" "snd_inv crc e chunk N n' ps' st'" "acked_to p n n'"
        "s_last_ack_to_receive st' = s_last_ack_to_receive ?st" using handle_ack_ok [OF inv1, of inp p] by blast
      ultimately show ?thesis by auto
    qed
  qed
qed

section \<open>A turn and a run\<close>

definition snd_input_ok :: "(bytes \<Rightarrow> u32) \<Rightarrow> (nat \<Rightarrow> bytes) \<Rightarrow> sender \<Rightarrow> sturn \<Rightarrow> bool" where
  "snd_input_ok crc chunk st inp \<longleftrightarrow> file_ok crc chunk st inp \<and> ack_ok inp"

lemma snd_inv_last:
  assumes "snd_inv crc e chunk N n ps st" "snd_inv crc e chunk N n ps st'"
  shows "s_last_ack_to_receive st' = s_last_ack_to_receive st"
  using snd_inv_facts(7) [OF assms(1)] snd_inv_facts(7) [OF assms(2)] by auto

lemma sender_turn_ok:
  assumes inv: "snd_inv crc e chunk N n ps st" and ok: "snd_input_ok crc chunk st inp"
    and run: "sender_turn crc e inp st = Some (gone, st')"
  shows "\<exists>N' n' ps'. snd_inv crc e chunk N' n' ps' st' \<and> file_progress N st N' st' \<and> ack_progress crc e inp n n'"
proof (cases "u_ready inp = -1")
  case True
  then have "st' = st\<lparr>s_ready := -1\<rparr>" using run by (simp add: sender_turn_def)
  then have "snd_inv crc e chunk N n ps st'" "file_progress N st N st'" "ack_progress crc e inp n n"
    using inv by (simp_all add: file_progress_def ack_progress_def)
  then show ?thesis by blast
next
  case False
  let ?st = "st\<lparr>s_ready := u_ready inp\<rparr>"
  have inv0: "snd_inv crc e chunk N n ps ?st" using inv by simp
  have "file_ok crc chunk ?st inp" using ok by (auto simp: snd_input_ok_def file_ok_def split: option.splits)
  then obtain N1 ps1 st1 where st1: "(if u_file_in inp then turn_file inp ?st else Some ?st) = Some st1"
    "snd_inv crc e chunk N1 n ps1 st1" "file_progress N ?st N1 st1"
    using turn_file_ok [OF inv0, of inp] inv0 by (cases "u_file_in inp") (auto simp: file_progress_def)
  obtain g st2 where st2: "(if u_sock_out inp then turn_send crc e inp st1 else Some (False, st1)) = Some (g, st2)"
    using run False st1(1) by (auto simp: sender_turn_def bind_eq_Some_conv split: if_splits)
  have inv2: "snd_inv crc e chunk N1 n ps1 st2"
  proof (cases "u_sock_out inp")
    case True
    then show ?thesis using turn_send_ok [OF st1(2), of inp] st2 by (auto split: if_splits)
  qed (use st1(2) st2 in simp)
  have rest: "sender_turn crc e inp st = (if g then Some (True, st2)
      else do { st \<leftarrow> (if u_sock_in inp then turn_ack crc e inp st2 else Some st2); Some (False, st) })"
    unfolding sender_turn_def Let_def using False st1(1) st2 by simp
  have prog: "file_progress N st N1 st''" if "s_last_ack_to_receive st'' = s_last_ack_to_receive st2" for st''
    using st1(3) that snd_inv_last [OF st1(2) inv2] by (auto simp: file_progress_def)
  have ack: "ack_ok inp" using ok by (simp add: snd_input_ok_def)
  show ?thesis
  proof (cases "g \<or> \<not> u_sock_in inp")
    case True
    then have "st' = st2" using run rest by (auto split: if_splits)
    then show ?thesis using inv2 prog [of st2] by (auto simp: ack_progress_def)
  next
    case False
    then obtain n' ps' st3 where "turn_ack crc e inp st2 = Some st3" "snd_inv crc e chunk N1 n' ps' st3"
      "ack_progress crc e inp n n'" "s_last_ack_to_receive st3 = s_last_ack_to_receive st2"
      using turn_ack_ok [OF inv2 ack] by blast
    moreover from this(1) have "st' = st3" using run rest False by simp
    ultimately show ?thesis using prog by blast
  qed
qed

text \<open>The states a run of \<open>read_write_loop_sender\<close> may reach, from a heap without nodes.\<close>

inductive sender_run :: "(bytes \<Rightarrow> u32) \<Rightarrow> endian \<Rightarrow> (nat \<Rightarrow> bytes) \<Rightarrow> sender \<Rightarrow> bool" for crc e chunk where
  start: "nodes h = Map.empty \<Longrightarrow> length b = ACK_SIZE \<Longrightarrow> sender_run crc e chunk (sender_init h b)"
| turn: "sender_run crc e chunk st \<Longrightarrow> sender_running st \<Longrightarrow> snd_input_ok crc chunk st inp \<Longrightarrow>
    sender_turn crc e inp st = Some (gone, st') \<Longrightarrow> sender_run crc e chunk st'"

lemma sender_init_inv:
  "nodes h = Map.empty \<Longrightarrow> length b = ACK_SIZE \<Longrightarrow> snd_inv crc e chunk 0 0 [] (sender_init h b)"
  by (simp add: snd_inv_def sender_init_def holds_init)

lemma sender_run_inv: "sender_run crc e chunk st \<Longrightarrow> \<exists>N n ps. snd_inv crc e chunk N n ps st"
proof (induction rule: sender_run.induct)
  case (start h b)
  then show ?case using sender_init_inv by blast
next
  case (turn st inp gone st')
  then show ?case using sender_turn_ok by blast
qed

section \<open>The scan for expired packets\<close>

text \<open>With one value \<open>now\<close> of the clock for the whole scan.\<close>

definition first_expired :: "u32 \<Rightarrow> heap \<Rightarrow> addr list \<Rightarrow> addr option" where
  "first_expired now h ps = find (\<lambda>p. expired now (the (pkts h p))) ps"

definition rescheduled :: "u32 \<Rightarrow> heap \<Rightarrow> addr list \<Rightarrow> addr option \<Rightarrow> addr \<Rightarrow> pkt option" where
  "rescheduled now h ps f p = (if p \<in> set ps \<and> expired now (the (pkts h p))
     then Some ((the (pkts h p))\<lparr>p_timestamp := (if f = Some p then now else now - 1)\<rparr>) else pkts h p)"

lemma timedout_loop_scan:
  "rep h b (xs @ ys) \<Longrightarrow> (ys \<noteq> [] \<longrightarrow> cur = Some (hd ys)) \<Longrightarrow> u_times inp = (\<lambda>_. now) \<Longrightarrow>
   found \<notin> Some ` set (map (pk h) ys) \<Longrightarrow>
   let f = (if found = None then first_expired now h (map (pk h) ys) else found) in
   timedout_loop inp h i (length ys) cur found = Some (f, h\<lparr>pkts := rescheduled now h (map (pk h) ys) f\<rparr>)"
proof (induction ys arbitrary: xs h i cur found)
  case Nil
  have "rescheduled now h [] f = pkts h" for f by (rule ext) (simp add: rescheduled_def)
  then show ?case by (simp add: first_expired_def Let_def)
next
  case (Cons y ys)
  obtain q where q: "pkts h (pk h y) = Some q" using Cons.prems(1) by (auto simp: rep_def)
  let ?next = "Some (hd (ys @ xs @ [y]))"
  have nx: "ys \<noteq> [] \<longrightarrow> ?next = Some (hd ys)" by simp
  have y: "pk h y \<notin> set (map (pk h) ys)" using rep_facts(6) [OF Cons.prems(1)] by auto
  show ?case
  proof (cases "expired now q")
    case False
    have "timedout_loop inp h i (length (y # ys)) cur found = timedout_loop inp h (i + 1) (length ys) ?next found"
      using timedout_step [OF Cons.prems(1) q, of inp i found] False Cons.prems(2,3) by (simp del: timedout_loop.simps)
    moreover have "first_expired now h (map (pk h) (y # ys)) = first_expired now h (map (pk h) ys)"
      using False q by (simp add: first_expired_def)
    moreover have "rescheduled now h (map (pk h) (y # ys)) f = rescheduled now h (map (pk h) ys) f" for f
      using False q by (intro ext) (auto simp: rescheduled_def)
    ultimately show ?thesis using Cons.IH [of h "xs @ [y]" ?next found "i + 1"] Cons.prems nx
      unfolding Let_def by (simp del: timedout_loop.simps)
  next
    case True
    let ?t = "if found = None then now else now - 1"
    let ?h = "h\<lparr>pkts := (pkts h)(pk h y \<mapsto> q\<lparr>p_timestamp := ?t\<rparr>)\<rparr>"
    let ?f = "if found = None then Some (pk h y) else found"
    have rt: "retimed h ?h" using q by (rule retimed_one)
    have pk: "pk ?h = pk h" by (rule ext) (simp add: pk_def)
    have "timedout_loop inp h i (length (y # ys)) cur found = timedout_loop inp ?h (i + 1) (length ys) ?next ?f"
      using timedout_step [OF Cons.prems(1) q, of inp i found] True Cons.prems(2,3) by (simp del: timedout_loop.simps)
    moreover have "?f \<notin> Some ` set (map (pk ?h) ys)" using y Cons.prems(4) unfolding pk by auto
    moreover have "first_expired now h (map (pk h) (y # ys)) = Some (pk h y)"
      using True q by (simp add: first_expired_def)
    moreover have "rescheduled now ?h (map (pk h) ys) ?f = rescheduled now h (map (pk h) (y # ys)) ?f"
    proof
      fix p
      show "rescheduled now ?h (map (pk h) ys) ?f p = rescheduled now h (map (pk h) (y # ys)) ?f p"
      proof (cases "p = pk h y")
        case p: True
        have "?f = Some (pk h y) \<longleftrightarrow> found = None" using Cons.prems(4) by auto
        then show ?thesis using y True q unfolding p rescheduled_def by simp
      next
        case False
        then show ?thesis by (auto simp: rescheduled_def)
      qed
    qed
    ultimately show ?thesis
      using Cons.IH [of ?h "xs @ [y]" ?next ?f "i + 1"] rep_retimed(1) [OF rt Cons.prems(1)] Cons.prems(3) nx unfolding pk Let_def
      by (cases found) (simp_all del: timedout_loop.simps)
  qed
qed

lemma look_for_timedout_scan:
  assumes "holds h b ps" "u_times inp = (\<lambda>_. now)"
  shows "look_for_timedout_packet inp h (Some b) =
    Some (first_expired now h ps, h\<lparr>pkts := rescheduled now h ps (first_expired now h ps)\<rparr>)"
proof -
  obtain as where as: "rep h b as" "map (pk h) as = ps" using assms(1) by (auto simp: holds_def)
  show ?thesis
  proof (cases "as = []")
    case True
    have "rescheduled now h [] f = pkts h" for f by (rule ext) (simp add: rescheduled_def)
    then show ?thesis using True as rep_facts(3) [OF as(1)]
      by (auto simp: look_for_timedout_packet_def first_expired_def)
  next
    case False
    then show ?thesis
      using timedout_loop_scan [of h b "[]" as "b_first b" inp now None 0] rep_facts(3,4) [OF as(1)] as assms(2)
      by (simp add: look_for_timedout_packet_def Let_def)
  qed
qed

lemma no_timeout:
  assumes "holds h b ps" "u_times inp = (\<lambda>_. now)" "\<And>p. p \<in> set ps \<Longrightarrow> \<not> expired now (the (pkts h p))"
  shows "look_for_timedout_packet inp h (Some b) = Some (None, h)"
proof -
  have f: "first_expired now h ps = None" using assms(3) by (auto simp: first_expired_def find_None_iff)
  have "rescheduled now h ps None = pkts h" using assms(3) by (intro ext) (auto simp: rescheduled_def)
  then show ?thesis using look_for_timedout_scan [OF assms(1,2)] by (simp add: f)
qed

section \<open>What the receiver makes of a sent datagram\<close>

definition arrives :: "(bytes \<Rightarrow> u32) \<Rightarrow> endian \<Rightarrow> (nat \<Rightarrow> bytes) \<Rightarrow> nat \<Rightarrow> nat \<Rightarrow> bytes \<Rightarrow> bool" where
  "arrives crc e chunk N k dg \<longleftrightarrow> length dg \<le> MAX_PKT_SIZE \<and> (\<not> k < N \<longrightarrow> length dg = 12) \<and>
     (\<forall>junk q. k < N \<or> 4 \<le> length junk \<longrightarrow>
     (\<exists>p. pkt_decode crc e True (Some (dg @ junk)) (length dg) q = Some (PKT_OK, p) \<and>
       pkt_get_type p = PTYPE_DATA \<and> pkt_get_tr p = 0 \<and> pkt_get_seqnum p = of_nat k \<and>
       (if k < N then p_payload p = Some (chunk k) \<and> unat (pkt_get_length p) = length (chunk k) \<and> chunk k \<noteq> [] \<and>
          length (chunk k) \<le> MAX_PAYLOAD_SIZE
        else pkt_get_length p = 0)))"

lemma decode_eof_wire:
  assumes "p_type p = 1" "p_tr p = 0" "p_length p = 0" "4 \<le> length junk"
  shows "\<exists>c. pkt_decode crc e True (Some (eof_wire crc e p @ junk)) 12 q =
    Some (PKT_OK, p\<lparr>p_crc1 := crc (data_header e p), p_payload := Some [], p_crc2 := c\<rparr>)"
proof -
  have "eof_wire crc e p @ junk = data_header e p @ rev (le32 (crc (data_header e p))) @ [] @ take 4 junk @ drop 4 junk"
    by (simp add: eof_wire_def)
  moreover have "pkt_decode crc e True
      (Some (data_header e p @ rev (le32 (crc (data_header e p))) @ [] @ take 4 junk @ drop 4 junk)) 12 q
      = Some (PKT_OK, p\<lparr>p_crc1 := crc (data_header e p), p_payload := Some [], p_crc2 := ntohl e (load32 e (take 4 junk))\<rparr>)"
    using assms by (subst pkt_decode_data) (simp_all add: Let_def zero_pkt_def)
  ultimately show ?thesis by auto
qed

lemma piece_arrives:
  assumes "piece crc chunk N k q"
  shows "arrives crc e chunk N k (piece_wire crc e chunk N k q)"
proof -
  have q: "p_type q = 1" "p_tr q = 0" "pkt_get_seqnum q = of_nat k"
    "if k < N then sendable crc q (chunk k) else k = N \<and> p_length q = 0"
    using assms by (simp_all add: piece_def)
  show ?thesis
  proof (cases "k < N")
    case True
    then have s: "sendable crc q (chunk k)" using q by simp
    show ?thesis using decode_data_wire [OF s, of e] s True q
      by (simp add: arrives_def pkt_get_type_def pkt_get_tr_def pkt_get_seqnum_def pkt_get_length_def sendable_def piece_wire_def)
  next
    case False
    then have w: "k = N" "p_length q = 0" using q by simp_all
    have "\<exists>p. pkt_decode crc e True (Some (eof_wire crc e q @ junk)) 12 r = Some (PKT_OK, p) \<and>
        pkt_get_type p = PTYPE_DATA \<and> pkt_get_tr p = 0 \<and> pkt_get_seqnum p = of_nat k \<and> pkt_get_length p = 0"
      if "4 \<le> length junk" for junk r
      using decode_eof_wire [OF q(1,2) w(2) that, of crc e r] q w
      by (auto simp: pkt_get_type_def pkt_get_tr_def pkt_get_seqnum_def pkt_get_length_def)
    then show ?thesis using False by (simp add: arrives_def piece_wire_def)
  qed
qed

lemma sent_arrives:
  assumes "sent_ok crc e chunk N eof dg"
  shows "\<exists>k \<le> N. (k = N \<longrightarrow> eof) \<and> arrives crc e chunk N k dg"
proof -
  obtain k q where q: "piece crc chunk N k q" "dg = piece_wire crc e chunk N k q" "\<not> k < N \<longrightarrow> eof"
    using assms by (auto simp: sent_ok_def piece_wire_def split: if_splits)
  have "k \<le> N" using q(1) by (auto simp: piece_def split: if_splits)
  then show ?thesis using piece_arrives [OF q(1), of e] q(2,3) by (intro exI [of _ k]) auto
qed

section \<open>When a turn is undefined\<close>

lemma read_file_control:
  assumes "read_file inp st = Some (p, st')"
  shows "s_ack_received st' = s_ack_received st \<and> s_pkt_tr st' = s_pkt_tr st \<and> s_EOF_ACKED st' = s_EOF_ACKED st \<and> s_out st' = s_out st"
proof (cases "int (b_size (s_buffer st)) \<ge> s_window st \<or> u_file inp = None \<or> u_pkt inp = None")
  case True
  then show ?thesis using assms by (auto simp: read_file_def split: option.splits)
next
  case False
  then obtain d a pkt where "u_file inp = Some d" "u_pkt inp = Some (a, pkt)" "\<not> int (b_size (s_buffer st)) \<ge> s_window st" by auto
  then show ?thesis using assms
    by (cases "d = []") (auto simp: read_file_def Let_def case_prod_unfold bind_eq_Some_conv split: if_splits)
qed

lemma turn_file_control:
  assumes "turn_file inp st = Some st'"
  shows "s_ack_received st' = s_ack_received st \<and> s_pkt_tr st' = s_pkt_tr st \<and> s_EOF_ACKED st' = s_EOF_ACKED st \<and> s_out st' = s_out st"
proof -
  obtain p st1 where r: "read_file inp st = Some (p, st1)" using assms by (auto simp: turn_file_def bind_eq_Some_conv)
  have "s_ack_received st' = s_ack_received st1 \<and> s_pkt_tr st' = s_pkt_tr st1 \<and> s_EOF_ACKED st' = s_EOF_ACKED st1 \<and> s_out st' = s_out st1"
    using assms r by (cases p; cases "s_last_ack_to_receive st1 = -1")
      (auto simp: turn_file_def bind_eq_Some_conv Let_def case_prod_unfold)
  then show ?thesis using read_file_control [OF r] by simp
qed

lemma sender_turn_no_file:
  assumes inv: "snd_inv crc e chunk N n ps st" and ack: "ack_ok inp" and r: "u_ready inp \<noteq> -1"
    and f: "u_file_in inp \<Longrightarrow> turn_file inp (st\<lparr>s_ready := u_ready inp\<rparr>) = Some (st\<lparr>s_ready := u_ready inp\<rparr>)"
  shows "sender_turn crc e inp st = None \<longleftrightarrow> u_sock_out inp \<and> \<not> targets_present st ps"
proof -
  let ?st = "st\<lparr>s_ready := u_ready inp\<rparr>"
  have inv0: "snd_inv crc e chunk N n ps ?st" and tp: "targets_present ?st ps = targets_present st ps"
    using inv by (simp_all add: targets_present_def)
  have fl: "(if u_file_in inp then turn_file inp ?st else Some ?st) = Some ?st" using f by simp
  show ?thesis
  proof (cases "u_sock_out inp \<and> \<not> targets_present st ps")
    case True
    then have "turn_send crc e inp ?st = None" using turn_send_ok [OF inv0, of inp] tp by simp
    then show ?thesis using True r fl by (simp add: sender_turn_def)
  next
    case False
    then obtain g st2 where st2: "(if u_sock_out inp then turn_send crc e inp ?st else Some (False, ?st)) = Some (g, st2)"
      "snd_inv crc e chunk N n ps st2" using turn_send_ok [OF inv0, of inp] tp inv0 by (cases "u_sock_out inp") auto
    obtain st3 where "(if u_sock_in inp then turn_ack crc e inp st2 else Some st2) = Some st3"
      using turn_ack_ok [OF st2(2) ack] by (cases "u_sock_in inp") auto
    then show ?thesis using False r fl st2(1) unfolding sender_turn_def Let_def by (cases g) auto
  qed
qed

lemma turn_file_full:
  assumes "int (b_size (s_buffer st)) \<ge> s_window st"
  shows "turn_file inp st = Some st"
  using assms by (simp add: turn_file_def read_file_def)

section \<open>Properties\<close>

text \<open>C9. The sender sends nothing but the file: in every run, whatever the socket, the clock and
  the acknowledgements do, each datagram sent is decoded without error by a receiver whose
  array has room for it, to a data packet that carries piece \<open>k\<close> of the file under the
  number \<open>k\<close> modulo 256, or that is the end of the file, numbered by the count of pieces.\<close>

theorem sender_sends_pieces:
  assumes "sender_run crc e chunk st"
  shows "\<exists>N. s_nb_sended st = int N \<and> (\<forall>dg \<in> set (s_out st). \<exists>k \<le> N.
    (k = N \<longrightarrow> s_last_ack_to_receive st = int (N mod 256)) \<and> arrives crc e chunk N k dg)"
proof -
  obtain N n ps where inv: "snd_inv crc e chunk N n ps st" using sender_run_inv [OF assms] by blast
  have "s_last_ack_to_receive st \<noteq> -1 \<Longrightarrow> s_last_ack_to_receive st = int (N mod 256)"
    using snd_inv_facts(7) [OF inv] by auto
  then have "\<exists>k \<le> N. (k = N \<longrightarrow> s_last_ack_to_receive st = int (N mod 256)) \<and> arrives crc e chunk N k dg"
    if "dg \<in> set (s_out st)" for dg
    using sent_arrives [OF snd_inv_facts(8) [OF inv that]] by blast
  then show ?thesis using snd_inv_facts(2) [OF inv] by blast
qed

text \<open>A turn that reads the three bytes of a file and sends them.\<close>

definition demo_sturn :: sturn where
  "demo_sturn = \<lparr>u_ready = 1, u_file_in = True, u_file = Some [83, 97, 108], u_pkt = Some (1, zero_pkt), u_payload_ok = True,
     u_node = Some 1, u_sock_out = True, u_now = 1000, u_times = (\<lambda>_. 1000), u_clock = (1000, 5), u_send = (\<lambda>_. True),
     u_sock_in = False, u_ack = None, u_ack_new = None, u_ack_clock = (1000, 9)\<rparr>"

definition new_heap :: heap where
  "new_heap = \<lparr>nodes = Map.empty, stale = Map.empty, pkts = Map.empty\<rparr>"

abbreviation demo_sender :: sender where
  "demo_sender \<equiv> sender_init new_heap (replicate 10 0)"

lemma demo_sender_run: "sender_run crc e chunk demo_sender"
  by (rule sender_run.start) (simp_all add: new_heap_def ACK_SIZE_def)

lemma demo_sender_inv: "snd_inv crc e chunk 0 0 [] demo_sender"
  by (rule sender_init_inv) (simp_all add: new_heap_def ACK_SIZE_def)

lemma demo_sturn_ok: "snd_input_ok crc32 (\<lambda>_. [83, 97, 108]) demo_sender demo_sturn"
proof -
  have "crc32 [83, 97, 108] \<noteq> 0" by code_simp
  then show ?thesis
    by (simp add: snd_input_ok_def file_ok_def ack_ok_def demo_sturn_def sender_init_def new_heap_def)
qed

text \<open>One turn of the loop, from the start: the packet is in the buffer and on the wire.\<close>

lemma demo_sender_turn:
  "\<exists>gone st'. sender_turn crc32 Little demo_sturn demo_sender = Some (gone, st') \<and> sender_run crc32 Little (\<lambda>_. [83, 97, 108]) st'"
proof -
  let ?c = "\<lambda>_ :: nat. [83, 97, 108 :: byte]"
  let ?st = "demo_sender\<lparr>s_ready := 1\<rparr>"
  have inv: "snd_inv crc32 Little ?c 0 0 [] ?st" using demo_sender_inv by simp
  have "file_ok crc32 ?c ?st demo_sturn" using demo_sturn_ok by (auto simp: snd_input_ok_def file_ok_def split: option.splits)
  from turn_file_ok [OF inv this] obtain N' ps' st1 where st1: "turn_file demo_sturn ?st = Some st1"
    "snd_inv crc32 Little ?c N' 0 ps' st1" by blast
  have "s_ack_received st1 = -1" "s_pkt_tr st1 = -1"
    using turn_file_control [OF st1(1)] by (simp_all add: sender_init_def)
  then have "targets_present st1 ps'" by (simp add: targets_present_def)
  then obtain g st2 where "turn_send crc32 Little demo_sturn st1 = Some (g, st2)"
    using turn_send_ok [OF st1(2), of demo_sturn] by auto
  then have t: "sender_turn crc32 Little demo_sturn demo_sender = Some (g, st2)"
    using st1(1) by (simp add: sender_turn_def demo_sturn_def)
  moreover have "sender_running demo_sender" by (simp add: sender_running_def sender_init_def)
  ultimately show ?thesis using sender_run.turn [OF demo_sender_run _ demo_sturn_ok] by blast
qed

theorem sender_sends_pieces_witness:
  "\<exists>gone st' N. sender_turn crc32 Little demo_sturn demo_sender = Some (gone, st') \<and> s_nb_sended st' = int N \<and>
    (\<forall>dg \<in> set (s_out st'). \<exists>k \<le> N. arrives crc32 Little (\<lambda>_. [83, 97, 108]) N k dg)"
proof -
  obtain gone st' where t: "sender_turn crc32 Little demo_sturn demo_sender = Some (gone, st')"
    "sender_run crc32 Little (\<lambda>_. [83, 97, 108]) st'" using demo_sender_turn by blast
  from sender_sends_pieces [OF t(2)] t(1) show ?thesis by blast
qed

text \<open>C16. The buffer of the sender is the window: in every run it holds at most 31 packets, whose
  numbers are consecutive modulo 256 and end just before the number of the next piece, or
  with it once the end of the file was read.\<close>

theorem sender_window:
  assumes "sender_run crc e chunk st"
  shows "\<exists>n ps. holds (s_heap st) (s_buffer st) ps \<and> length ps \<le> 31 \<and>
    map (pseq (s_heap st)) ps = map (\<lambda>i. of_nat (n + i)) [0..<length ps] \<and>
    int (n + length ps) = s_nb_sended st + (if s_last_ack_to_receive st = -1 then 0 else 1)"
proof -
  obtain N n ps where inv: "snd_inv crc e chunk N n ps st" using sender_run_inv [OF assms] by blast
  have "int (n + length ps) = s_nb_sended st + (if s_last_ack_to_receive st = -1 then 0 else 1)"
    using snd_inv_facts(7) [OF inv] snd_inv_facts(2) [OF inv] by auto
  then show ?thesis using snd_inv_facts(1,5) [OF inv] snd_inv_seqs [OF inv] by blast
qed

theorem sender_window_witness:
  "\<exists>gone st' ps. sender_turn crc32 Little demo_sturn demo_sender = Some (gone, st') \<and>
    holds (s_heap st') (s_buffer st') ps \<and> length ps \<le> 31"
proof -
  obtain gone st' where t: "sender_turn crc32 Little demo_sturn demo_sender = Some (gone, st')"
    "sender_run crc32 Little (\<lambda>_. [83, 97, 108]) st'" using demo_sender_turn by blast
  from sender_window [OF t(2)] t(1) show ?thesis by blast
qed

text \<open>A packet asked for again is no longer, or not yet, in the buffer.\<close>

definition resend_missing :: "sender \<Rightarrow> bool" where
  "resend_missing st \<longleftrightarrow>
     s_ack_received st \<noteq> -1 \<and> is_in_buffer (s_heap st) (Some (s_buffer st)) (word_of_int (s_ack_received st)) = Some False \<or>
     s_pkt_tr st \<noteq> -1 \<and> is_in_buffer (s_heap st) (Some (s_buffer st)) (word_of_int (s_pkt_tr st)) = Some False"

lemma resend_missing_iff: "holds (s_heap st) (s_buffer st) ps \<Longrightarrow> resend_missing st \<longleftrightarrow> \<not> targets_present st ps"
  by (auto simp: resend_missing_def targets_present_def holds_mem)



text \<open>Such a state is one acknowledgement away: before the end of the file is read, an
  acknowledgement whose number is not in the buffer, because it is late or repeated, or
  because it acknowledges all that was sent, is taken; if the window it announces is no
  greater than the buffer, every turn with a writable socket that follows is undefined.\<close>

theorem unknown_ack_crashes:
  assumes "sender_run crc e chunk st" "s_last_ack_to_receive st = -1" "pkt_get_type pkt \<noteq> PTYPE_NACK"
    "uint (pkt_get_seqnum pkt) \<le> s_nb_sended st + 1"
    "is_in_buffer (s_heap st) (Some (s_buffer st)) (pkt_get_seqnum pkt) = Some False"
    "uint (pkt_get_window pkt) \<le> int (b_size (s_buffer st))"
  shows "\<exists>st'. handle_ack inp pkt st = Some st' \<and> s_buffer st' = s_buffer st \<and>
    (\<forall>inp'. u_ready inp' \<noteq> -1 \<and> u_sock_out inp' \<and> ack_ok inp' \<longrightarrow> sender_turn crc e inp' st' = None)"
proof -
  obtain N n ps where inv: "snd_inv crc e chunk N n ps st" using sender_run_inv [OF assms(1)] by blast
  let ?s = "pkt_get_seqnum pkt"
  have absent: "?s \<notin> set (map (pseq (s_heap st)) ps)"
    using assms(5) holds_mem [OF snd_inv_facts(1) [OF inv]] by simp
  note r = holds_remove_acked_absent [OF snd_inv_facts(1) [OF inv] absent]
  have "\<not> ack_refused st pkt" using assms(2,4) by (simp add: ack_refused_def)
  from handle_ack_accepted [OF this assms(3) r snd_inv_facts(1) [OF inv], of inp] assms(2)
  obtain st' where st': "handle_ack inp pkt st = Some st'" "s_heap st' = s_heap st" "s_buffer st' = s_buffer st"
    "s_window st' = uint (pkt_get_window pkt)" "s_nb_sended st' = s_nb_sended st" "s_seqnum st' = s_seqnum st"
    "s_last_ack_to_receive st' = s_last_ack_to_receive st" "s_out st' = s_out st" "s_buf_ack st' = s_buf_ack st"
    "s_ack_received st' = uint ?s" by auto
  have inv': "snd_inv crc e chunk N n ps st'"
    using inv window_31 [of pkt] unfolding snd_inv_def st'(2-9) by simp
  have "uint ?s \<noteq> -1" by (metis uint_ge_0 not_one_le_zero minus_equation_iff neg_0_le_iff_le)
  then have "\<not> targets_present st' ps"
    using absent st'(2,10) by (simp add: targets_present_def)
  moreover have "turn_file inp' (st'\<lparr>s_ready := u_ready inp'\<rparr>) = Some (st'\<lparr>s_ready := u_ready inp'\<rparr>)" for inp'
    using assms(6) st'(3,4) by (intro turn_file_full) simp
  ultimately have "sender_turn crc e inp' st' = None" if "u_ready inp' \<noteq> -1" "u_sock_out inp'" "ack_ok inp'" for inp'
    using sender_turn_no_file [OF inv' that(3,1)] that(2) by simp
  then show ?thesis using st'(1,3) by blast
qed

text \<open>An acknowledgement with a closed window, before anything was sent.\<close>

theorem unknown_ack_crashes_witness:
  "\<exists>st'. handle_ack demo_sturn (zero_pkt\<lparr>p_type := 2\<rparr>) demo_sender = Some st' \<and>
    sender_turn crc32 Little demo_sturn st' = None"
proof -
  have "is_in_buffer (s_heap demo_sender) (Some (s_buffer demo_sender)) 0 = Some False"
    by (simp add: sender_init_def is_in_buffer_def buffer_init_def buffer_size_def)
  moreover have "ack_ok demo_sturn" "u_ready demo_sturn \<noteq> -1" "u_sock_out demo_sturn" by (simp_all add: ack_ok_def demo_sturn_def)
  moreover have "pkt_get_type (zero_pkt\<lparr>p_type := 2\<rparr>) \<noteq> PTYPE_NACK" by (simp add: pkt_get_type_def)
  ultimately show ?thesis
    using unknown_ack_crashes [OF demo_sender_run, of "zero_pkt\<lparr>p_type := 2\<rparr>" demo_sturn crc32 Little]
    by (simp add: pkt_get_seqnum_def pkt_get_window_def zero_pkt_def sender_init_def) blast
qed

text \<open>C18. The retransmission timer: with one value of the clock during the scan, the packet
  returned is the first one of the buffer that was sent more than 2 seconds ago; it gets the
  current time, every other expired packet the time one second ago, and the others, those never
  sent among them, are left alone. A second scan at the same time finds nothing: the unit test of
  the function asks for the second packet there.\<close>

theorem timeout_scan:
  assumes "holds h b ps" "u_times inp = (\<lambda>_. now)"
  defines "found \<equiv> find (\<lambda>p. expired now (the (pkts h p))) ps"
  shows "\<exists>h'. look_for_timedout_packet inp h (Some b) = Some (found, h') \<and> holds h' b ps \<and>
    (\<forall>p \<in> set ps. pkts h' p = Some (if expired now (the (pkts h p))
       then (the (pkts h p))\<lparr>p_timestamp := (if found = Some p then now else now - 1)\<rparr> else the (pkts h p))) \<and>
    look_for_timedout_packet inp h' (Some b) = Some (None, h')"
proof -
  let ?h = "h\<lparr>pkts := rescheduled now h ps found\<rparr>"
  have f: "found = first_expired now h ps" by (simp add: found_def first_expired_def)
  have sub: "set ps \<subseteq> dom (pkts h)" by (rule holds_facts(2) [OF assms(1)])
  then have r: "rescheduled now h ps found p = Some (if expired now (the (pkts h p))
       then (the (pkts h p))\<lparr>p_timestamp := (if found = Some p then now else now - 1)\<rparr> else the (pkts h p))"
    if "p \<in> set ps" for p
    using that by (auto simp: rescheduled_def)
  then have "set ps \<subseteq> dom (rescheduled now h ps found)" by auto
  then have hold: "holds ?h b ps" by (rule holds_pkts [OF assms(1)])
  have "\<not> expired now (the (pkts ?h p))" if "p \<in> set ps" for p
    using r [OF that] by (simp add: expired_def pkt_get_timestamp_def)
  from no_timeout [OF hold assms(2) this] hold look_for_timedout_scan [OF assms(1,2)] r show ?thesis
    unfolding f by auto
qed

theorem timeout_scan_witness:
  "\<exists>h'. look_for_timedout_packet demo_sturn (demo_heap\<lparr>pkts := [11 \<mapsto> zero_pkt\<lparr>p_timestamp := 999\<rparr>, 12 \<mapsto> zero_pkt\<lparr>p_timestamp := 990\<rparr>]\<rparr>)
     (Some demo_buffer) = Some (Some 12, h') \<and> pkts h' 12 = Some (zero_pkt\<lparr>p_timestamp := 1000\<rparr>)"
proof -
  let ?h = "demo_heap\<lparr>pkts := [11 \<mapsto> zero_pkt\<lparr>p_timestamp := 999\<rparr>, 12 \<mapsto> zero_pkt\<lparr>p_timestamp := 990\<rparr>]\<rparr>"
  have h: "holds ?h demo_buffer [11, 12]" by (rule holds_pkts [OF demo_holds]) auto
  have "u_times demo_sturn = (\<lambda>_. 1000)" by (simp add: demo_sturn_def)
  from timeout_scan [OF h this] show ?thesis
    by (auto simp: expired_def pkt_get_timestamp_def word_less_nat_alt)
qed

lemma mod_256_diff: "d \<le> (N :: nat) \<Longrightarrow> d \<le> 31 \<Longrightarrow> (N - d) mod 256 > N mod 256 \<longleftrightarrow> N mod 256 < d"
proof -
  assume d: "d \<le> N" "d \<le> 31"
  have N: "N = N div 256 * 256 + N mod 256" by simp
  show ?thesis
  proof (cases "N mod 256 < d")
    case True
    then have "N div 256 \<noteq> 0" using d(1) N by (metis add_0 leD mult_0)
    then have "N - d = (N div 256 - 1) * 256 + (N mod 256 + 256 - d)"
      using N True d by (cases "N div 256") auto
    moreover have "N mod 256 + 256 - d < 256" using True by simp
    ultimately have "(N - d) mod 256 = N mod 256 + 256 - d" by (metis mod_less mod_mult_self3)
    then show ?thesis using True d by simp
  next
    case False
    then have "N - d = N div 256 * 256 + (N mod 256 - d)" using N by linarith
    moreover have "N mod 256 - d < 256" by (metis less_imp_diff_less mod_less_divisor zero_less_numeral)
    ultimately have "(N - d) mod 256 = N mod 256 - d" by (metis mod_less mod_mult_self3)
    then show ?thesis using False by simp
  qed
qed

lemma ack_refused_iff:
  assumes inv: "snd_inv crc e chunk N n ps st" and i: "i < length ps" and s: "pkt_get_seqnum pkt = of_nat (n + i)"
    and last: "s_last_ack_to_receive st \<noteq> -1"
  shows "ack_refused st pkt \<longleftrightarrow> s_last_ack_to_receive st < int (length ps - 1 - i)"
proof -
  let ?d = "length ps - 1 - i"
  have l: "s_last_ack_to_receive st = int (N mod 256)" "n + length ps = N + 1"
    using snd_inv_facts(7) [OF inv] last by auto
  then have d: "n + i = N - ?d" "?d \<le> N" "?d \<le> 31" using i snd_inv_facts(5) [OF inv] by auto
  have "uint (pkt_get_seqnum pkt) = int ((N - ?d) mod 256)" unfolding s d(1) by (rule seq_of_nat)
  moreover have "(N - ?d) mod 256 \<le> N" by (metis diff_le_self le_trans mod_less_eq_dividend)
  ultimately have "ack_refused st pkt \<longleftrightarrow> (N - ?d) mod 256 > N mod 256"
    using l snd_inv_facts(2) [OF inv] by (simp add: ack_refused_def)
  also have "\<dots> \<longleftrightarrow> N mod 256 < ?d" by (rule mod_256_diff [OF d(2,3)])
  finally show ?thesis using l by simp
qed

lemma mod_256_gap:
  fixes a b :: nat
  assumes "a mod 256 = b mod 256" "a < b" "b < a + 256"
  shows False
proof -
  have "b - a < 256" "0 < b - a" using assms(2,3) by simp_all
  moreover have "256 dvd b - a" using assms(1,2) by (metis mod_eq_dvd_iff_nat less_imp_le)
  ultimately show False by (metis dvd_imp_le not_less)
qed

lemma length_takeWhile_eqI:
  assumes "i < length xs" "\<And>j. j < i \<Longrightarrow> P (xs ! j)" "\<not> P (xs ! i)"
  shows "length (takeWhile P xs) = i"
  using takeWhile_eq_take_P_nth [of i xs P] assms by auto

text \<open>C17. The check of acknowledgement numbers after the end of the file was read compares numbers
  across the wrap-around: the acknowledgement of the \<open>i\<close>-th packet of the buffer is refused, and
  leaves the state as it is, if and only if that packet is of the previous cycle of numbers.\<close>

theorem ack_refused_after_wrap:
  assumes "sender_run crc e chunk st" "buffer_print (s_heap st) (s_buffer st) = Some (seqs, len)" "i < len"
    "pkt_get_seqnum pkt = seqs ! i" "pkt_get_type pkt \<noteq> PTYPE_NACK" "s_last_ack_to_receive st \<noteq> -1"
  shows "if s_last_ack_to_receive st < int (len - 1 - i) then handle_ack inp pkt st = Some st
    else \<exists>st' c. handle_ack inp pkt st = Some st' \<and> s_window st' = uint (pkt_get_window pkt) \<and> s_ack_received st' = -1 \<and>
      buffer_remove_acked (s_heap st) (s_buffer st) (pkt_get_seqnum pkt) = Some (c, s_heap st', s_buffer st') \<and> c = i"
proof -
  obtain N n ps where inv: "snd_inv crc e chunk N n ps st" using sender_run_inv [OF assms(1)] by blast
  note h = snd_inv_facts(1) [OF inv]
  have seqs: "seqs = map (pseq (s_heap st)) ps" "len = length ps" using holds_print [OF h] assms(2) by simp_all
  then have s: "pkt_get_seqnum pkt = of_nat (n + i)" using assms(3,4) snd_inv_seqs [OF inv] by simp
  have nth: "pseq (s_heap st) (ps ! j) = of_nat (n + j)" if "j < length ps" for j
    using arg_cong [OF snd_inv_seqs [OF inv], of "\<lambda>l. l ! j"] that by simp
  note ref = ack_refused_iff [OF inv _ s assms(6)]
  show ?thesis
  proof (cases "s_last_ack_to_receive st < int (len - 1 - i)")
    case True
    then show ?thesis using ref assms(3) seqs(2) handle_ack_refused by simp
  next
    case False
    have nr: "\<not> ack_refused st pkt" using ref False assms(3) seqs(2) by simp
    let ?P = "\<lambda>p. pseq (s_heap st) p \<noteq> pkt_get_seqnum pkt"
    have "pseq (s_heap st) (ps ! j) \<noteq> pkt_get_seqnum pkt" if j: "j < i" for j
    proof
      assume "pseq (s_heap st) (ps ! j) = pkt_get_seqnum pkt"
      then have "(of_nat (n + j) :: u8) = of_nat (n + i)" using nth [of j] s assms(3) seqs(2) j by simp
      then have "(n + j) mod 256 = (n + i) mod 256" by (metis of_nat_eq_iff seq_of_nat)
      moreover have "n + i < n + j + 256" using assms(3) seqs(2) snd_inv_facts(5) [OF inv] by simp
      ultimately show False using mod_256_gap [of "n + j" "n + i"] j by simp
    qed
    then have "length (takeWhile ?P ps) = i"
      using assms(3,4) seqs by (intro length_takeWhile_eqI) auto
    moreover have "pkt_get_seqnum pkt \<in> set (map (pseq (s_heap st)) ps)"
      using assms(3,4) seqs by (metis length_map nth_mem)
    ultimately obtain h' b' where r: "buffer_remove_acked (s_heap st) (s_buffer st) (pkt_get_seqnum pkt) = Some (i, h', b')"
      "holds h' b' (dropWhile ?P ps)" using holds_remove_acked [OF h, of "pkt_get_seqnum pkt"] by auto
    from handle_ack_accepted [OF nr assms(5) r, of inp] r False assms(6) show ?thesis by auto
  qed
qed

text \<open>The empty file: the end-of-file packet is enqueued at once.\<close>

definition eof_sturn :: sturn where
  "eof_sturn = demo_sturn\<lparr>u_file := Some [], u_sock_out := False\<rparr>"

lemma eof_sender_turn:
  "\<exists>st'. sender_turn crc32 Little eof_sturn demo_sender = Some (False, st') \<and> sender_run crc32 Little chunk st' \<and>
    snd_inv crc32 Little chunk 0 0 [1] st' \<and> s_last_ack_to_receive st' = 0 \<and> s_EOF_ACKED st' = 0"
proof -
  let ?st = "demo_sender\<lparr>s_ready := 1\<rparr>" and ?q = "file_pkt (demo_sender\<lparr>s_ready := 1\<rparr>) [] zero_pkt"
  have inv: "snd_inv crc32 Little chunk 0 0 [] ?st" using demo_sender_inv by simp
  have f: "s_last_ack_to_receive ?st = -1" "length ([] :: addr list) \<le> 30" "pkts (s_heap ?st) 1 = None" "nodes (s_heap ?st) 1 = None"
    by (simp_all add: sender_init_def new_heap_def)
  obtain h' b' where e: "buffer_enqueue ((s_heap ?st)\<lparr>pkts := (pkts (s_heap ?st))(1 \<mapsto> ?q)\<rparr>) (s_buffer ?st) 1 (Some 1) = Some (0, h', b')"
    "holds h' b' [1]" "pkts h' = (pkts (s_heap ?st))(1 \<mapsto> ?q)"
    using snd_enqueue [OF inv f snd_inv_piece_of_file(3) [OF inv, of "[]" zero_pkt]] unfolding append_Nil by blast
  let ?st' = "?st\<lparr>s_last_ack_to_receive := s_seqnum ?st, s_heap := h', s_buffer := b'\<rparr>"
  have "snd_inv crc32 Little chunk 0 0 ([] @ [1]) ?st'"
    by (rule snd_inv_appended(2) [OF inv f(1-3) _ e(3) snd_inv_piece_of_file(2) [OF inv]]) (use e(2) in simp)
  moreover have "read_file eof_sturn ?st = Some (Some 1, ?st\<lparr>s_heap := (s_heap ?st)\<lparr>pkts := (pkts (s_heap ?st))(1 \<mapsto> ?q)\<rparr>\<rparr>)"
    using read_file_reads [of ?st eof_sturn "[]" 1 zero_pkt]
    by (simp add: eof_sturn_def demo_sturn_def sender_init_def buffer_init_def)
  then have "turn_file eof_sturn ?st = Some ?st'"
    using e(1) holds_print [OF e(2)]
    by (simp add: turn_file_def eof_sturn_def demo_sturn_def sender_init_def pkt_get_length_def pkt_get_seqnum_def)
  then have t: "sender_turn crc32 Little eof_sturn demo_sender = Some (False, ?st')"
    by (simp add: sender_turn_def eof_sturn_def demo_sturn_def)
  moreover have "snd_input_ok crc32 chunk demo_sender eof_sturn"
    by (simp add: snd_input_ok_def file_ok_def ack_ok_def eof_sturn_def demo_sturn_def sender_init_def new_heap_def)
  moreover have "sender_running demo_sender" by (simp add: sender_running_def sender_init_def)
  ultimately show ?thesis
    using sender_run.turn [OF demo_sender_run] by (intro exI [of _ ?st']) (auto simp: sender_init_def)
qed

theorem ack_refused_after_wrap_witness:
  "\<exists>st st' c. sender_turn crc32 Little eof_sturn demo_sender = Some (False, st) \<and>
    handle_ack demo_sturn (zero_pkt\<lparr>p_type := 2\<rparr>) st = Some st' \<and> s_ack_received st' = -1 \<and>
    buffer_remove_acked (s_heap st) (s_buffer st) 0 = Some (c, s_heap st', s_buffer st') \<and> c = 0"
proof -
  obtain st where t: "sender_turn crc32 Little eof_sturn demo_sender = Some (False, st)" "sender_run crc32 Little (\<lambda>_. []) st"
    "snd_inv crc32 Little (\<lambda>_. []) 0 0 [1] st" "s_last_ack_to_receive st = 0" using eof_sender_turn by blast
  have p: "buffer_print (s_heap st) (s_buffer st) = Some ([0], 1)"
    using holds_print [OF snd_inv_facts(1) [OF t(3)]] snd_inv_seqs [OF t(3)] by simp
  from ack_refused_after_wrap [OF t(2) p, of 0 "zero_pkt\<lparr>p_type := 2\<rparr>" demo_sturn] t(1,4) show ?thesis
    by (simp add: pkt_get_seqnum_def pkt_get_type_def zero_pkt_def) blast
qed

text \<open>The loop ends: the acknowledgement of the end-of-file packet is never refused.\<close>

lemma last_ack_removes:
  assumes inv: "snd_inv crc e chunk N n ps st" and last: "s_last_ack_to_receive st \<noteq> -1" and s: "s = of_nat N"
  shows "\<exists>c h b ps'. buffer_remove_acked (s_heap st) (s_buffer st) s = Some (c, h, b) \<and> holds h b ps' \<and> length ps' \<le> 1"
proof -
  have N: "n + length ps = N + 1" using snd_inv_facts(7) [OF inv] last by auto
  show ?thesis
  proof (cases ps rule: rev_cases)
    case Nil
    then show ?thesis using holds_remove_acked_absent [OF snd_inv_facts(1) [OF inv], of s] snd_inv_facts(1) [OF inv] by auto
  next
    case (snoc qs p)
    have nth: "pseq (s_heap st) (ps ! j) = of_nat (n + j)" if "j < length ps" for j
      using arg_cong [OF snd_inv_seqs [OF inv], of "\<lambda>l. l ! j"] that by simp
    have "pseq (s_heap st) p = s" using nth [of "length qs"] snoc N s by (simp del: of_nat_add)
    moreover have "pseq (s_heap st) x \<noteq> s" if x: "x \<in> set qs" for x
    proof
      assume e: "pseq (s_heap st) x = s"
      obtain j where j: "j < length qs" "x = qs ! j" using x by (auto simp: in_set_conv_nth)
      then have "(of_nat (n + j) :: u8) = of_nat N" using nth [of j] e s snoc by (simp add: nth_append)
      then have "(n + j) mod 256 = N mod 256" by (metis of_nat_eq_iff seq_of_nat)
      then show False using mod_256_gap [of "n + j" N] j(1) N snoc snd_inv_facts(5) [OF inv] by simp
    qed
    ultimately have d: "dropWhile (\<lambda>p. pseq (s_heap st) p \<noteq> s) ps = [p]" unfolding snoc by (subst dropWhile_append2) auto
    have "s \<in> set (map (pseq (s_heap st)) ps)" using \<open>pseq (s_heap st) p = s\<close> snoc by auto
    from holds_remove_acked [OF snd_inv_facts(1) [OF inv] this] obtain c h b where
      "buffer_remove_acked (s_heap st) (s_buffer st) s = Some (c, h, b)" "holds h b [p]" unfolding d by blast
    then show ?thesis by (intro exI conjI) auto
  qed
qed

text \<open>The transfer ends: once the end of the file was read, the acknowledgement of its number is
  accepted wherever the cycle of numbers is, leaves at most the end-of-file packet in the buffer
  and stops the loop.\<close>

theorem last_ack_stops_sender:
  assumes "sender_run crc e chunk st" "s_last_ack_to_receive st = uint (pkt_get_seqnum pkt)"
    "pkt_get_type pkt \<noteq> PTYPE_NACK" "s_EOF_ACKED st = 0"
  shows "\<exists>st'. handle_ack inp pkt st = Some st' \<and> \<not> sender_running st' \<and> b_size (s_buffer st') \<le> 1"
proof -
  obtain N n ps where inv: "snd_inv crc e chunk N n ps st" using sender_run_inv [OF assms(1)] by blast
  have last: "s_last_ack_to_receive st \<noteq> -1" using assms(2) by (metis uint_ge_0 not_one_le_zero minus_equation_iff neg_0_le_iff_le)
  then have u: "uint (pkt_get_seqnum pkt) = int (N mod 256)" using snd_inv_facts(7) [OF inv] assms(2) by auto
  then have "pkt_get_seqnum pkt = of_nat N" by (metis seq_of_nat word_uint_eq_iff)
  from last_ack_removes [OF inv last this] obtain c h b ps' where
    r: "buffer_remove_acked (s_heap st) (s_buffer st) (pkt_get_seqnum pkt) = Some (c, h, b)" "holds h b ps'" "length ps' \<le> 1"
    by blast
  have "N mod 256 \<le> N" by simp
  then have "\<not> ack_refused st pkt" using assms(2) u snd_inv_facts(2) [OF inv] by (simp add: ack_refused_def)
  from handle_ack_accepted [OF this assms(3) r(1,2), of inp] assms(2,4) holds_facts(3) [OF r(2)] r(3)
  show ?thesis by (auto simp: sender_running_def)
qed

theorem last_ack_stops_sender_witness:
  "\<exists>st st'. sender_turn crc32 Little eof_sturn demo_sender = Some (False, st) \<and>
    handle_ack demo_sturn (zero_pkt\<lparr>p_type := 2\<rparr>) st = Some st' \<and> \<not> sender_running st'"
proof -
  obtain st where t: "sender_turn crc32 Little eof_sturn demo_sender = Some (False, st)" "sender_run crc32 Little (\<lambda>_. []) st"
    "s_last_ack_to_receive st = 0" "s_EOF_ACKED st = 0" using eof_sender_turn by blast
  from last_ack_stops_sender [OF t(2) _ _ t(4), of "zero_pkt\<lparr>p_type := 2\<rparr>" demo_sturn] t(1,3) show ?thesis
    by (simp add: pkt_get_seqnum_def pkt_get_type_def zero_pkt_def) blast
qed

definition nanos :: "timespec \<Rightarrow> int" where
  "nanos t = fst t * 1000000000 + snd t"

text \<open>\<open>diff\<close> is exact: on normalised times it gives the normalised time whose nanoseconds
  are the difference, also when the second time is the earlier one.\<close>

theorem diff_exact:
  assumes "0 \<le> snd a" "snd a < 1000000000" "0 \<le> snd b" "snd b < 1000000000"
  shows "nanos (diff a b) = nanos b - nanos a \<and> 0 \<le> snd (diff a b) \<and> snd (diff a b) < 1000000000"
  using assms by (auto simp: nanos_def diff_def)

theorem diff_exact_witness:
  "nanos (diff (3, 900000000) (5, 100000000)) = nanos (5, 100000000) - nanos (3, 900000000) \<and>
   diff (3, 900000000) (5, 100000000) = (1, 200000000)"
  using diff_exact [of "(3, 900000000)" "(5, 100000000)"] by (simp add: diff_def)

end
