(* ===== verification/Sender_Control.thy ===== *)
theory Sender_Control
  imports Sender
begin

text \<open>
  The control flow of the sender: when the counter that ends its loop changes. \<open>File_Transfer\<close>
  composes this with the facts on the receiver.
\<close>

section \<open>The counter of the end of the file\<close>

lemma send_pkt_EOF:
  assumes "send_pkt crc e inp st p = Some st'"
  shows "s_EOF_ACKED st' = s_EOF_ACKED st"
  using assms by (auto simp: send_pkt_def Let_def bind_eq_Some_conv split: if_splits)

lemma resend_EOF:
  assumes "(do { p \<leftarrow> g; st \<leftarrow> send_pkt crc e inp st p; Some (f st) }) = Some st'" "\<And>x. s_EOF_ACKED (f x) = s_EOF_ACKED x"
  shows "s_EOF_ACKED st' = s_EOF_ACKED st"
  using assms by (auto simp: bind_eq_Some_conv dest: send_pkt_EOF)

lemma bind_SomeE:
  "Option.bind g k = Some y \<Longrightarrow> (\<And>x. g = Some x \<Longrightarrow> k x = Some y \<Longrightarrow> P) \<Longrightarrow> P"
  by (cases g) auto

lemma turn_send_EOF:
  assumes "turn_send crc e inp st = Some (gone, st')"
  shows "s_EOF_ACKED st' = s_EOF_ACKED st"
  using assms unfolding turn_send_def Let_def
proof (elim bind_SomeE, goal_cases)
  case (1 st1 st2 ph)
  obtain p h where ph: "ph = (p, h)" by (cases ph)
  have e1: "s_EOF_ACKED st1 = s_EOF_ACKED st"
    using 1(1) resend_EOF [of _ crc e inp st "\<lambda>st. st\<lparr>s_ack_received := -1\<rparr>" st1] by (auto split: if_splits)
  have e2: "s_EOF_ACKED st2 = s_EOF_ACKED st1"
    using 1(2) resend_EOF [of _ crc e inp st1 "\<lambda>st. st\<lparr>s_pkt_tr := -1\<rparr>" st2] by (auto split: if_splits)
  show ?case using 1(4) unfolding ph prod.case
  proof (elim bind_SomeE, goal_cases)
    case (1 x)
    obtain g st4 where x: "x = (g, st4)" by (cases x)
    have e4: "s_EOF_ACKED st4 = s_EOF_ACKED st2"
    proof (cases p)
      case (Some a)
      show ?thesis using 1(1) unfolding Some option.case x
        by (elim bind_SomeE) (auto dest: send_pkt_EOF simp: bind_eq_Some_conv split: if_splits)
    qed (use 1(1) x in auto)
    show ?case
    proof (cases g)
      case False
      show ?thesis using 1(2) e1 e2 e4 unfolding x prod.case if_not_P [OF False]
        by (elim bind_SomeE) (auto dest: send_pkt_EOF simp: bind_eq_Some_conv split: option.splits)
    qed (use 1(2) x e1 e2 e4 in simp)
  qed
qed

lemma handle_ack_EOF:
  assumes "handle_ack inp pkt st = Some st'"
  shows "s_EOF_ACKED st' = s_EOF_ACKED st \<or>
    uint (pkt_get_seqnum pkt) = s_last_ack_to_receive st \<and> pkt_get_type pkt \<noteq> PTYPE_NACK"
proof (cases "ack_refused st pkt \<or> pkt_get_type pkt = PTYPE_NACK")
  case True
  then show ?thesis using assms handle_ack_refused handle_ack_nack by (cases "ack_refused st pkt") auto
next
  case False
  then obtain c h b x where r: "buffer_remove_acked (s_heap st) (s_buffer st) (pkt_get_seqnum pkt) = Some (c, h, b)"
    "buffer_print h b = Some x"
    using assms unfolding handle_ack_def Let_def ack_guard by (auto simp: bind_eq_Some_conv)
  show ?thesis using assms False r unfolding handle_ack_def Let_def ack_guard by (auto split: if_splits)
qed

text \<open>The number that counts as the acknowledgement of the end of the file.\<close>

definition last_acked_by :: "(bytes \<Rightarrow> u32) \<Rightarrow> endian \<Rightarrow> sturn \<Rightarrow> int \<Rightarrow> bool" where
  "last_acked_by crc e inp s \<longleftrightarrow> (\<exists>d block p. u_ack inp = Some d \<and> ACK_SIZE \<le> length d \<and>
     pkt_decode crc e (u_payload_ok inp) (Some (take ACK_SIZE d)) ACK_SIZE block = Some (PKT_OK, p) \<and>
     pkt_get_type p \<noteq> PTYPE_DATA \<and> pkt_get_type p \<noteq> PTYPE_NACK \<and> uint (pkt_get_seqnum p) = s)"

lemma turn_ack_EOF:
  assumes "turn_ack crc e inp st = Some st'" "length (s_buf_ack st) = ACK_SIZE"
  shows "s_EOF_ACKED st' = s_EOF_ACKED st \<or> last_acked_by crc e inp (s_last_ack_to_receive st)"
proof (cases "u_ack inp = None \<or> u_ack_new inp = None")
  case True
  then show ?thesis using assms(1) by (auto simp: turn_ack_def Let_def split: option.splits)
next
  case False
  then obtain d block where d: "u_ack inp = Some d" "u_ack_new inp = Some block" by auto
  let ?d = "take ACK_SIZE d" let ?m = "?d @ drop (length ?d) (s_buf_ack st)" let ?st = "st\<lparr>s_buf_ack := ?m\<rparr>"
  obtain code p where p: "pkt_decode crc e (u_payload_ok inp) (Some ?m) (length ?d) block = Some (code, p)"
    using assms(1) d by (auto simp: turn_ack_def Let_def bind_eq_Some_conv)
  show ?thesis
  proof (cases "code \<noteq> PKT_OK \<or> pkt_get_type p = PTYPE_DATA")
    case True
    then show ?thesis using assms(1) d p by (auto simp: turn_ack_def Let_def)
  next
    case code: False
    then have len: "ACK_SIZE \<le> length d"
      using p by (auto simp: pkt_decode_def ACK_SIZE_def min_def split: if_splits)
    then have m: "?m = take ACK_SIZE d" "length ?d = ACK_SIZE" using assms(2) by simp_all
    have "handle_ack inp p ?st = Some st'" using assms(1) d p code by (simp add: turn_ack_def Let_def)
    from handle_ack_EOF [OF this] show ?thesis
      using d(1) len p [unfolded m(1)] code unfolding m(2) last_acked_by_def by auto
  qed
qed


lemma sender_turn_EOF:
  assumes inv: "snd_inv crc e chunk N n ps st" and ok: "snd_input_ok crc chunk st inp"
    and run: "sender_turn crc e inp st = Some (gone, st')"
  shows "s_EOF_ACKED st' = s_EOF_ACKED st \<or>
    u_sock_in inp \<and> last_acked_by crc e inp (s_last_ack_to_receive st')"
proof (cases "u_ready inp = -1")
  case True
  then show ?thesis using run by (auto simp: sender_turn_def)
next
  case False
  let ?st = "st\<lparr>s_ready := u_ready inp\<rparr>"
  have inv0: "snd_inv crc e chunk N n ps ?st" using inv by simp
  have "file_ok crc chunk ?st inp" using ok by (auto simp: snd_input_ok_def file_ok_def split: option.splits)
  then obtain N1 ps1 st1 where st1: "(if u_file_in inp then turn_file inp ?st else Some ?st) = Some st1"
    "snd_inv crc e chunk N1 n ps1 st1"
    using turn_file_ok [OF inv0, of inp] inv0 by (cases "u_file_in inp") auto
  have e1: "s_EOF_ACKED st1 = s_EOF_ACKED st"
    using st1(1) turn_file_control [of inp ?st st1] by (auto split: if_splits)
  obtain g st2 where st2: "(if u_sock_out inp then turn_send crc e inp st1 else Some (False, st1)) = Some (g, st2)"
    using run False st1(1) by (auto simp: sender_turn_def bind_eq_Some_conv split: if_splits)
  have inv2: "snd_inv crc e chunk N1 n ps1 st2"
  proof (cases "u_sock_out inp")
    case True
    then show ?thesis using turn_send_ok [OF st1(2), of inp] st2 by (auto split: if_splits)
  qed (use st1(2) st2 in simp)
  have e2: "s_EOF_ACKED st2 = s_EOF_ACKED st1" using st2 turn_send_EOF [of crc e inp st1 g st2] by (auto split: if_splits)
  have rest: "sender_turn crc e inp st = (if g then Some (True, st2)
      else do { st \<leftarrow> (if u_sock_in inp then turn_ack crc e inp st2 else Some st2); Some (False, st) })"
    unfolding sender_turn_def Let_def using False st1(1) st2 by simp
  show ?thesis
  proof (cases "g \<or> \<not> u_sock_in inp")
    case True
    then have "st' = st2" using run rest by (auto split: if_splits)
    then show ?thesis using e1 e2 by simp
  next
    case False
    obtain st3 where t: "turn_ack crc e inp st2 = Some st3" "st' = st3" using run rest False by (auto simp: bind_eq_Some_conv)
    have "ack_ok inp" using ok by (simp add: snd_input_ok_def)
    then have "s_last_ack_to_receive st3 = s_last_ack_to_receive st2"
      using turn_ack_ok [OF inv2, of inp] False t(1) by auto
    then show ?thesis using turn_ack_EOF [OF t(1) snd_inv_facts(9) [OF inv2]] t(2) e1 e2 False by auto
  qed
qed

end
