(* ===== verification/Receiver_Control.thy ===== *)
theory Receiver_Control
  imports Receiver
begin

text \<open>
  The control flow of the receiver: what one turn of its loop can send, and when it learns
  the number of the end of the file. \<open>File_Transfer\<close> composes these facts with those of the sender.
\<close>

section \<open>What a call changes\<close>

text \<open>The control variables of the loop and the acknowledgements sent.\<close>

definition same_acks :: "rcv \<Rightarrow> rcv \<Rightarrow> bool" where
  "same_acks st st' \<longleftrightarrow> r_acks st' = r_acks st \<and> r_last_acked st' = r_last_acked st"

text \<open>One acknowledgement more; \<open>ty\<close> is its type and \<open>s\<close> its number.\<close>

definition one_ack :: "(bytes \<Rightarrow> u32) \<Rightarrow> endian \<Rightarrow> u32 \<Rightarrow> int \<Rightarrow> rcv \<Rightarrow> rcv \<Rightarrow> bool" where
  "one_ack crc e ty s st st' \<longleftrightarrow> (\<exists>q. r_acks st' = r_acks st @ [ack_wire crc e q] \<and> p_tr q = 0 \<and>
     p_type q = ucast ty \<and> p_seqnum q = word_of_int s) \<and>
     r_last_acked st' = (if ty = PTYPE_ACK then s else r_last_acked st)"

lemma send_ack_control:
  assumes "ty = PTYPE_ACK \<or> ty = PTYPE_NACK" "0 \<le> wind" "wind \<le> 31"
    "send_ack crc e inp st s ty wind = Some (r, st')"
  shows "same_acks st st' \<or> one_ack crc e ty s st st'"
proof (cases "t_ack inp")
  case None
  then show ?thesis using assms(4) by (simp add: send_ack_def same_acks_def)
next
  case (Some block)
  show ?thesis
  proof (cases "t_send inp")
    case True
    let ?q = "ack_pkt block ty s wind (r_time_last_data st) (t_ack_payload inp)"
    have "p_tr ?q = 0" "p_type ?q = ucast ty" "p_seqnum ?q = word_of_int s" by (simp_all add: ack_pkt_def)
    moreover have "r_acks st' = r_acks st @ [ack_wire crc e ?q]" "r_last_acked st' = (if ty = PTYPE_ACK then s else r_last_acked st)"
      using send_ack_sends [OF assms(1-3) Some True, of crc e st s] assms(4) by (auto simp: Let_def split: if_splits)
    ultimately show ?thesis unfolding one_ack_def by blast
  next
    case False
    obtain st1 where st1: "send_ack crc e (inp\<lparr>t_send := True\<rparr>) st s ty wind = Some (0, st1)"
      using send_ack_sends [OF assms(1-3), of "inp\<lparr>t_send := True\<rparr>" block crc e st s] Some by simp
    then have "send_ack crc e inp st s ty wind = Some (-1, st)"
      using Some False by (simp add: send_ack_def Let_def bind_eq_Some_conv) (auto split: if_splits)
    then show ?thesis using assms(4) by (simp add: same_acks_def)
  qed
qed

lemma send_ack_others:
  assumes "send_ack crc e inp st s ty wind = Some (r, st')"
  shows "r_lastack_to_send st' = r_lastack_to_send st" "r_nb_writed st' = r_nb_writed st"
  using arg_cong [OF send_ack_frame [OF assms], of r_lastack_to_send] arg_cong [OF send_ack_frame [OF assms], of r_nb_writed]
  by simp_all

lemma write_step_control:
  assumes "write_step dang wr st a = Some (r, nx, st')"
  shows "same_acks st st' \<and> r_lastack_to_send st' = r_lastack_to_send st"
proof -
  obtain n q where nq: "read_node dang (r_heap st) a = Some n" "pkts (r_heap st) (n_pkt n) = Some q"
    using assms by (auto simp: write_step_def bind_eq_Some_conv)
  show ?thesis
  proof (cases "uint (pkt_get_seqnum q) = (r_last_writed st + 1) mod MAX_SEQNUM")
    case False
    then show ?thesis using assms nq by (simp add: write_step_def same_acks_def)
  next
    case True
    obtain arg where arg: "write_arg q = Some arg" using assms nq True by (auto simp: write_step_def bind_eq_Some_conv)
    let ?res = "case arg of None \<Rightarrow> None | Some bs \<Rightarrow> (case wr (r_writes st) of None \<Rightarrow> None | Some k \<Rightarrow> Some (take k bs))"
    show ?thesis using assms nq True arg
      by (cases ?res) (auto simp: write_step_def same_acks_def Let_def bind_eq_Some_conv)
  qed
qed

lemma write_loop_control:
  assumes "write_loop dang wr st c = Some y"
  shows "same_acks st (snd y) \<and> r_lastack_to_send (snd y) = r_lastack_to_send st"
  using assms
proof (rule write_loop.raw_induct [rotated])
  fix loop dang wr st c y
  assume IH: "\<And>dang wr st c y. loop dang wr st c = Some y \<Longrightarrow>
      same_acks st (snd y) \<and> r_lastack_to_send (snd y) = r_lastack_to_send st"
    and eq: "(if c = None then Some (1, st) else do {
        (r, nx, st) \<leftarrow> write_step dang wr st (the c);
        if r = None then loop dang wr st nx else Some (the r, st) }) = Some y"
  show "same_acks st (snd y) \<and> r_lastack_to_send (snd y) = r_lastack_to_send st"
  proof (cases "c = None")
    case True
    then show ?thesis using eq by (auto simp: same_acks_def)
  next
    case False
    then obtain r nx st1 where st1: "write_step dang wr st (the c) = Some (r, nx, st1)"
      "(if r = None then loop dang wr st1 nx else Some (the r, st1)) = Some y"
      using eq by (auto simp: bind_eq_Some_conv)
    then have "same_acks st1 (snd y) \<and> r_lastack_to_send (snd y) = r_lastack_to_send st1"
      using IH by (cases "r = None") (auto simp: same_acks_def)
    then show ?thesis using write_step_control [OF st1(1)] by (simp add: same_acks_def)
  qed
qed

lemma receive_data_control:
  assumes inv: "rcv_inv chunk m ps st" and run: "receive_data crc e dang inp a p st = Some (f, st')"
  shows "(r_lastack_to_send st' = r_lastack_to_send st \<or>
      pkt_get_length p = 0 \<and> r_lastack_to_send st' = uint (pkt_get_seqnum p)) \<and>
    (same_acks st st' \<or> f = Continue \<and> (\<exists>s. one_ack crc e PTYPE_NACK s st st'))"
proof -
  let ?s = "pkt_get_seqnum p" let ?st = "st\<lparr>r_data_received := r_data_received st + 1\<rparr>"
  have inv1: "rcv_inv chunk m ps ?st" using inv by simp
  obtain present where pr: "is_in_buffer (r_heap st) (Some (r_buffer st)) ?s = Some present"
    using holds_mem [OF rcv_inv_facts(1) [OF inv]] by blast
  consider "present \<or> \<not> is_in_window ?st (uint ?s)"
    | "\<not> present" "is_in_window ?st (uint ?s)" "pkt_get_tr p = 1"
    | "\<not> present" "is_in_window ?st (uint ?s)" "pkt_get_tr p \<noteq> 1" "pkt_get_type p = PTYPE_DATA \<and> pkt_get_length p = 0"
    | "\<not> present" "is_in_window ?st (uint ?s)" "pkt_get_tr p \<noteq> 1" "\<not> (pkt_get_type p = PTYPE_DATA \<and> pkt_get_length p = 0)"
    by blast
  then show ?thesis
  proof cases
    case 1
    then show ?thesis using run pr by (auto simp: receive_data_def Let_def same_acks_def split: if_splits)
  next
    case 2
    then obtain r where r: "send_ack crc e inp ?st (uint ?s) PTYPE_NACK (free_slots ?st) = Some (r, st')" "f = Continue"
      using run pr by (auto simp: receive_data_def Let_def bind_eq_Some_conv)
    have "same_acks ?st st' \<or> one_ack crc e PTYPE_NACK (uint ?s) ?st st'"
      by (rule send_ack_control [OF _ free_slots_bounds [OF inv1] r(1)]) simp
    then have "same_acks st st' \<or> one_ack crc e PTYPE_NACK (uint ?s) st st'" by (simp add: same_acks_def one_ack_def)
    then show ?thesis using send_ack_others [OF r(1)] r(2) by auto
  next
    case 3
    then have "f = Go" "st' = ?st\<lparr>r_lastack_to_send := uint ?s, r_bypass := True\<rparr>"
      using run pr by (simp_all add: receive_data_def Let_def)
    then show ?thesis using 3(4) by (simp add: same_acks_def)
  next
    case 4
    then obtain err h b where e: "buffer_enqueue (r_heap st) (r_buffer st) a (t_node inp) = Some (err, h, b)"
      using run pr by (auto simp: receive_data_def Let_def bind_eq_Some_conv)
    show ?thesis
    proof (cases "err = -1")
      case True
      then have "st' = ?st\<lparr>r_heap := h, r_buffer := b\<rparr>" using run pr 4 e by (auto simp: receive_data_def Let_def)
      then show ?thesis by (simp add: same_acks_def)
    next
      case False
      let ?st2 = "?st\<lparr>r_heap := h, r_buffer := b, r_time_last_data := t_time inp\<rparr>"
      obtain c st3 where w: "write_buffer_to_file dang (t_write inp) ?st2 = Some (c, st3)"
        "st' = (if r_window st3 > MAX_WINDOW then st3\<lparr>r_window := MAX_WINDOW\<rparr> else st3)"
        using run pr 4 e False by (auto simp: receive_data_def Let_def bind_eq_Some_conv)
      then have "write_loop dang (t_write inp) ?st2 (b_first b) = Some (c, st3)"
        by (auto simp: write_buffer_to_file_def bind_eq_Some_conv)
      from write_loop_control [OF this] w(2) show ?thesis by (simp add: same_acks_def)
    qed
  qed
qed


text \<open>The packet the datagram of a turn decodes to.\<close>

definition decodes_to :: "(bytes \<Rightarrow> u32) \<Rightarrow> endian \<Rightarrow> rturn \<Rightarrow> pkt \<Rightarrow> bool" where
  "decodes_to crc e inp p \<longleftrightarrow> (\<exists>a block. t_pkt inp = Some (a, block) \<and> pkt_get_type p = PTYPE_DATA \<and>
     pkt_decode crc e (t_payload_ok inp) (Some (turn_buf inp)) (turn_len inp) block = Some (PKT_OK, p))"

lemma receive_datagram_control:
  assumes inv: "rcv_inv chunk m ps st" and a: "t_pkt inp = Some (a, block)" "a \<notin> set ps"
    and run: "receive_datagram crc e dang inp (st\<lparr>r_heap := (r_heap st)\<lparr>pkts := (pkts (r_heap st))(a \<mapsto> block)\<rparr>\<rparr>) = Some (f, st')"
  shows "(r_lastack_to_send st' = r_lastack_to_send st \<or>
      (\<exists>p. decodes_to crc e inp p \<and> pkt_get_length p = 0 \<and> r_lastack_to_send st' = uint (pkt_get_seqnum p))) \<and>
    (same_acks st st' \<or> f = Continue \<and> (\<exists>s. one_ack crc e PTYPE_NACK s st st'))"
proof -
  define st0 where "st0 = st\<lparr>r_start := (if r_reset_time st then t_start inp else r_start st), r_reset_time := False,
    r_n_accumulated := r_n_accumulated st + 1\<rparr>"
  have inv0: "rcv_inv chunk m ps st0" using inv by (simp add: st0_def)
  have same: "r_acks st0 = r_acks st" "r_last_acked st0 = r_last_acked st" "r_lastack_to_send st0 = r_lastack_to_send st"
    by (simp_all add: st0_def)
  obtain code p where dec: "pkt_decode crc e (t_payload_ok inp) (Some (turn_buf inp)) (turn_len inp) block = Some (code, p)"
    using run a(1) by (auto simp: receive_datagram_def Let_def bind_eq_Some_conv)
  show ?thesis
  proof (cases "code \<noteq> PKT_OK \<or> pkt_get_type p \<noteq> PTYPE_DATA")
    case True
    then show ?thesis using run a(1) dec by (auto simp: receive_datagram_def Let_def pkt_del_def same_acks_def)
  next
    case False
    let ?st1 = "st0\<lparr>r_heap := (r_heap st0)\<lparr>pkts := (pkts (r_heap st0))(a \<mapsto> p)\<rparr>\<rparr>"
    have "rcv_inv chunk m ps ?st1" using a(2) by (intro rcv_inv_pkts [OF inv0]) auto
    moreover have "receive_data crc e dang inp a p ?st1 = Some (f, st')"
      using run False a dec by (cases "r_reset_time st") (simp_all add: receive_datagram_def Let_def st0_def)
    moreover have "decodes_to crc e inp p" using False a(1) dec by (simp add: decodes_to_def)
    ultimately show ?thesis
      using receive_data_control [of chunk m ps ?st1 crc e dang inp a p f st'] same by (auto simp: same_acks_def one_ack_def)
  qed
qed

text \<open>A turn: nothing is sent, or one NACK, or one ACK with the number of pieces written.\<close>

lemma rcv_turn_control:
  assumes inv: "rcv_inv chunk m ps st" and ok: "input_ok crc e chunk m st inp"
    and run: "rcv_turn crc e lenient inp st = Some (f, st')"
  shows "\<exists>m' ps'. m \<le> m' \<and> rcv_inv chunk m' ps' st' \<and>
    (r_lastack_to_send st' = r_lastack_to_send st \<or>
      (\<exists>p. decodes_to crc e inp p \<and> pkt_get_length p = 0 \<and> r_lastack_to_send st' = uint (pkt_get_seqnum p))) \<and>
    (same_acks st st' \<or> (\<exists>s. one_ack crc e PTYPE_NACK s st st') \<or> one_ack crc e PTYPE_ACK (int (m' mod 256)) st st')"
proof (cases "t_ready inp = -1 \<or> \<not> t_pollin inp")
  case True
  then have "same_acks st st'" "r_lastack_to_send st' = r_lastack_to_send st"
    using run by (auto simp: rcv_turn_def Let_def same_acks_def split: if_splits option.splits)
  moreover obtain m' ps' where "m \<le> m'" "rcv_inv chunk m' ps' st'" using rcv_turn_ok [OF inv ok] run by auto
  ultimately show ?thesis by blast
next
  case False
  obtain a block where a: "t_pkt inp = Some (a, block)" "pkts (r_heap st) a = None" using ok by (auto simp: input_ok_def)
  let ?st = "st\<lparr>r_ready := t_ready inp\<rparr>"
  let ?st1 = "?st\<lparr>r_heap := (r_heap ?st)\<lparr>pkts := (pkts (r_heap ?st))(a \<mapsto> block)\<rparr>\<rparr>"
  have inv0: "rcv_inv chunk m ps ?st" "input_ok crc e chunk m ?st inp" using inv ok by (simp_all add: input_ok_def)
  have na: "a \<notin> set ps" using holds_facts(2) [OF rcv_inv_facts(1) [OF inv]] a(2) by auto
  obtain g st2 m' ps' where d: "receive_datagram crc e lenient inp ?st1 = Some (g, st2)" "m \<le> m'" "rcv_inv chunk m' ps' st2"
    using receive_datagram_ok [OF inv0 a(1)] by blast
  note c = receive_datagram_control [OF inv0(1) a(1) na d(1)]
  have same: "same_acks ?st st2 = same_acks st st2" "one_ack crc e ty s ?st st2 = one_ack crc e ty s st st2" for ty s
    by (simp_all add: same_acks_def one_ack_def)
  show ?thesis
  proof (cases "g = Go \<and> ack_due inp st2")
    case due: False
    then have "st' = st2" using False run a d(1) by (auto simp: rcv_turn_def Let_def)
    then show ?thesis using c d(2,3) unfolding same by auto
  next
    case due: True
    let ?s = "(r_last_writed st2 + 1) mod MAX_SEQNUM"
    obtain r st3 where s: "send_ack crc e inp st2 ?s PTYPE_ACK (free_slots st2) = Some (r, st3)"
      "st' = st3\<lparr>r_n_accumulated := 0, r_reset_time := True, r_bypass := False\<rparr>"
      using False run a d(1) due by (auto simp: rcv_turn_def Let_def bind_eq_Some_conv)
    have "rcv_inv chunk m' ps' st'" using rcv_inv_acks [OF send_ack_frame [OF s(1)] d(3)] s(2) by simp
    moreover have "same_acks st2 st3 \<or> one_ack crc e PTYPE_ACK ?s st2 st3"
      by (rule send_ack_control [OF _ free_slots_bounds [OF d(3)] s(1)]) simp
    moreover have "same_acks st st2" using c due unfolding same by auto
    ultimately have "rcv_inv chunk m' ps' st'" "same_acks st st' \<or> one_ack crc e PTYPE_ACK ?s st st'"
      using s(2) by (auto simp: same_acks_def one_ack_def)
    moreover have "r_lastack_to_send st' = r_lastack_to_send st2" using s(2) send_ack_others [OF s(1)] by simp
    ultimately show ?thesis using c d(2) unfolding expected [OF d(3)] by auto
  qed
qed

end
