(* ===== verification/File_Transfer.thy ===== *)
theory File_Transfer
  imports Sender_Control Receiver_Control
begin

text \<open>
  The two programs and the network between them. A state is a sender, a receiver and the
  acknowledgements sent so far, each with the number of pieces written when it was sent. The
  network may lose, repeat, reorder and damage what it carries. Two things are asked of it:
  what the checksums let pass was sent, and it was not delayed for more than \<open>lifetime\<close> pieces.
\<close>

section \<open>The network\<close>

text \<open>Sequence numbers are taken modulo 256 and a window has 31 of them: 225 is what remains.\<close>

definition lifetime :: nat where
  "lifetime = 225"

text \<open>What a turn of the sender finds on its socket.\<close>

definition ack_delivery :: "(bytes \<Rightarrow> u32) \<Rightarrow> endian \<Rightarrow> (nat \<times> bytes) list \<Rightarrow> rcv \<Rightarrow> sturn \<Rightarrow> bool" where
  "ack_delivery crc e acks R inp \<longleftrightarrow> ack_ok inp \<and>
     (\<forall>d block p. u_ack inp = Some d \<and> Sender.ACK_SIZE \<le> length d \<and>
        pkt_decode crc e (u_payload_ok inp) (Some (take Sender.ACK_SIZE d)) Sender.ACK_SIZE block = Some (PKT_OK, p) \<longrightarrow>
        (\<exists>t. (t, take Sender.ACK_SIZE d) \<in> set acks \<and> nat (r_nb_writed R) \<le> t + lifetime))"

text \<open>What a turn of the receiver finds on its socket, and the memory it gets.\<close>

definition data_delivery :: "(bytes \<Rightarrow> u32) \<Rightarrow> endian \<Rightarrow> (nat \<Rightarrow> bytes) \<Rightarrow> sender \<Rightarrow> rturn \<Rightarrow> bool" where
  "data_delivery crc e chunk S inp \<longleftrightarrow> (\<forall>p. decodes_to crc e inp p \<longrightarrow> t_payload_ok inp \<and>
     (\<exists>d k. t_read inp = Some d \<and> d \<in> set (s_out S) \<and> arrives crc e chunk (nat (s_nb_sended S)) k d \<and>
        nat (s_nb_sended S) \<le> k + lifetime))"

definition memory_ok :: "rcv \<Rightarrow> rturn \<Rightarrow> bool" where
  "memory_ok R inp \<longleftrightarrow> full_writes (t_write inp) \<and> length (t_stack inp) = MAX_PKT_SIZE \<and>
     (\<forall>n. t_node inp = Some n \<longrightarrow> nodes (r_heap R) n = None) \<and>
     (\<exists>a block. t_pkt inp = Some (a, block) \<and> pkts (r_heap R) a = None)"

inductive transfer :: "(bytes \<Rightarrow> u32) \<Rightarrow> endian \<Rightarrow> (nat \<Rightarrow> bytes) \<Rightarrow> sender \<Rightarrow> rcv \<Rightarrow> (nat \<times> bytes) list \<Rightarrow> bool"
  for crc e chunk where
  start: "nodes hs = Map.empty \<Longrightarrow> length b = Sender.ACK_SIZE \<Longrightarrow> nodes hr = Map.empty \<Longrightarrow>
    transfer crc e chunk (sender_init hs b) (rcv_init hr) []"
| sender: "transfer crc e chunk S R acks \<Longrightarrow> sender_running S \<Longrightarrow> file_ok crc chunk S inp \<Longrightarrow>
    ack_delivery crc e acks R inp \<Longrightarrow> sender_turn crc e inp S = Some (gone, S') \<Longrightarrow> transfer crc e chunk S' R acks"
| receiver: "transfer crc e chunk S R acks \<Longrightarrow> rcv_running R \<Longrightarrow> memory_ok R inp \<Longrightarrow>
    data_delivery crc e chunk S inp \<Longrightarrow> rcv_turn crc e lenient inp R = Some (f, R') \<Longrightarrow>
    transfer crc e chunk S R' (acks @ map (Pair (nat (r_nb_writed R'))) (drop (length (r_acks R)) (r_acks R')))"

section \<open>The invariant of the two programs\<close>

text \<open>The file as far as it was read.\<close>

definition so_far :: "nat \<Rightarrow> (nat \<Rightarrow> bytes) \<Rightarrow> nat \<Rightarrow> bytes" where
  "so_far N chunk k = (if k < N then chunk k else [])"

definition ack_ghost :: "(bytes \<Rightarrow> u32) \<Rightarrow> endian \<Rightarrow> nat \<Rightarrow> nat \<times> bytes \<Rightarrow> bool" where
  "ack_ghost crc e a = (\<lambda>(t, d). \<exists>q. d = ack_wire crc e q \<and> p_tr q = 0 \<and>
     (p_type q = 3 \<or> p_type q = 2 \<and> t \<le> a \<and> p_seqnum q = of_nat t))"

definition transfer_inv :: "(bytes \<Rightarrow> u32) \<Rightarrow> endian \<Rightarrow> (nat \<Rightarrow> bytes) \<Rightarrow> nat \<Rightarrow> nat \<Rightarrow> nat \<Rightarrow> nat \<Rightarrow>
    sender \<Rightarrow> rcv \<Rightarrow> (nat \<times> bytes) list \<Rightarrow> bool" where
  "transfer_inv crc e chunk N n a m S R acks \<longleftrightarrow>
     (\<exists>ps. snd_inv crc e chunk N n ps S) \<and> (\<exists>qs. rcv_inv (so_far N chunk) m qs R) \<and> n \<le> a \<and> a \<le> m \<and>
     r_last_acked R = int (a mod 256) \<and>
     (r_lastack_to_send R = -2 \<or> s_last_ack_to_receive S \<noteq> -1 \<and> r_lastack_to_send R = int (N mod 256)) \<and>
     (s_EOF_ACKED S = 0 \<or> s_last_ack_to_receive S \<noteq> -1 \<and> a = N) \<and> (\<forall>x \<in> set acks. ack_ghost crc e a x)"

lemma written_le_read:
  assumes "rcv_inv (so_far N chunk) m qs R"
  shows "m \<le> N"
proof (rule ccontr)
  assume "\<not> m \<le> N"
  then show False using rcv_inv_facts(6) [OF assms, of N] by (simp add: so_far_def)
qed

lemma carries_so_far: "carries (so_far N chunk) k q \<longleftrightarrow> k < N \<and> carries chunk k q"
  by (auto simp: carries_def so_far_def unat_eq_0)

lemma rcv_inv_so_far:
  assumes inv: "rcv_inv (so_far N chunk) m qs R" and le: "N \<le> N'"
  shows "rcv_inv (so_far N' chunk) m qs R"
proof -
  have m: "m \<le> N" by (rule written_le_read [OF inv])
  have "map (so_far N' chunk) [0..<m] = map (so_far N chunk) [0..<m]" using m le by (simp add: so_far_def)
  moreover have "\<exists>k q. m \<le> k \<and> k \<le> m + 30 \<and> pkts (r_heap R) x = Some q \<and> carries (so_far N' chunk) k q" if "x \<in> set qs" for x
    using rcv_inv_facts(7) [OF inv that] le unfolding carries_so_far by (meson less_le_trans)
  moreover have "\<forall>k < m. so_far N' chunk k \<noteq> []"
    using rcv_inv_facts(6) [OF inv] m le by (auto simp: so_far_def split: if_splits)
  ultimately show ?thesis using inv unfolding rcv_inv_def by (simp del: map_eq_conv)
qed

section \<open>A turn of the sender\<close>

lemma decode_ack_wire:
  assumes "pkt_decode crc e ok (Some (ack_wire crc e q)) 10 block = Some (PKT_OK, p)" "p_tr q = 0" "p_type q = 2 \<or> p_type q = 3"
  shows "p_type p = p_type q" "p_seqnum p = p_seqnum q"
proof -
  have t: "p_type q \<noteq> 0" "p_type q \<noteq> 1" using assms(3) by auto
  then have "pkt_decode crc e ok (Some (ack_wire crc e q)) 10 block = Some (PKT_OK, zero_pkt\<lparr>p_type := p_type q,
      p_tr := p_tr q, p_window := p_window q, p_seqnum := p_seqnum q, p_timestamp := p_timestamp q, p_crc1 := crc (ack_header e q)\<rparr>)"
    using pkt_decode_ack [of 10 q "rev (le32 (crc (ack_header e q)))" crc e ok "[]" block]
    by (simp add: ack_wire_def Let_def)
  then show "p_type p = p_type q" "p_seqnum p = p_seqnum q" using assms(1) by auto
qed

lemma mod_eq_unique: "(of_nat i :: u8) = of_nat j \<Longrightarrow> i < j + 256 \<Longrightarrow> j < i + 256 \<Longrightarrow> i = j"
  by (rule mod_256_eq) (metis of_nat_eq_iff seq_of_nat)

text \<open>An acknowledgement the sender takes carries the number of pieces written at some time.\<close>

lemma acked_number:
  assumes del: "ack_delivery crc e acks R inp" and gh: "\<forall>x \<in> set acks. ack_ghost crc e a x"
    and d: "u_ack inp = Some d" "Sender.ACK_SIZE \<le> length d"
      "pkt_decode crc e (u_payload_ok inp) (Some (take Sender.ACK_SIZE d)) Sender.ACK_SIZE block = Some (PKT_OK, p)"
      "pkt_get_type p \<noteq> PTYPE_NACK"
  shows "\<exists>t \<le> a. nat (r_nb_writed R) \<le> t + lifetime \<and> pkt_get_seqnum p = of_nat t"
proof -
  obtain t where t: "(t, take Sender.ACK_SIZE d) \<in> set acks" "nat (r_nb_writed R) \<le> t + lifetime"
    using del d(1-3) unfolding ack_delivery_def by blast
  obtain q where q: "take Sender.ACK_SIZE d = ack_wire crc e q" "p_tr q = 0"
    "p_type q = 3 \<or> p_type q = 2 \<and> t \<le> a \<and> p_seqnum q = of_nat t"
    using bspec [OF gh t(1)] by (auto simp: ack_ghost_def)
  have "pkt_decode crc e (u_payload_ok inp) (Some (ack_wire crc e q)) 10 block = Some (PKT_OK, p)"
    using d(3) q(1) by (simp add: Sender.ACK_SIZE_def)
  from decode_ack_wire [OF this q(2)] have p: "p_type p = p_type q" "p_seqnum p = p_seqnum q" using q(3) by blast+
  have "p_type q \<noteq> 3" using d(4) p(1) by (auto simp: pkt_get_type_def)
  then show ?thesis using q(3) p(2) t(2) by (auto simp: pkt_get_seqnum_def)
qed

lemma transfer_sender:
  assumes inv: "transfer_inv crc e chunk N n a m S R acks" and f: "file_ok crc chunk S inp"
    and del: "ack_delivery crc e acks R inp" and run: "sender_turn crc e inp S = Some (gone, S')"
  shows "\<exists>N' n'. transfer_inv crc e chunk N' n' a m S' R acks \<and> N \<le> N'"
proof -
  obtain ps qs where i: "snd_inv crc e chunk N n ps S" "rcv_inv (so_far N chunk) m qs R" "n \<le> a" "a \<le> m"
    "r_last_acked R = int (a mod 256)"
    "r_lastack_to_send R = -2 \<or> s_last_ack_to_receive S \<noteq> -1 \<and> r_lastack_to_send R = int (N mod 256)"
    "s_EOF_ACKED S = 0 \<or> s_last_ack_to_receive S \<noteq> -1 \<and> a = N" "\<forall>x \<in> set acks. ack_ghost crc e a x"
    using inv unfolding transfer_inv_def by blast
  have ok: "snd_input_ok crc chunk S inp" using f del by (simp add: snd_input_ok_def ack_delivery_def)
  obtain N' n' ps' where t: "snd_inv crc e chunk N' n' ps' S'" "file_progress N S N' S'" "ack_progress crc e inp n n'"
    using sender_turn_ok [OF i(1) ok run] by blast
  have NN: "N \<le> N'" and eofN: "s_last_ack_to_receive S \<noteq> -1 \<Longrightarrow> N' = N \<and> s_last_ack_to_receive S' = s_last_ack_to_receive S"
    using t(2) by (auto simp: file_progress_def)
  have mN: "m \<le> N" by (rule written_le_read [OF i(2)])
  have win: "N' \<le> n' + 31" "s_last_ack_to_receive S' \<noteq> -1 \<Longrightarrow> N' \<le> n' + 30 \<and> s_last_ack_to_receive S' = int (N' mod 256)"
    using snd_inv_facts(5,7) [OF t(1)] by auto
  have nb: "nat (r_nb_writed R) = m" using rcv_inv_facts(4) [OF i(2)] by simp
  have na: "n' \<le> a"
  proof (cases "n' = n")
    case False
    then obtain d block p where d: "u_ack inp = Some d" "Sender.ACK_SIZE \<le> length d"
      "pkt_decode crc e (u_payload_ok inp) (Some (take Sender.ACK_SIZE d)) Sender.ACK_SIZE block = Some (PKT_OK, p)"
      "pkt_get_type p \<noteq> PTYPE_NACK" "n' \<le> n + 30" "pkt_get_seqnum p = of_nat n'"
      using t(3) by (auto simp: ack_progress_def acked_to_def)
    obtain t where t: "t \<le> a" "m \<le> t + lifetime" "pkt_get_seqnum p = of_nat t"
      using acked_number [OF del i(8) d(1-4)] nb by auto
    have "n' = t"
      using mod_eq_unique [of n' t] d(5,6) t i(3,4) mN NN win(1) by (simp add: lifetime_def)
    then show ?thesis using t(1) by simp
  qed (use i(3) in simp)
  have eof: "s_EOF_ACKED S' = 0 \<or> s_last_ack_to_receive S' \<noteq> -1 \<and> a = N'"
    using sender_turn_EOF [OF i(1) ok run]
  proof
    assume "s_EOF_ACKED S' = s_EOF_ACKED S"
    then show ?thesis using i(7) eofN by auto
  next
    assume "u_sock_in inp \<and> last_acked_by crc e inp (s_last_ack_to_receive S')"
    then obtain d block p where d: "u_ack inp = Some d" "Sender.ACK_SIZE \<le> length d"
      "pkt_decode crc e (u_payload_ok inp) (Some (take Sender.ACK_SIZE d)) Sender.ACK_SIZE block = Some (PKT_OK, p)"
      "pkt_get_type p \<noteq> PTYPE_NACK" "uint (pkt_get_seqnum p) = s_last_ack_to_receive S'"
      unfolding last_acked_by_def by blast
    obtain t where t: "t \<le> a" "m \<le> t + lifetime" "pkt_get_seqnum p = of_nat t"
      using acked_number [OF del i(8) d(1-4)] nb by auto
    have last: "s_last_ack_to_receive S' \<noteq> -1" using d(5) by (metis uint_ge_0 not_one_le_zero minus_equation_iff neg_0_le_iff_le)
    have "uint (of_nat t :: u8) = uint (of_nat N' :: u8)" using d(5) t(3) win(2) [OF last] by (simp only: seq_of_nat)
    then have "(of_nat t :: u8) = of_nat N'" by (simp only: word_uint_eq_iff)
    then have "t = N'" using mod_eq_unique [of t N'] t(1,2) i(3,4) mN NN na win(2) [OF last] by (simp add: lifetime_def)
    then show ?thesis using last t(1) i(4) mN NN by auto
  qed
  have "transfer_inv crc e chunk N' n' a m S' R acks"
    unfolding transfer_inv_def using t(1) rcv_inv_so_far [OF i(2) NN] na i(4-6,8) eof eofN by auto
  then show ?thesis using NN by blast
qed

section \<open>A turn of the receiver\<close>

text \<open>A datagram that fits the receiver's array is read whole.\<close>

lemma turn_buf_fits:
  "t_read inp = Some d \<Longrightarrow> length d \<le> MAX_PKT_SIZE \<Longrightarrow>
    turn_buf inp = d @ drop (length d) (t_stack inp) \<and> turn_len inp = length d"
  by (simp add: turn_buf_def turn_len_def)

lemma arrives_decoded:
  assumes "arrives crc e chunk N k d" "t_read inp = Some d" "t_payload_ok inp" "length (t_stack inp) = MAX_PKT_SIZE"
    "decodes_to crc e inp p"
  shows "pkt_get_tr p = 0 \<and> pkt_get_seqnum p = of_nat k \<and>
    (if k < N then p_payload p = Some (chunk k) \<and> unat (pkt_get_length p) = length (chunk k) \<and> chunk k \<noteq> [] \<and>
       length (chunk k) \<le> MAX_PAYLOAD_SIZE else pkt_get_length p = 0)"
proof -
  have len: "length d \<le> MAX_PKT_SIZE" "\<not> k < N \<Longrightarrow> length d = 12" using assms(1) by (simp_all add: arrives_def)
  obtain a block where b: "pkt_decode crc e True (Some (d @ drop (length d) (t_stack inp))) (length d) block = Some (PKT_OK, p)"
    using assms(3,5) turn_buf_fits [OF assms(2) len(1)] by (auto simp: decodes_to_def)
  have "k < N \<or> 4 \<le> length (drop (length d) (t_stack inp))" using len(2) assms(4) by (cases "k < N") simp_all
  then obtain p' where p': "pkt_decode crc e True (Some (d @ drop (length d) (t_stack inp))) (length d) block = Some (PKT_OK, p')"
    "pkt_get_tr p' = 0 \<and> pkt_get_seqnum p' = of_nat k \<and>
    (if k < N then p_payload p' = Some (chunk k) \<and> unat (pkt_get_length p') = length (chunk k) \<and> chunk k \<noteq> [] \<and>
       length (chunk k) \<le> MAX_PAYLOAD_SIZE else pkt_get_length p' = 0)"
    using assms(1) unfolding arrives_def by blast
  then show ?thesis using b by simp
qed

text \<open>What the network delivers is what the invariant of the receiver asks of it.\<close>

lemma delivered_honest:
  assumes del: "data_delivery crc e chunk S inp" and st: "length (t_stack inp) = MAX_PKT_SIZE"
    and N: "nat (s_nb_sended S) = N" "m \<le> N" "N \<le> m + 31" and p: "decodes_to crc e inp p"
  shows "honest (so_far N chunk) m p"
proof -
  obtain d k where d: "t_payload_ok inp" "t_read inp = Some d" "arrives crc e chunk N k d" "N \<le> k + lifetime"
    using del p N(1) unfolding data_delivery_def by blast
  note q = arrives_decoded [OF d(3,2,1) st p]
  have "carries (so_far N chunk) j p"
    if j: "m \<le> j" "j \<le> m + 30" "j mod 256 = unat (pkt_get_seqnum p)" "pkt_get_length p \<noteq> 0" for j
  proof -
    have k: "k < N" using q j(4) by (auto split: if_splits)
    have "j mod 256 = k mod 256" using j(3) q by (simp add: unat_of_nat)
    moreover have "j < k + 256" "k < j + 256" using j(1,2) k N(2,3) d(4) unfolding lifetime_def by linarith+
    ultimately have "j = k" by (rule mod_256_eq)
    moreover have "p_length p \<noteq> 0" "unat (p_length p) = length (chunk k)" "p_payload p = Some (chunk k)" "length (chunk k) \<le> 512"
      using q k j(4) by (simp_all add: pkt_get_length_def)
    ultimately show ?thesis using k j(3) by (simp add: carries_def so_far_def)
  qed
  then show ?thesis unfolding honest_def by blast
qed

lemma delivered_ok:
  assumes mem: "memory_ok R inp" and del: "data_delivery crc e chunk S inp"
    and N: "nat (s_nb_sended S) = N" "m \<le> N" "N \<le> m + 31"
  shows "input_ok crc e (so_far N chunk) m R inp"
proof -
  have st: "length (t_stack inp) = MAX_PKT_SIZE" using mem by (simp add: memory_ok_def)
  have "honest (so_far N chunk) m p"
    if "t_pkt inp = Some (a, block)"
      "pkt_decode crc e (t_payload_ok inp) (Some (turn_buf inp)) (turn_len inp) block = Some (PKT_OK, p)" for a block p
  proof (cases "pkt_get_type p = PTYPE_DATA")
    case True
    then have "decodes_to crc e inp p" using that by (auto simp: decodes_to_def)
    then show ?thesis by (rule delivered_honest [OF del st N])
  qed (simp add: honest_def)
  then show ?thesis using mem unfolding input_ok_def memory_ok_def by blast
qed

text \<open>A data packet without payload is the end of the file, which the sender has reached.\<close>

lemma delivered_last:
  assumes del: "data_delivery crc e chunk S inp" and st: "length (t_stack inp) = MAX_PKT_SIZE"
    and inv: "snd_inv crc e chunk N n ps S" and p: "decodes_to crc e inp p" "pkt_get_length p = 0"
  shows "s_last_ack_to_receive S \<noteq> -1 \<and> uint (pkt_get_seqnum p) = int (N mod 256)"
proof -
  have "nat (s_nb_sended S) = N" using snd_inv_facts(2) [OF inv] by simp
  then obtain d where d: "t_payload_ok inp" "t_read inp = Some d" "d \<in> set (s_out S)"
    using del p(1) unfolding data_delivery_def by blast
  obtain k where k: "k \<le> N" "k = N \<longrightarrow> s_last_ack_to_receive S \<noteq> -1" "arrives crc e chunk N k d"
    using sent_arrives [OF snd_inv_facts(8) [OF inv d(3)]] by blast
  note q = arrives_decoded [OF k(3) d(2,1) st p(1)]
  have "k = N" using q p(2) k(1) by (auto split: if_splits)
  then show ?thesis using k(2) q by (simp add: seq_of_nat)
qed

lemma transfer_receiver:
  assumes inv: "transfer_inv crc e chunk N n a m S R acks" and mem: "memory_ok R inp"
    and del: "data_delivery crc e chunk S inp" and run: "rcv_turn crc e lenient inp R = Some (f, R')"
  shows "\<exists>a' m'. transfer_inv crc e chunk N n a' m' S R' (acks @ map (Pair (nat (r_nb_writed R'))) (drop (length (r_acks R)) (r_acks R')))"
proof -
  obtain ps qs where i: "snd_inv crc e chunk N n ps S" "rcv_inv (so_far N chunk) m qs R" "n \<le> a" "a \<le> m"
    "r_last_acked R = int (a mod 256)"
    "r_lastack_to_send R = -2 \<or> s_last_ack_to_receive S \<noteq> -1 \<and> r_lastack_to_send R = int (N mod 256)"
    "s_EOF_ACKED S = 0 \<or> s_last_ack_to_receive S \<noteq> -1 \<and> a = N" "\<forall>x \<in> set acks. ack_ghost crc e a x"
    using inv unfolding transfer_inv_def by blast
  have st: "length (t_stack inp) = MAX_PKT_SIZE" using mem by (simp add: memory_ok_def)
  have N: "nat (s_nb_sended S) = N" "m \<le> N" "N \<le> m + 31"
    using snd_inv_facts(2,5,7) [OF i(1)] i(3,4) written_le_read [OF i(2)] by auto
  obtain m' qs' where t: "m \<le> m'" "rcv_inv (so_far N chunk) m' qs' R'"
    "r_lastack_to_send R' = r_lastack_to_send R \<or>
      (\<exists>p. decodes_to crc e inp p \<and> pkt_get_length p = 0 \<and> r_lastack_to_send R' = uint (pkt_get_seqnum p))"
    "same_acks R R' \<or> (\<exists>s. one_ack crc e PTYPE_NACK s R R') \<or> one_ack crc e PTYPE_ACK (int (m' mod 256)) R R'"
    using rcv_turn_control [OF i(2) delivered_ok [OF mem del N] run] by blast
  have m': "m' \<le> N" "nat (r_nb_writed R') = m'" using written_le_read [OF t(2)] rcv_inv_facts(4) [OF t(2)] by auto
  have last: "r_lastack_to_send R' = -2 \<or> s_last_ack_to_receive S \<noteq> -1 \<and> r_lastack_to_send R' = int (N mod 256)"
    using t(3) i(6) delivered_last [OF del st i(1)] by metis
  let ?new = "map (Pair (nat (r_nb_writed R'))) (drop (length (r_acks R)) (r_acks R'))"
  have "\<exists>a'. a \<le> a' \<and> a' \<le> m' \<and> r_last_acked R' = int (a' mod 256) \<and> (\<forall>x \<in> set ?new. ack_ghost crc e a' x)"
    using t(4)
  proof (elim disjE exE)
    assume "same_acks R R'"
    then show ?thesis using i(4,5) t(1) by (intro exI [of _ a]) (simp add: same_acks_def)
  next
    fix s assume "one_ack crc e PTYPE_NACK s R R'"
    then show ?thesis using i(4,5) t(1) m' by (intro exI [of _ a]) (auto simp: one_ack_def ack_ghost_def)
  next
    assume "one_ack crc e PTYPE_ACK (int (m' mod 256)) R R'"
    moreover have "(word_of_int (int (m' mod 256)) :: u8) = of_nat m'" by (metis seq_of_nat word_of_int_uint)
    ultimately show ?thesis using i(4) t(1) m'
      by (intro exI [of _ m']) (auto simp: one_ack_def ack_ghost_def)
  qed
  then obtain a' where a': "a \<le> a'" "a' \<le> m'" "r_last_acked R' = int (a' mod 256)" "\<forall>x \<in> set ?new. ack_ghost crc e a' x"
    by blast
  have "ack_ghost crc e a' x" if "x \<in> set acks" for x
    using bspec [OF i(8) that] a'(1) by (auto simp: ack_ghost_def)
  moreover have "s_EOF_ACKED S = 0 \<or> s_last_ack_to_receive S \<noteq> -1 \<and> a' = N" using i(7) a'(1,2) m'(1) by auto
  ultimately have "transfer_inv crc e chunk N n a' m' S R' (acks @ ?new)"
    unfolding transfer_inv_def using i(1,3) t(2) a' last by auto
  then show ?thesis by blast
qed

lemma transfer_run_inv:
  assumes "transfer crc e chunk S R acks"
  shows "\<exists>N n a m. transfer_inv crc e chunk N n a m S R acks"
  using assms
proof (induction rule: transfer.induct)
  case (start hs b hr)
  then have "transfer_inv crc e chunk 0 0 0 0 (sender_init hs b) (rcv_init hr) []"
    using sender_init_inv rcv_init_inv unfolding transfer_inv_def
    by (intro conjI exI) (simp_all add: rcv_init_def sender_init_def)
  then show ?case by blast
next
  case (sender S R acks inp gone S')
  then show ?case using transfer_sender by metis
next
  case (receiver S R acks inp f R')
  then show ?case using transfer_receiver by metis
qed

end
