(* ===== verification/Transfer_Run.thy ===== *)
theory Transfer_Run
  imports File_Transfer
begin

text \<open>
  What the two programs guarantee together, over every run of \<open>transfer\<close>, and a complete run: the
  file ''Sal'', in one piece, is sent, written, acknowledged and closed in six turns.
\<close>

section \<open>A complete run\<close>


text \<open>Strict evaluation: the continuation of a bind waits for its argument.\<close>

lemma bind_strict: "x = y \<Longrightarrow> Option.bind x f = Option.bind y f"
  by simp

definition turn_s :: "bytes option \<Rightarrow> bytes option \<Rightarrow> addr \<Rightarrow> sturn" where
  "turn_s f d x = \<lparr>u_ready = 1, u_file_in = (f \<noteq> None), u_file = f, u_pkt = Some (x, zero_pkt), u_payload_ok = True,
     u_node = Some x, u_sock_out = True, u_now = 1000, u_times = (\<lambda>_. 1000), u_clock = (1000, 5), u_send = (\<lambda>_. True),
     u_sock_in = (d \<noteq> None), u_ack = d, u_ack_new = Some zero_pkt, u_ack_clock = (1000, 9)\<rparr>"

definition turn_r :: "bytes \<Rightarrow> addr \<Rightarrow> rturn" where
  "turn_r d x = demo_turn\<lparr>t_read := Some d, t_pkt := Some (x, zero_pkt), t_node := Some x\<rparr>"

definition sal :: bytes where "sal = [83, 97, 108]"

definition seg0 :: pkt where
  "seg0 = \<lparr>p_type = 1, p_tr = 0, p_window = 1, p_length = 3, p_seqnum = 0, p_timestamp = 1000, p_crc1 = 0,
     p_payload = Some sal, p_crc2 = 0\<rparr>"

definition eof1 :: pkt where
  "eof1 = \<lparr>p_type = 1, p_tr = 0, p_window = 31, p_length = 0, p_seqnum = 1, p_timestamp = 1000, p_crc1 = 0,
     p_payload = None, p_crc2 = 0\<rparr>"

definition ack1 :: pkt where
  "ack1 = \<lparr>p_type = 2, p_tr = 0, p_window = 31, p_length = 0, p_seqnum = 1, p_timestamp = 99, p_crc1 = 0,
     p_payload = Some [], p_crc2 = 0\<rparr>"

definition S1 :: sender where
  "S1 = demo_sender\<lparr>s_seqnum := 1, s_nb_sended := 1, s_data_sent := 1, s_rtt := (\<lambda>_. (0, 0))(0 := (1000, 5)),
     s_heap := \<lparr>nodes = [1 \<mapsto> \<lparr>n_next = Some 1, n_prev = Some 1, n_pkt = 1\<rparr>], stale = Map.empty, pkts = [1 \<mapsto> seg0]\<rparr>,
     s_buffer := \<lparr>b_first = Some 1, b_last = Some 1, b_size = 1\<rparr>, s_ready := 1,
     s_out := [data_wire crc32 Little seg0 sal]\<rparr>"

definition R1 :: rcv where
  "R1 = (rcv_init empty_heap)\<lparr>r_last_acked := 1, r_last_writed := 0, r_nb_writed := 1, r_time_last_data := 99,
     r_data_received := 1, r_ack_sent := 1,
     r_heap := \<lparr>nodes = Map.empty, stale = [1 \<mapsto> \<lparr>n_next = Some 1, n_prev = Some 1, n_pkt = 1\<rparr>],
       pkts = [1 \<mapsto> seg0\<lparr>p_crc1 := crc32 (data_header Little seg0), p_crc2 := crc32 sal\<rparr>]\<rparr>,
     r_ready := 1, r_out := sal, r_writes := 1, r_acks := [ack_wire crc32 Little ack1]\<rparr>"

lemma crc32_sal: "crc32 [83, 97, 108] \<noteq> 0"
  by code_simp

lemma decoded_seg0:
  "pkt_decode crc32 Little True (Some (data_wire crc32 Little seg0 sal @ replicate 509 0)) 19 q =
    Some (PKT_OK, seg0\<lparr>p_crc1 := crc32 (data_header Little seg0), p_crc2 := crc32 sal\<rparr>)"
  using decode_data_wire [of crc32 seg0 sal Little "replicate 509 0" q] crc32_sal
  by (simp add: sendable_def seg0_def sal_def)

lemma encoded:
  "p_type p = 1 \<Longrightarrow> p_tr p = 0 \<Longrightarrow> p_payload p = Some [83, 97, 108] \<Longrightarrow> p_length p = 3 \<Longrightarrow>
    pkt_encode crc32 Little (Some p) (Some (replicate 528 0)) (Some 0) =
      Some (PKT_OK, Some (data_wire crc32 Little p [83, 97, 108] @ replicate 509 0), Some 19)"
  "p_type p = 1 \<Longrightarrow> p_length p = 0 \<Longrightarrow> p_tr p = 0 \<Longrightarrow>
    pkt_encode crc32 Little (Some p) (Some (replicate 528 0)) (Some 0) =
      Some (PKT_OK, Some (eof_wire crc32 Little p @ replicate 516 0), Some 12)"
  "p_type p \<noteq> 1 \<Longrightarrow> p_tr p = 0 \<Longrightarrow>
    pkt_encode crc32 Little (Some p) (Some (replicate 10 0)) (Some 0) = Some (PKT_OK, Some (ack_wire crc32 Little p), Some 10)"
  using pkt_encode_data [of crc32 p "[83, 97, 108]" "replicate 528 0" Little 0] crc32_sal
    pkt_encode_eof [of p "replicate 528 0" crc32 Little 0] pkt_encode_ack [of p "replicate 10 0" crc32 Little 0]
  by (simp_all add: sendable_def)

lemmas packet_eval = pkt_set_type_def pkt_set_tr_def pkt_set_window_def pkt_set_timestamp_def pkt_set_seqnum_def
  pkt_set_length_def pkt_set_payload_def pkt_get_type_def pkt_get_tr_def pkt_get_window_def pkt_get_seqnum_def
  pkt_get_length_def pkt_get_timestamp_def pkt_get_payload_def read_bytes_def zero_pkt_def Let_def
lemmas buffer_eval = buffer_enqueue_def enq_place_def buffer_remove_def buffer_remove_acked_def find_node.simps
  is_in_buffer_def buffer_get_pkt_def buffer_print_def buffer_init_def buffer_size_def look_for_unsended_packet_def
  node_at_def node_seq_def set_next_def set_prev_def unlink_def node_free_def pkt_del_def
lemmas sender_eval = packet_eval buffer_eval sender_turn_def turn_file_def turn_send_def turn_ack_def read_file_def
  send_pkt_def look_for_timedout_packet_def handle_ack_def diff_def sender_init_def new_heap_def RTO_def
  Sender.MAX_SEQNUM_def Sender.ACK_SIZE_def turn_s_def encoded
lemmas rcv_eval = packet_eval buffer_eval rcv_turn_def receive_datagram_def receive_data_def turn_len_def turn_buf_def
  Receiver.is_in_window_def write_buffer_to_file_def write_loop.simps write_step_def read_node_def lenient_def
  write_arg_def free_slots_def ack_due_def send_ack_def rcv_init_def empty_heap_def MAX_WINDOW_def
  Receiver.MAX_SEQNUM_def Receiver.ACK_SIZE_def turn_r_def demo_turn_def encoded

lemma step1: "sender_turn crc32 Little (turn_s (Some sal) None 1) demo_sender = Some (False, S1)"
  by (simp cong: bind_strict add: sender_eval S1_def seg0_def sal_def)

lemma step2: "rcv_turn crc32 Little lenient (turn_r (data_wire crc32 Little seg0 sal) 1) (rcv_init empty_heap) = Some (Go, R1)"
  using decoded_seg0 by (simp cong: bind_strict add: rcv_eval R1_def seg0_def sal_def ack1_def)

lemma decoded_ack1: "pkt_decode crc32 Little ok (Some (ack_wire crc32 Little ack1)) 10 q =
   Some (PKT_OK, zero_pkt\<lparr>p_type := 2, p_window := 31, p_seqnum := 1, p_timestamp := 99, p_crc1 := crc32 (ack_header Little ack1)\<rparr>)"
  using pkt_decode_ack [of 10 ack1 "rev (le32 (crc32 (ack_header Little ack1)))" crc32 Little ok "[]" q]
  by (simp add: ack_wire_def Let_def ack1_def zero_pkt_def)


definition S2 :: sender where
  "S2 = S1\<lparr>s_window := 31, s_ack_received_stat := 1, s_ack_received := 1, s_buf_ack := ack_wire crc32 Little ack1\<rparr>"

lemma step3: "sender_turn crc32 Little (turn_s None (Some (ack_wire crc32 Little ack1)) 2) S1 = Some (False, S2)"
  by (simp cong: bind_strict add: sender_eval S2_def S1_def seg0_def sal_def decoded_ack1 [unfolded zero_pkt_def, simplified])

lemmas sender_loops = enq_backward.simps find_node.simps acked_loop.simps


definition S3 :: sender where
  "S3 = S2\<lparr>s_data_sent := 2, s_rtt := (\<lambda>_. (0, 0))(0 := (1000, 5), 1 := (1000, 5)),
     s_heap := \<lparr>nodes = [2 \<mapsto> \<lparr>n_next = Some 1, n_prev = Some 1, n_pkt = 2\<rparr>, 1 \<mapsto> \<lparr>n_next = Some 2, n_prev = Some 2, n_pkt = 1\<rparr>],
       stale = Map.empty, pkts = [1 \<mapsto> seg0, 2 \<mapsto> eof1]\<rparr>,
     s_buffer := \<lparr>b_first = Some 1, b_last = Some 2, b_size = Suc 1\<rparr>, s_last_ack_to_receive := 1, s_ack_received := -1,
     s_out := [data_wire crc32 Little seg0 sal, eof_wire crc32 Little eof1]\<rparr>"

lemma step4: "sender_turn crc32 Little (turn_s (Some []) None 2) S2 = Some (False, S3)"
  by (simp cong: bind_strict add: sender_eval sender_loops S3_def S2_def S1_def seg0_def eof1_def sal_def)

lemma ntohl_zero: "ntohl Little (load32 Little [0, 0, 0, 0]) = 0"
  by code_simp

lemma decoded_eof1:
  "pkt_decode crc32 Little True (Some (eof_wire crc32 Little eof1 @ replicate 516 0)) 12 q =
    Some (PKT_OK, eof1\<lparr>p_crc1 := crc32 (data_header Little eof1), p_payload := Some []\<rparr>)"
proof -
  let ?h = "data_header Little eof1" and ?c = "rev (le32 (crc32 (data_header Little eof1)))"
  have r: "replicate 516 (0 :: byte) = [0, 0, 0, 0] @ replicate 512 0" by (simp add: numeral_eq_Suc)
  have w: "eof_wire crc32 Little eof1 @ replicate 516 0 = ?h @ ?c @ [] @ [0, 0, 0, 0] @ replicate 512 0"
    by (simp only: eof_wire_def r append_assoc append_Nil)
  show ?thesis unfolding w
    by (subst pkt_decode_data) (simp_all add: Let_def zero_pkt_def eof1_def ntohl_zero)
qed

definition R2 :: rcv where
  "R2 = R1\<lparr>r_lastack_to_send := 1, r_data_received := 2, r_ack_sent := 2,
     r_heap := (r_heap R1)\<lparr>pkts := (pkts (r_heap R1))(2 \<mapsto> eof1\<lparr>p_crc1 := crc32 (data_header Little eof1), p_payload := Some []\<rparr>)\<rparr>,
     r_acks := [ack_wire crc32 Little ack1, ack_wire crc32 Little ack1]\<rparr>"

lemma step5: "rcv_turn crc32 Little lenient (turn_r (eof_wire crc32 Little eof1) 2) R1 = Some (Go, R2)"
  using decoded_eof1 by (simp cong: bind_strict add: rcv_eval R2_def R1_def eof1_def ack1_def)

definition S4 :: sender where
  "S4 = S3\<lparr>s_lastack := 1, s_ack_received_stat := 2, s_min_rtt := 4, s_max_rtt := 4,
     s_heap := \<lparr>nodes = [2 \<mapsto> \<lparr>n_next = Some 2, n_prev = Some 2, n_pkt = 2\<rparr>],
       stale = [1 \<mapsto> \<lparr>n_next = None, n_prev = None, n_pkt = 1\<rparr>], pkts = [2 \<mapsto> eof1]\<rparr>,
     s_buffer := \<lparr>b_first = Some 2, b_last = Some 2, b_size = 1\<rparr>, s_EOF_ACKED := 1\<rparr>"

lemma step6: "sender_turn crc32 Little (turn_s None (Some (ack_wire crc32 Little ack1)) 3) S3 = Some (False, S4)"
  by (simp cong: bind_strict add: sender_eval sender_loops S4_def S3_def S2_def S1_def seg0_def eof1_def sal_def
      decoded_ack1 [unfolded zero_pkt_def, simplified])

section \<open>The exchange\<close>

text \<open>With at most 225 pieces nothing can be too late.\<close>

lemma early_data:
  assumes "transfer crc e chunk S R acks" "s_nb_sended S \<le> int lifetime" "t_payload_ok inp" "t_read inp = Some d" "d \<in> set (s_out S)"
  shows "data_delivery crc e chunk S inp"
proof -
  obtain N n ps where inv: "snd_inv crc e chunk N n ps S"
    using transfer_run_inv [OF assms(1)] unfolding transfer_inv_def by blast
  obtain k where "arrives crc e chunk N k d" using sent_arrives [OF snd_inv_facts(8) [OF inv assms(5)]] by blast
  then show ?thesis using assms(2-5) snd_inv_facts(2) [OF inv] unfolding data_delivery_def
    by (intro allI impI conjI exI [of _ d] exI [of _ k]) auto
qed

lemma early_ack:
  assumes "transfer crc e chunk S R acks" "r_nb_writed R \<le> int lifetime" "u_ack inp = Some d" "d \<in> snd ` set acks"
  shows "ack_delivery crc e acks R inp"
proof -
  obtain t where t: "(t, d) \<in> set acks" using assms(4) by auto
  then obtain q where q: "d = ack_wire crc e q" "p_type q = 2 \<or> p_type q = 3"
    using transfer_run_inv [OF assms(1)] unfolding transfer_inv_def ack_ghost_def by fastforce
  have "ack_ok inp" using assms(3) q ack_wire_not_data [of q crc e] by (auto simp: ack_ok_def)
  moreover have "take Sender.ACK_SIZE d = d" by (simp add: q(1) Sender.ACK_SIZE_def)
  ultimately show ?thesis using assms(2,3) t unfolding ack_delivery_def by auto
qed

lemma no_ack: "u_ack inp = None \<Longrightarrow> ack_delivery crc e acks R inp"
  by (simp add: ack_delivery_def ack_ok_def)

definition ack_list :: "nat \<Rightarrow> (nat \<times> bytes) list" where
  "ack_list k = replicate k (1, ack_wire crc32 Little ack1)"

lemmas states = S4_def S3_def S2_def S1_def R2_def R1_def sender_init_def rcv_init_def new_heap_def empty_heap_def

lemma exchange0: "transfer crc32 Little (\<lambda>_. sal) demo_sender (rcv_init empty_heap) []"
  by (rule transfer.start) (simp_all add: new_heap_def empty_heap_def Sender.ACK_SIZE_def)

lemma exchange1: "transfer crc32 Little (\<lambda>_. sal) S1 (rcv_init empty_heap) []"
  using crc32_sal
  by (intro transfer.sender [OF exchange0 _ _ no_ack step1]) (simp_all add: sender_running_def file_ok_def turn_s_def states sal_def)

lemma delivered2: "data_delivery crc32 Little (\<lambda>_. sal) S1 (turn_r (data_wire crc32 Little seg0 sal) 1)"
  by (rule early_data [OF exchange1, where d = "data_wire crc32 Little seg0 sal"])
    (simp_all add: states turn_r_def demo_turn_def lifetime_def)

lemma exchange2: "transfer crc32 Little (\<lambda>_. sal) S1 R1 (ack_list 1)"
  using transfer.receiver [OF exchange1 _ _ delivered2 step2]
  by (simp add: rcv_running_def memory_ok_def full_writes_def turn_r_def demo_turn_def states ack_list_def)

lemma delivered3: "ack_delivery crc32 Little (ack_list 1) R1 (turn_s None (Some (ack_wire crc32 Little ack1)) 2)"
  by (rule early_ack [OF exchange2]) (simp_all add: states turn_s_def lifetime_def ack_list_def)

lemma exchange3: "transfer crc32 Little (\<lambda>_. sal) S2 R1 (ack_list 1)"
  using transfer.sender [OF exchange2 _ _ delivered3 step3] by (simp add: sender_running_def file_ok_def turn_s_def states)

lemma exchange4: "transfer crc32 Little (\<lambda>_. sal) S3 R1 (ack_list 1)"
  by (intro transfer.sender [OF exchange3 _ _ no_ack step4]) (simp_all add: sender_running_def file_ok_def turn_s_def states)

lemma delivered5: "data_delivery crc32 Little (\<lambda>_. sal) S3 (turn_r (eof_wire crc32 Little eof1) 2)"
  by (rule early_data [OF exchange4, where d = "eof_wire crc32 Little eof1"])
    (simp_all add: states turn_r_def demo_turn_def lifetime_def)

lemma exchange5: "transfer crc32 Little (\<lambda>_. sal) S3 R2 (ack_list 2)"
  using transfer.receiver [OF exchange4 _ _ delivered5 step5]
  by (simp add: rcv_running_def memory_ok_def full_writes_def turn_r_def demo_turn_def states ack_list_def numeral_2_eq_2)

lemma delivered6: "ack_delivery crc32 Little (ack_list 2) R2 (turn_s None (Some (ack_wire crc32 Little ack1)) 3)"
  by (rule early_ack [OF exchange5]) (simp_all add: states turn_s_def lifetime_def ack_list_def)

lemma exchange6: "transfer crc32 Little (\<lambda>_. sal) S4 R2 (ack_list 2)"
  using transfer.sender [OF exchange5 _ _ delivered6 step6] by (simp add: sender_running_def file_ok_def turn_s_def states)

section \<open>Properties\<close>

lemma written_pieces:
  assumes "rcv_inv (so_far N chunk) m qs R"
  shows "m \<le> N" "r_nb_writed R = int m" "r_out R = concat (map chunk [0..<m])"
proof -
  show m: "m \<le> N" by (rule written_le_read [OF assms])
  show "r_nb_writed R = int m" by (rule rcv_inv_facts(4) [OF assms])
  have "map (so_far N chunk) [0..<m] = map chunk [0..<m]" using m by (simp add: so_far_def)
  then show "r_out R = concat (map chunk [0..<m])" using rcv_inv_facts(5) [OF assms] by presburger
qed

text \<open>What the two ends know when they have seen the end of the file.\<close>

lemma receiver_done:
  assumes "transfer crc e chunk S R acks" "r_last_acked R = r_lastack_to_send R"
  shows "s_last_ack_to_receive S \<noteq> -1 \<and> r_nb_writed R = s_nb_sended S \<and>
    r_out R = concat (map chunk [0..<nat (s_nb_sended S)])"
proof -
  obtain N n a m ps qs where i: "snd_inv crc e chunk N n ps S" "rcv_inv (so_far N chunk) m qs R" "n \<le> a" "a \<le> m"
    "r_last_acked R = int (a mod 256)"
    "r_lastack_to_send R = -2 \<or> s_last_ack_to_receive S \<noteq> -1 \<and> r_lastack_to_send R = int (N mod 256)"
    using transfer_run_inv [OF assms(1)] unfolding transfer_inv_def by blast
  have last: "s_last_ack_to_receive S \<noteq> -1" "r_lastack_to_send R = int (N mod 256)" using i(5,6) assms(2) by auto
  have le: "m \<le> N" "N \<le> n + 31" using written_le_read [OF i(2)] snd_inv_facts(5,7) [OF i(1)] by auto
  have "int (a mod 256) = int (N mod 256)" using i(5) last(2) assms(2) by metis
  then have "a mod 256 = N mod 256" unfolding of_nat_eq_iff .
  moreover have "a < N + 256" "N < a + 256" using i(3,4) le by linarith+
  ultimately have "a = N" by (rule mod_256_eq)
  then have "m = N" using i(4) le by simp
  then show ?thesis using last(1) written_pieces [OF i(2)] snd_inv_facts(2) [OF i(1)] by simp
qed

lemma sender_done:
  assumes "transfer crc e chunk S R acks" "s_EOF_ACKED S \<noteq> 0"
  shows "s_last_ack_to_receive S \<noteq> -1 \<and> r_out R = concat (map chunk [0..<nat (s_nb_sended S)])"
proof -
  obtain N n a m ps qs where i: "snd_inv crc e chunk N n ps S" "rcv_inv (so_far N chunk) m qs R" "a \<le> m"
    "s_EOF_ACKED S = 0 \<or> s_last_ack_to_receive S \<noteq> -1 \<and> a = N"
    using transfer_run_inv [OF assms(1)] unfolding transfer_inv_def by blast
  have "m = N" using written_le_read [OF i(2)] i(3,4) assms(2) by simp
  then show ?thesis using i(4) assms(2) written_pieces [OF i(2)] snd_inv_facts(2) [OF i(1)] by simp
qed

lemma transfer_prefix:
  assumes "transfer crc e chunk S R acks"
  shows "\<exists>m. int m \<le> s_nb_sended S \<and> r_out R = concat (map chunk [0..<m]) \<and>
    (r_last_acked R = r_lastack_to_send R \<or> s_EOF_ACKED S \<noteq> 0 \<longrightarrow> int m = s_nb_sended S)"
proof (cases "r_last_acked R = r_lastack_to_send R \<or> s_EOF_ACKED S \<noteq> 0")
  case True
  then have "r_out R = concat (map chunk [0..<nat (s_nb_sended S)])"
    using receiver_done [OF assms] sender_done [OF assms] by blast
  moreover have "0 \<le> s_nb_sended S"
    using transfer_run_inv [OF assms] unfolding transfer_inv_def by (metis of_nat_0_le_iff snd_inv_facts(2))
  ultimately show ?thesis by (intro exI [of _ "nat (s_nb_sended S)"]) simp
next
  case False
  obtain N n m ps qs where i: "snd_inv crc e chunk N n ps S" "rcv_inv (so_far N chunk) m qs R"
    using transfer_run_inv [OF assms] unfolding transfer_inv_def by blast
  show ?thesis using False written_pieces [OF i(2)] snd_inv_facts(2) [OF i(1)] by (intro exI [of _ m]) auto
qed

text \<open>C3. The transfer is correct: in every run of the two programs, over a network that loses, repeats,
  reorders and damages datagrams, but delivers neither forged ones nor any that is more than
  225 pieces old, what the receiver has written is, byte for byte, the beginning of what the
  sender has read.\<close>

theorem transfer_correct:
  assumes "transfer crc e chunk S R acks"
  shows "\<exists>m. r_nb_writed R = int m \<and> int m \<le> s_nb_sended S \<and> r_out R = concat (map chunk [0..<m])"
proof -
  obtain N n m ps qs where i: "snd_inv crc e chunk N n ps S" "rcv_inv (so_far N chunk) m qs R"
    using transfer_run_inv [OF assms] unfolding transfer_inv_def by blast
  show ?thesis using written_pieces [OF i(2)] snd_inv_facts(2) [OF i(1)] by auto
qed

theorem transfer_correct_witness:
  "\<exists>m. r_nb_writed R2 = int m \<and> int m \<le> s_nb_sended S4 \<and> r_out R2 = concat (map (\<lambda>_. sal) [0..<m])"
  by (rule transfer_correct [OF exchange6])

text \<open>C7. No piece is lost: each piece that was read and is not written yet is in the buffer of the
  sender, found under its number.\<close>

theorem unwritten_is_buffered:
  assumes "transfer crc e chunk S R acks" "r_nb_writed R \<le> int k" "int k < s_nb_sended S"
  shows "\<exists>a q. buffer_get_pkt (s_heap S) (s_buffer S) (of_nat k) = Some (Some a) \<and>
    pkts (s_heap S) a = Some q \<and> p_payload q = Some (chunk k)"
proof -
  obtain N n a m ps qs where i: "snd_inv crc e chunk N n ps S" "rcv_inv (so_far N chunk) m qs R" "n \<le> a" "a \<le> m"
    using transfer_run_inv [OF assms(1)] unfolding transfer_inv_def by blast
  have k: "n \<le> k" "k < N" using assms(2,3) i(3,4) rcv_inv_facts(4) [OF i(2)] snd_inv_facts(2) [OF i(1)] by auto
  then have j: "k - n < length ps" using snd_inv_facts(7) [OF i(1)] by auto
  obtain q where q: "pkts (s_heap S) (ps ! (k - n)) = Some q" "piece crc chunk N k q"
    using snd_inv_facts(6) [OF i(1) j] k(1) by auto
  have seq: "pseq (s_heap S) (ps ! i) = of_nat (n + i)" if "i < length ps" for i
    using arg_cong [OF snd_inv_seqs [OF i(1)], of "\<lambda>l. l ! i"] that by simp
  have "pseq (s_heap S) (ps ! j) \<noteq> of_nat k" if "j < k - n" for j
  proof
    assume "pseq (s_heap S) (ps ! j) = of_nat k"
    then have "n + j = k" using seq [of j] that j k(1) snd_inv_facts(5) [OF i(1)] by (intro mod_eq_unique) simp_all
    then show False using that by simp
  qed
  moreover have "pseq (s_heap S) (ps ! (k - n)) = of_nat k" using seq [OF j] k(1) by simp
  ultimately have "find_seq (s_heap S) (of_nat k) ps = Some (ps ! (k - n))"
    using j unfolding find_seq_def find_Some_iff by blast
  then show ?thesis using holds_get [OF snd_inv_facts(1) [OF i(1)]] q k(2) by (simp add: piece_def sendable_def)
qed

theorem unwritten_is_buffered_witness:
  "\<exists>a q. buffer_get_pkt (s_heap S1) (s_buffer S1) (of_nat 0) = Some (Some a) \<and>
    pkts (s_heap S1) a = Some q \<and> p_payload q = Some sal"
  by (rule unwritten_is_buffered [OF exchange1]) (simp_all add: states)

text \<open>When the receiver leaves its loop because it has acknowledged the end of the file, the output
  is the whole file: the sender has read its end and all its pieces are written.\<close>

theorem receiver_done_complete:
  assumes "transfer crc e chunk S R acks" "r_last_acked R = r_lastack_to_send R"
  shows "s_last_ack_to_receive S \<noteq> -1 \<and> r_nb_writed R = s_nb_sended S \<and>
    r_out R = concat (map chunk [0..<nat (s_nb_sended S)])"
  by (rule receiver_done [OF assms])

theorem receiver_done_complete_witness: "r_nb_writed R2 = s_nb_sended S4 \<and> r_out R2 = concat (map (\<lambda>_. sal) [0..<1])"
  using receiver_done_complete [OF exchange6] by (simp add: states)

text \<open>When the sender leaves its loop because the end of the file was acknowledged, the receiver has
  written the whole file.\<close>

theorem sender_done_complete:
  assumes "transfer crc e chunk S R acks" "s_EOF_ACKED S \<noteq> 0"
  shows "s_last_ack_to_receive S \<noteq> -1 \<and> r_out R = concat (map chunk [0..<nat (s_nb_sended S)])"
  by (rule sender_done [OF assms])

theorem sender_done_complete_witness: "r_out R2 = concat (map (\<lambda>_. sal) [0..<1])"
  using sender_done_complete [OF exchange6] by (simp add: states)

end
