(* ===== verification/Lossy_Link.thy ===== *)
theory Lossy_Link
  imports Link_Sim Transfer_Run
begin

text \<open>
  The link simulator between the two programs: what \<open>alter_pkt\<close> does to a datagram on its way is
  noticed at the other end, so that the simulated link is a network as \<open>File_Transfer\<close> asks for.
\<close>

section \<open>The type of a decoded segment\<close>

lemma decoded_type:
  assumes "pkt_decode crc e ok (Some m) len q = Some (PKT_OK, p)"
  shows "p_type p = ucast (drop_bit 6 (hd (take 1 m) AND 0xC0))"
  using assms by (auto simp: decode_unfold bind_eq_Some_conv split: if_splits prod.splits)

lemma inverted_type: "(ucast (drop_bit 6 (NOT x AND 0xC0)) :: 2 word) = NOT (ucast (drop_bit 6 (x AND 0xC0)))" for x :: u8
  unfolding byte_masks by (rule bit_word_eqI) (auto simp: bit_simps)

lemma decoded_inverted:
  assumes "pkt_decode crc e ok (Some (NOT b # m)) len q = Some (PKT_OK, p)"
  shows "p_type p = NOT (ucast (drop_bit 6 (b AND 0xC0)))"
proof -
  have "hd (take 1 (NOT b # m)) = NOT b" by simp
  then show ?thesis using decoded_type [OF assms] by (metis inverted_type)
qed

text \<open>A control segment that is accepted has the checksum of its header.\<close>

lemma decoded_control_crc:
  assumes "pkt_decode crc e ok (Some m) len q = Some (PKT_OK, p)" "p_type p \<noteq> 1"
  shows "ntohl e (load32 e (take 4 (drop 6 m))) = crc (take 6 m)"
  using assms by (auto simp: decode_unfold bind_eq_Some_conv split: if_splits prod.splits)

section \<open>Damage is noticed\<close>

lemma not_neq: "NOT x \<noteq> x" for x :: u8
proof
  assume "NOT x = x"
  then have "bit (NOT x) 0 = bit x 0" by simp
  then show False by (simp add: bit_not_iff)
qed

context checksum
begin

lemma eof_byte_changed:
  assumes p: "p_type p = 1" and i: "1 \<le> i" "i < 12" and b: "b \<noteq> eof_wire crc e p ! i"
  shows "\<exists>st q'. pkt_decode crc e ok (Some ((eof_wire crc e p)[i := b] @ rest)) 12 q = Some (st, q') \<and> st \<in> {E_CRC, E_LENGTH}"
proof -
  let ?h = "data_header e p" let ?c = "rev (le32 (crc ?h))"
  have len: "10 \<le> (12 :: nat)" "12 \<le> (MAX_PAYLOAD_SIZE + 16 :: nat)" by simp_all
  show ?thesis
  proof (cases "i < 8")
    case True
    then have "(eof_wire crc e p)[i := b] = ?h[i := b] @ ?c" "b \<noteq> ?h ! i"
      using b by (simp_all add: eof_wire_def list_update_append nth_append)
    then show ?thesis using header_byte_changed [OF p len i(1) True] by simp
  next
    case False
    then have "(eof_wire crc e p)[i := b] = ?h @ ?c[i - 8 := b]" "b \<noteq> ?c ! (i - 8)" "i - 8 < length ?c"
      using b i by (simp_all add: eof_wire_def list_update_append nth_append)
    then show ?thesis
      using header_checksum_changed [OF p len, of "?c[i - 8 := b]" e] list_update_neq [of "i - 8" ?c b] by simp
  qed
qed

text \<open>An acknowledgement with one byte inverted is not accepted as one.\<close>

lemma control_byte_changed:
  assumes i: "i < 10" and b: "b \<noteq> ack_wire crc e q ! i"
    and dec: "pkt_decode crc e ok (Some ((ack_wire crc e q)[i := b])) len blk = Some (PKT_OK, p)"
  shows "p_type p = 1"
proof (rule ccontr)
  let ?h = "ack_header e q" let ?c = "rev (le32 (crc ?h))"
  assume "p_type p \<noteq> 1"
  note ok = decoded_control_crc [OF dec this]
  show False
  proof (cases "i < 6")
    case True
    then have "(ack_wire crc e q)[i := b] = ?h[i := b] @ ?c" "b \<noteq> ?h ! i"
      using b by (simp_all add: ack_wire_def list_update_append nth_append)
    then show False using ok one_byte [of i ?h b] True by simp
  next
    case False
    then have "(ack_wire crc e q)[i := b] = ?h @ ?c[i - 6 := b]" "b \<noteq> ?c ! (i - 6)" "i - 6 < length ?c"
      using b i by (simp_all add: ack_wire_def list_update_append nth_append)
    then show False using ok ntoh_load_inj [of "?c[i - 6 := b]" ?c e] list_update_neq [of "i - 6" ?c b] by simp
  qed
qed

text \<open>What \<open>alter_pkt\<close> makes of a datagram of the sender is that datagram, or no data segment.\<close>

lemma altered_data:
  assumes s: "sent_ok crc e chunk N eof dg" and a: "altered dg dg'"
    and dec: "pkt_decode crc e True (Some (dg' @ junk)) (length dg') blk = Some (PKT_OK, p)" "p_type p = 1"
  shows "dg' = dg"
proof -
  obtain k q where q: "piece crc chunk N k q" "if k < N then dg = data_wire crc e q (chunk k) else eof \<and> dg = eof_wire crc e q"
    using s by (auto simp: sent_ok_def)
  have ty: "p_type q = 1" "k < N \<Longrightarrow> sendable crc q (chunk k)" using q(1) by (auto simp: piece_def)
  have hd: "dg = head_byte q # tl dg"
    using q(2) by (auto simp: data_wire_def eof_wire_def data_header_def split: if_splits)
  consider "dg' = dg" | "length dg > MIN_PKT_PDATA_LEN" "dg' = truncated_pkt dg"
    | "dg' = dg[0 := NOT (dg ! 0)]" | i where "1 \<le> i" "i < length dg" "dg' = dg[i := NOT (dg ! i)]"
    using a by (auto simp: altered_def) (metis One_nat_def Suc_leI neq0_conv)
  then show ?thesis
  proof cases
    case 1
    then show ?thesis .
  next
    case 2
    then have k: "k < N" "dg = data_wire crc e q (chunk k)"
      using q(2) by (auto simp: MIN_PKT_PDATA_LEN_def split: if_splits)
    have "dg' = (hd dg OR 0x20) # take 11 (tl dg)"
      using 2(2) hd by (cases dg) (simp_all add: truncated_pkt_def MIN_PKT_PDATA_LEN_def)
    moreover have "length dg' = 12" using 2 by (simp add: truncated_pkt_def MIN_PKT_PDATA_LEN_def)
    ultimately show ?thesis
      using truncated_wire_rejected [OF checksum_axioms ty(2) [OF k(1)], of e True junk blk] dec(1) k(2) by auto
  next
    case 3
    then have "dg' = NOT (head_byte q) # tl dg" using hd by (metis list_update_code(2) nth_Cons_0)
    then have "p_type p = NOT (p_type q)" using decoded_inverted [of crc e True "head_byte q" "tl dg @ junk"] dec(1) head_type [of q] by simp
    then show ?thesis using ty(1) dec(2) by simp
  next
    case (4 i)
    have b: "NOT (dg ! i) \<noteq> dg ! i" by (rule not_neq)
    show ?thesis
    proof (cases "k < N")
      case True
      then have "dg = data_wire crc e q (chunk k)" using q(2) by simp
      then show ?thesis
        using wire_byte_changed [OF ty(2) [OF True] 4(1), of "NOT (dg ! i)" e junk blk] 4 b dec(1) by auto
    next
      case False
      then have "dg = eof_wire crc e q" using q(2) by simp
      then show ?thesis
        using eof_byte_changed [OF ty(1) 4(1), of "NOT (dg ! i)" e True junk blk] 4 b dec(1) by auto
    qed
  qed
qed

end


section \<open>A network as the transfer asks for\<close>

text \<open>What arrives is what \<open>alter_pkt\<close> makes of a datagram of the sender; when it is one of its
  datagrams it is not too old.\<close>

lemma altered_delivery:
  assumes "checksum crc" "transfer crc e chunk S R acks" "dg \<in> set (s_out S)" "altered dg dg'"
    "dg' = dg \<Longrightarrow> \<exists>k. arrives crc e chunk (nat (s_nb_sended S)) k dg \<and> nat (s_nb_sended S) \<le> k + lifetime"
    "t_read inp = Some dg'" "t_payload_ok inp"
  shows "data_delivery crc e chunk S inp"
proof -
  obtain N n ps where inv: "snd_inv crc e chunk N n ps S"
    using transfer_run_inv [OF assms(2)] unfolding transfer_inv_def by blast
  note s = snd_inv_facts(8) [OF inv assms(3)]
  obtain k where "arrives crc e chunk N k dg" using sent_arrives [OF s] by blast
  then have len: "length dg \<le> MAX_PKT_SIZE" by (simp add: arrives_def)
  then have "length dg' \<le> MAX_PKT_SIZE" using assms(4) by (auto simp: altered_def truncated_pkt_def)
  note buf = turn_buf_fits [OF assms(6) this]
  have "dg' = dg" if p: "decodes_to crc e inp p" for p
  proof -
    obtain blk where "pkt_decode crc e True (Some (dg' @ drop (length dg') (t_stack inp))) (length dg') blk = Some (PKT_OK, p)"
      "pkt_get_type p = PTYPE_DATA" using p assms(7) buf by (auto simp: decodes_to_def)
    then show ?thesis using checksum.altered_data [OF assms(1) s assms(4)] by (simp add: pkt_get_type_def ucast_type_eq)
  qed
  then show ?thesis using assms(3,5-7) unfolding data_delivery_def by metis
qed

section \<open>Properties\<close>

text \<open>The simulated link is a network the transfer is correct over. A datagram of the sender that
  \<open>alter_pkt\<close> has truncated or damaged, or has left alone, meets what \<open>transfer\<close> asks of a delivery
  to the receiver: if it is decoded as a data packet at all, it is the one that was sent.\<close>

theorem link_delivers_data:
  assumes "checksum crc" "transfer crc e chunk S R acks" "dg \<in> set (s_out S)"
    "arrives crc e chunk (nat (s_nb_sended S)) k dg" "nat (s_nb_sended S) \<le> k + lifetime"
    "alter_pkt env dg L = Some (dg', L')" "t_read inp = Some dg'" "t_payload_ok inp"
  shows "data_delivery crc e chunk S inp"
proof -
  obtain N n ps where inv: "snd_inv crc e chunk N n ps S"
    using transfer_run_inv [OF assms(2)] unfolding transfer_inv_def by blast
  have "dg \<noteq> []" using snd_inv_facts(8) [OF inv assms(3)]
    by (auto simp: sent_ok_def data_wire_def eof_wire_def data_header_def split: if_splits)
  then have "altered dg dg'" using alter_pkt_altered [of dg env L] assms(6) by auto
  from altered_delivery [OF assms(1-3) this _ assms(7,8)] show ?thesis using assms(4,5) by blast
qed

text \<open>A link that damages every datagram, in its byte 7.\<close>

definition bad_link :: link where
  "bad_link = demo_link\<lparr>l_err_rate := 100\<rparr>"

definition bad_env :: env where
  "bad_env = demo_env\<lparr>e_rand := (\<lambda>_. 7)\<rparr>"

lemma bad_link_damages:
  assumes "7 < length d"
  shows "\<exists>L'. alter_pkt bad_env d bad_link = Some (d[7 := NOT (d ! 7)], L')"
  using assms by (auto simp: alter_pkt_def chance_def draw_def bad_link_def bad_env_def demo_link_def demo_env_def Let_def)

theorem link_delivers_data_witness:
  "\<exists>dg' L'. alter_pkt bad_env (data_wire crc32 Little seg0 sal) bad_link = Some (dg', L') \<and>
    data_delivery crc32 Little (\<lambda>_. sal) S1 (turn_r dg' 1)"
proof -
  let ?dg = "data_wire crc32 Little seg0 sal"
  obtain N n ps where inv: "snd_inv crc32 Little (\<lambda>_. sal) N n ps S1"
    using transfer_run_inv [OF exchange1] unfolding transfer_inv_def by blast
  have out: "?dg \<in> set (s_out S1)" by (simp add: states)
  obtain k where k: "arrives crc32 Little (\<lambda>_. sal) N k ?dg" using sent_arrives [OF snd_inv_facts(8) [OF inv out]] by blast
  have N: "nat (s_nb_sended S1) = N" using snd_inv_facts(2) [OF inv] by simp
  then have "nat (s_nb_sended S1) \<le> k + lifetime" by (simp add: states lifetime_def)
  moreover have "7 < length ?dg" by simp
  from bad_link_damages [OF this] obtain L' where a: "alter_pkt bad_env ?dg bad_link = Some (?dg[7 := NOT (?dg ! 7)], L')" by blast
  ultimately have "data_delivery crc32 Little (\<lambda>_. sal) S1 (turn_r (?dg[7 := NOT (?dg ! 7)]) 1)"
    using k N by (intro link_delivers_data [OF checksum_crc32 exchange1 out _ _ a]) (simp_all add: turn_r_def demo_turn_def)
  then show ?thesis using a by blast
qed

text \<open>On the way back the same holds, except for a damaged first byte that turns an acknowledgement
  into a data segment, which the 10 bytes of the sender's array are too short for.\<close>

theorem link_delivers_acks:
  assumes "checksum crc" "transfer crc e chunk S R acks" "(t, d) \<in> set acks" "nat (r_nb_writed R) \<le> t + lifetime"
    "alter_pkt env d L = Some (d', L')" "u_ack inp = Some d'" "not_data d'"
  shows "ack_delivery crc e acks R inp"
proof -
  obtain q where q: "d = ack_wire crc e q" "p_type q = 2 \<or> p_type q = 3"
    using transfer_run_inv [OF assms(2)] assms(3) unfolding transfer_inv_def ack_ghost_def by fastforce
  then have len: "length d = 10" by simp
  then have "d \<noteq> []" by auto
  then have "altered d d'" using alter_pkt_altered [of d env L] assms(5) by auto
  then have a: "d' = d \<or> (\<exists>i < 10. d' = d[i := NOT (d ! i)])"
    using len by (auto simp: altered_def MIN_PKT_PDATA_LEN_def)
  then have take: "take Sender.ACK_SIZE d' = d'" using len by (auto simp: Sender.ACK_SIZE_def)
  have "d' = d" if p: "pkt_decode crc e ok (Some d') Sender.ACK_SIZE blk = Some (PKT_OK, p)" for ok blk p
  proof (rule ccontr)
    assume "d' \<noteq> d"
    then obtain i where i: "i < 10" "d' = d[i := NOT (d ! i)]" using a by blast
    have "p_type p = 1"
      using checksum.control_byte_changed [OF assms(1) i(1) not_neq, where e = e and q = q] p i(2) q(1) by blast
    moreover have "hd (take 1 d') = hd d'" by (cases d') simp_all
    ultimately show False using decoded_type [OF p] assms(7) by (simp add: not_data_def)
  qed
  then show ?thesis using assms(3,4,6,7) take unfolding ack_delivery_def ack_ok_def by auto
qed


theorem link_delivers_acks_witness:
  "\<exists>d' L'. alter_pkt bad_env (ack_wire crc32 Little ack1) bad_link = Some (d', L') \<and>
    ack_delivery crc32 Little (ack_list 1) R1 (turn_s None (Some d') 2)"
proof -
  let ?d = "ack_wire crc32 Little ack1"
  have "7 < length ?d" by simp
  from bad_link_damages [OF this] obtain L' where a: "alter_pkt bad_env ?d bad_link = Some (?d[7 := NOT (?d ! 7)], L')" by blast
  have "hd (?d[7 := NOT (?d ! 7)]) = hd ?d" by (simp add: ack_wire_def ack_header_def)
  moreover have "not_data ?d" by (rule ack_wire_not_data) (simp add: ack1_def)
  ultimately have "not_data (?d[7 := NOT (?d ! 7)])" by (simp add: not_data_def)
  then have "ack_delivery crc32 Little (ack_list 1) R1 (turn_s None (Some (?d[7 := NOT (?d ! 7)])) 2)"
    by (intro link_delivers_acks [OF checksum_crc32 exchange2 _ _ a]) (simp_all add: ack_list_def turn_s_def states lifetime_def)
  then show ?thesis using a by blast
qed

end
