(* ===== verification/C_Library.thy ===== *)
theory C_Library
  imports Prelude
begin

text \<open>
  The functions of the C library on text that the programs use: \<open>strtol\<close> and \<open>atoi\<close>, which
  read the options, and the conversions \<open>%d\<close> and \<open>%f\<close> of \<open>fprintf\<close>, which write the
  statistics. A string is the list of its characters without the final zero; the end pointer
  \<open>strtol\<close> sets is the rest of the string. A \<open>long\<close> has 64 bits.
\<close>

section \<open>Reading numbers\<close>

definition isspace :: "char \<Rightarrow> bool" where
  "isspace c \<longleftrightarrow> of_char c \<in> {9 :: nat, 10, 11, 12, 13, 32}"

text \<open>The value of a digit or letter; 36 for any other character, which is no digit in any base.\<close>

definition digit_value :: "char \<Rightarrow> nat" where
  "digit_value c = (let n = of_char c :: nat in
     if 48 \<le> n \<and> n \<le> 57 then n - 48
     else if 97 \<le> n \<and> n \<le> 122 then n - 87
     else if 65 \<le> n \<and> n \<le> 90 then n - 55
     else 36)"

primrec digits :: "nat \<Rightarrow> nat \<Rightarrow> string \<Rightarrow> nat \<times> string" where
  "digits b acc [] = (acc, [])"
| "digits b acc (c # cs) =
     (if digit_value c < b then digits b (acc * b + digit_value c) cs else (acc, c # cs))"

definition starts_digit :: "nat \<Rightarrow> string \<Rightarrow> bool" where
  "starts_digit b s = (case s of [] \<Rightarrow> False | c # _ \<Rightarrow> digit_value c < b)"

definition LONG_MIN :: int where "LONG_MIN = - (2 ^ 63)"
definition LONG_MAX :: int where "LONG_MAX = 2 ^ 63 - 1"

definition to_long :: "int \<Rightarrow> int" where
  "to_long n = max LONG_MIN (min LONG_MAX n)"

fun sign_of :: "string \<Rightarrow> bool \<times> string" where
  "sign_of [] = (False, [])"
| "sign_of (c # cs) = (if c = CHR ''-'' then (True, cs) else if c = CHR ''+'' then (False, cs) else (False, c # cs))"

text \<open>The base and the digits; with base 0 the prefix decides.\<close>

definition base_of :: "nat \<Rightarrow> string \<Rightarrow> nat \<times> string" where
  "base_of base s =
     (if base \<noteq> 0 then (base, s)
      else case s of
        a # x # r \<Rightarrow> if a = CHR ''0'' then
                        (if (x = CHR ''x'' \<or> x = CHR ''X'') \<and> starts_digit 16 r then (16, r) else (8, s))
                      else (10, s)
      | [a] \<Rightarrow> (if a = CHR ''0'' then 8 else 10, s)
      | [] \<Rightarrow> (10, s))"

text \<open>The bases used are 0 and 10. A text without a number gives 0 and is left where it is.\<close>

definition strtol :: "nat \<Rightarrow> string \<Rightarrow> int \<times> string" where
  "strtol base s =
     (let (neg, u) = sign_of (dropWhile isspace s);
          (b, v) = base_of base u in
      if \<not> starts_digit b v then (0, s)
      else let (n, r) = digits b 0 v in (to_long (if neg then - int n else int n), r))"

definition atoi :: "string \<Rightarrow> int" where
  "atoi s = sint (word_of_int (fst (strtol 10 s)) :: u32)"

section \<open>Printing numbers\<close>

definition digit_char :: "nat \<Rightarrow> char" where
  "digit_char d = char_of (48 + d)"

fun dec :: "nat \<Rightarrow> string" where
  "dec n = (if n < 10 then [digit_char n] else dec (n div 10) @ [digit_char (n mod 10)])"

declare dec.simps [simp del]

text \<open>The conversion \<open>%d\<close>.\<close>

definition show_d :: "int \<Rightarrow> string" where
  "show_d i = (if i < 0 then CHR ''-'' # dec (nat (- i)) else dec (nat i))"

text \<open>
  The conversion \<open>%f\<close> of a time in milliseconds that is kept in nanoseconds here: six decimals.
  The double is within one part in \<open>2 ^ 53\<close> of the quotient by \<open>10 ^ 6\<close>, so for times below
  a month the six decimals are exact.
\<close>

definition pad6 :: "nat \<Rightarrow> string" where
  "pad6 n = (let s = dec n in replicate (6 - length s) (CHR ''0'') @ s)"

definition show_ms :: "int \<Rightarrow> string" where
  "show_ms ns = (let n = nat \<bar>ns\<bar> in
     (if ns < 0 then ''-'' else '''') @ dec (n div 1000000) @ ''.'' @ pad6 (n mod 1000000))"

section \<open>What is printed is read back\<close>

lemma digit_char_value: "d < 10 \<Longrightarrow> digit_value (digit_char d) = d"
  by (simp add: digit_value_def digit_char_def of_char_of)

lemma digit_char_neq:
  assumes "d < 10"
  shows "\<not> isspace (digit_char d)" "digit_char d \<noteq> CHR ''-''" "digit_char d \<noteq> CHR ''+''"
    "of_char (digit_char d) \<noteq> (10 :: nat)"
proof -
  have n: "of_char (digit_char d) = 48 + d" using assms by (simp add: digit_char_def of_char_of)
  then show "\<not> isspace (digit_char d)" "of_char (digit_char d) \<noteq> (10 :: nat)" by (simp_all add: isspace_def)
  show "digit_char d \<noteq> CHR ''-''" "digit_char d \<noteq> CHR ''+''"
    using n by (auto dest!: arg_cong [of _ _ "of_char :: char \<Rightarrow> nat"])
qed

lemma digits_dec:
  "digits 10 acc (dec n @ r) = digits 10 (acc * 10 ^ length (dec n) + n) r"
proof (induction n arbitrary: acc r rule: dec.induct)
  case (1 n)
  show ?case
  proof (cases "n < 10")
    case True
    then show ?thesis by (simp add: dec.simps [of n] digit_char_value)
  next
    case False
    have "digits 10 acc (dec n @ r) = digits 10 acc (dec (n div 10) @ digit_char (n mod 10) # r)"
      using False by (simp add: dec.simps [of n])
    also have "\<dots> = digits 10 (acc * 10 ^ length (dec (n div 10)) + n div 10) (digit_char (n mod 10) # r)"
      by (rule 1 [OF False])
    also have "\<dots> = digits 10 (acc * 10 ^ length (dec n) + n) r"
      using False by (simp add: dec.simps [of n] digit_char_value algebra_simps)
    finally show ?thesis .
  qed
qed

lemma dec_digits: "c \<in> set (dec n) \<Longrightarrow> \<exists>d < 10. c = digit_char d"
proof (induction n rule: dec.induct)
  case (1 n)
  show ?case
  proof (cases "n < 10")
    case True
    then show ?thesis using 1(2) by (auto simp: dec.simps [of n])
  next
    case False
    then have "c = digit_char (n mod 10) \<or> c \<in> set (dec (n div 10))" using 1(2) by (simp add: dec.simps [of n])
    then show ?thesis using 1(1) [OF False] by force
  qed
qed

lemma dec_not_nil [simp]: "dec n \<noteq> []"
  by (simp add: dec.simps [of n])

lemma dec_Cons: obtains d r where "d < 10" "dec n = digit_char d # r"
  using dec_digits [of "hd (dec n)" n] by (cases "dec n") auto

lemma starts_digit_dec: "starts_digit 10 (dec n @ r)"
  by (rule dec_Cons [of n]) (auto simp: starts_digit_def digit_char_value)

lemma digits_stop: "\<not> starts_digit b r \<Longrightarrow> digits b acc r = (acc, r)"
  by (cases r) (auto simp: starts_digit_def)

lemma dropWhile_dec: "dropWhile isspace (dec n @ r) = dec n @ r" "sign_of (dec n @ r) = (False, dec n @ r)"
  by (rule dec_Cons [of n], simp add: digit_char_neq)+

lemma to_long_id: "LONG_MIN \<le> i \<Longrightarrow> i \<le> LONG_MAX \<Longrightarrow> to_long i = i"
  by (simp add: to_long_def)

text \<open>What \<open>%d\<close> prints, \<open>strtol\<close> reads back, whatever follows that is not a digit.\<close>

lemma strtol_show_d:
  assumes "LONG_MIN \<le> i" "i \<le> LONG_MAX" "\<not> starts_digit 10 r"
  shows "strtol 10 (show_d i @ r) = (i, r)"
proof (cases "i < 0")
  case True
  have "\<not> isspace (CHR ''-'')" by (simp add: isspace_def)
  then show ?thesis using True assms
    by (simp add: strtol_def show_d_def base_of_def starts_digit_dec digits_dec digits_stop to_long_id)
next
  case False
  then show ?thesis using assms
    by (simp add: strtol_def show_d_def base_of_def dropWhile_dec starts_digit_dec digits_dec digits_stop to_long_id)
qed

lemma atoi_show_d:
  assumes "- (2 ^ 31) \<le> i" "i < 2 ^ 31"
  shows "atoi (show_d i) = i"
proof -
  have "strtol 10 (show_d i @ []) = (i, [])"
    using assms by (intro strtol_show_d) (simp_all add: LONG_MIN_def LONG_MAX_def starts_digit_def)
  then show ?thesis using assms by (simp add: atoi_def signed_of_int signed_take_bit_int_eq_self)
qed

text \<open>With base 0 the same holds: no printed number but 0 starts with a zero.\<close>

lemma dec_first: "0 < n \<Longrightarrow> \<exists>d r. 0 < d \<and> d < 10 \<and> dec n = digit_char d # r"
proof (induction n rule: dec.induct)
  case (1 n)
  show ?case
  proof (cases "n < 10")
    case True
    then show ?thesis using 1(2) by (auto simp: dec.simps [of n])
  next
    case False
    then have "0 < n div 10" by (simp add: div_greater_zero_iff)
    from 1(1) [OF False this] obtain d r where "0 < d" "d < 10" "dec (n div 10) = digit_char d # r" by auto
    then show ?thesis using False by (auto simp: dec.simps [of n])
  qed
qed

lemma digit_char_0: "digit_char 0 = CHR ''0''"
proof -
  have "digit_char 0 = char_of (of_char (CHR ''0'') :: nat)" unfolding digit_char_def by simp
  then show ?thesis by (simp only: char_of_char)
qed

lemma digit_char_zero: "d < 10 \<Longrightarrow> digit_char d = CHR ''0'' \<longleftrightarrow> d = 0"
  using digit_char_value [of d] digit_char_value [of 0] by (auto simp: digit_char_0)

lemma base_of_dec: "base_of 0 (dec n) = (if n = 0 then 8 else 10, dec n)"
proof (cases "n = 0")
  case True
  then show ?thesis by (simp add: base_of_def dec.simps [of 0] digit_char_zero)
next
  case False
  then obtain d r where "0 < d" "d < 10" "dec n = digit_char d # r" using dec_first [of n] by auto
  then show ?thesis using False by (cases r) (simp_all add: base_of_def digit_char_zero)
qed

lemma strtol_0_show_d:
  assumes "LONG_MIN \<le> i" "i \<le> LONG_MAX"
  shows "strtol 0 (show_d i) = (i, [])"
proof -
  have minus: "\<not> isspace (CHR ''-'')" by (simp add: isspace_def)
  have d: "dropWhile isspace (dec n) = dec n" "sign_of (dec n) = (False, dec n)" "starts_digit 10 (dec n)"
    "digits 10 0 (dec n) = (n, [])" for n
    using dropWhile_dec [of n "[]"] starts_digit_dec [of n "[]"] digits_dec [of 0 n "[]"] by simp_all
  have z: "dec 0 = ''0''" by (simp add: dec.simps [of 0] digit_char_0)
  show ?thesis
  proof (cases "i = 0")
    case True
    then show ?thesis
      by (simp add: strtol_def show_d_def z isspace_def base_of_def starts_digit_def digit_value_def to_long_id assms [unfolded True])
  next
    case False
    then show ?thesis using assms
      by (simp add: strtol_def show_d_def minus d base_of_dec to_long_id)
  qed
qed

end
