(* ===== verification/Packet_Types.thy ===== *)
theory Packet_Types
  imports Packet_Codec C_Library
begin

text \<open>
  The typing of the structure \<open>pkt\<close>: a kind that exists, a length in range and, when there is a
  payload, a block of exactly that length. The codec and the setters keep it, and what has it
  can be encoded. It is not enough for \<open>pkt_print\<close>, which takes the payload for a string.
\<close>

section \<open>Well-typed packets\<close>

definition well_typed :: "pkt \<Rightarrow> bool" where
  "well_typed p \<longleftrightarrow> p_type p \<noteq> 0 \<and> unat (p_length p) \<le> MAX_PAYLOAD_SIZE \<and>
     (case p_payload p of None \<Rightarrow> True | Some pl \<Rightarrow> length pl = unat (p_length p))"

lemma typed_decode: "pkt_decode crc e ok (Some m) len q = Some (PKT_OK, p) \<Longrightarrow> well_typed p"
  by (drule decode_accepted) (auto simp: well_typed_def)

lemma typed_set_type:
  assumes "well_typed p"
  shows "well_typed (snd (pkt_set_type p t))"
proof -
  have "ucast t \<noteq> (0 :: 2 word)" if "\<not> t < 1" "\<not> t > 3"
  proof -
    have "unat t = 1 \<or> unat t = 2 \<or> unat t = 3" using that by (auto simp: word_less_nat_alt)
    then have "t = 1 \<or> t = 2 \<or> t = 3" by (auto simp: word_unat_eq_iff)
    then show ?thesis by auto
  qed
  then show ?thesis using assms by (auto simp: pkt_set_type_def well_typed_def split: option.splits)
qed

lemma typed_setters:
  assumes "well_typed p"
  shows "well_typed (snd (pkt_set_tr p r))" "well_typed (snd (pkt_set_window p w))" "well_typed (snd (pkt_set_seqnum p s))"
    "well_typed (snd (pkt_set_timestamp p ts))" "well_typed (snd (pkt_set_crc1 p c))" "well_typed (snd (pkt_set_crc2 p c))"
  using assms
  by (auto simp: well_typed_def pkt_set_tr_def pkt_set_window_def pkt_set_seqnum_def pkt_set_timestamp_def pkt_set_crc1_def
      pkt_set_crc2_def split: option.splits)

lemma typed_set_payload:
  assumes "well_typed p" "pkt_set_payload ok p data n = Some (st, q)"
  shows "well_typed q"
  using assms
  by (auto simp: well_typed_def pkt_set_payload_def pkt_set_length_def bind_eq_Some_conv length_read_bytes
      split: if_splits option.splits)

lemma typed_encode:
  assumes "well_typed p" "length b = MAX_PKT_SIZE"
  shows "pkt_encode crc e (Some p) (Some b) (Some n) \<noteq> None"
proof (cases "p_type p \<noteq> 1")
  case True
  then show ?thesis using assms(2) pkt_encode_ack [of p b crc e n] ucast_eq_up_iff [of "p_tr p" 0, where ?'b = 8]
    by (cases "p_tr p = 0") (simp_all add: pkt_encode_def ucast_type_eq pkt_get_type_def pkt_get_tr_def)
next
  case False
  then show ?thesis using assms
    by (auto simp: pkt_encode_def ucast_type_eq Let_def pkt_get_length_def pkt_get_payload_def well_typed_def
        write_bytes_def read_bytes_def pkt_get_type_def split: option.splits)
qed

section \<open>Printing a packet\<close>

text \<open>What \<open>%s\<close> prints for a block of memory: up to its first zero byte, which has to be there.\<close>

definition c_string :: "bytes \<Rightarrow> string option" where
  "c_string m = (if 0 \<in> set m then Some (map (\<lambda>b. char_of (unat b)) (takeWhile (\<lambda>b. b \<noteq> 0) m)) else None)"

definition print_field :: "string \<Rightarrow> int \<Rightarrow> string" where
  "print_field label i = label @ show_d i @ char_of (10 :: nat) # ''    ''"

text \<open>The 32-bit fields are printed as signed numbers; glibc prints \<open>(null)\<close> for a null pointer.\<close>

definition pkt_print :: "pkt \<Rightarrow> string option" where
  "pkt_print p = do {
     pl \<leftarrow> (case p_payload p of None \<Rightarrow> Some ''(null)'' | Some m \<Rightarrow> c_string m);
     Some (''    '' @ print_field ''type: '' (uint (p_type p)) @ print_field ''truncated: '' (uint (p_tr p)) @
       print_field ''window: '' (uint (p_window p)) @ print_field ''length: '' (uint (p_length p)) @
       print_field ''seqnum '' (uint (p_seqnum p)) @ print_field ''timestamp: '' (sint (p_timestamp p)) @
       print_field ''crc1: '' (sint (p_crc1 p)) @ ''payload: '' @ pl @ char_of (10 :: nat) # ''    '')
   }"

text \<open>The payload is no string: without a zero byte in it, \<open>pkt_print\<close> reads past its end.\<close>

lemma pkt_print_undefined_iff: "pkt_print p = None \<longleftrightarrow> (\<exists>m. p_payload p = Some m \<and> 0 \<notin> set m)"
  by (auto simp: pkt_print_def c_string_def split: option.splits)

section \<open>Properties\<close>



end
