(* ===== verification/Sockets.thy ===== *)
theory Sockets
  imports C_Library
begin

text \<open>
  The functions on sockets, \<open>src/src/socket/socket_manager.c\<close>, over the part of the operating
  system they see: the record \<open>os\<close> holds the table of open descriptors, the files by name and
  what was printed on the standard error (as the format strings of the calls). What the
  system decides is the record \<open>kernel\<close>; the answers of one run of a program, which makes
  each call at most once for given arguments. A descriptor a call gets that is not open, or of the wrong
  kind, makes the call fail with -1. \<open>None\<close> also stands for a call that blocks for ever.
\<close>

section \<open>Addresses, descriptors and the system\<close>

text \<open>\<open>struct sockaddr_in6\<close>; the port is in network order, so its value depends on the host.\<close>

record sockaddr_in6 =
  sin6_family :: u16
  sin6_port :: u16
  sin6_flowinfo :: u32
  sin6_addr :: bytes
  sin6_scope_id :: u32

datatype sockopt = Reuseaddr | V6only | Nonblock

record socket =
  sk_bound :: "sockaddr_in6 option"
  sk_peer :: "sockaddr_in6 option"
  sk_queue :: "(sockaddr_in6 \<times> bytes) list"
  sk_opts :: "sockopt set"

datatype fdobj = Sock socket | File string

record os =
  os_fds :: "int \<Rightarrow> fdobj option"
  os_files :: "string \<Rightarrow> bytes option"
  os_err :: "string list"

text \<open>
  \<open>k_arrive\<close>: the datagrams that reach a socket while \<open>recvfrom\<close> blocks; \<open>k_getaddrinfo\<close>: the
  error code and, when it is 0, the list of addresses; \<open>k_open\<close>, \<open>k_fopen\<close>: by file name.
\<close>

record kernel =
  k_socket :: int
  k_setsockopt :: "sockopt \<Rightarrow> bool"
  k_bind :: bool
  k_connect :: bool
  k_fcntl :: bool
  k_recvfrom :: bool
  k_arrive :: "(sockaddr_in6 \<times> bytes) list"
  k_getaddrinfo :: "string \<Rightarrow> int \<times> sockaddr_in6 list"
  k_gai_strerror :: "int \<Rightarrow> string"
  k_open :: "string \<Rightarrow> int"
  k_fopen :: "string \<Rightarrow> bool"

definition print_err :: "string \<Rightarrow> os \<Rightarrow> os" where
  "print_err fmt os = os\<lparr>os_err := os_err os @ [fmt]\<rparr>"

definition new_socket :: socket where
  "new_socket = \<lparr>sk_bound = None, sk_peer = None, sk_queue = [], sk_opts = {}\<rparr>"

definition set_fd :: "int \<Rightarrow> fdobj option \<Rightarrow> os \<Rightarrow> os" where
  "set_fd fd v os = os\<lparr>os_fds := (os_fds os)(fd := v)\<rparr>"

definition socket_of :: "os \<Rightarrow> int \<Rightarrow> socket option" where
  "socket_of os fd = (case os_fds os fd of Some (Sock s) \<Rightarrow> Some s | _ \<Rightarrow> None)"

definition sys_socket :: "kernel \<Rightarrow> os \<Rightarrow> int \<times> os" where
  "sys_socket k os =
     (if k_socket k = -1 then (-1, os) else (k_socket k, set_fd (k_socket k) (Some (Sock new_socket)) os))"

definition sys_bind :: "kernel \<Rightarrow> int \<Rightarrow> sockaddr_in6 \<Rightarrow> os \<Rightarrow> int \<times> os" where
  "sys_bind k fd a os = (case socket_of os fd of
       Some s \<Rightarrow> if k_bind k then (0, set_fd fd (Some (Sock (s\<lparr>sk_bound := Some a\<rparr>))) os) else (-1, os)
     | None \<Rightarrow> (-1, os))"

definition sys_connect :: "kernel \<Rightarrow> int \<Rightarrow> sockaddr_in6 \<Rightarrow> os \<Rightarrow> int \<times> os" where
  "sys_connect k fd a os = (case socket_of os fd of
       Some s \<Rightarrow> if k_connect k then (0, set_fd fd (Some (Sock (s\<lparr>sk_peer := Some a\<rparr>))) os) else (-1, os)
     | None \<Rightarrow> (-1, os))"

definition sys_setsockopt :: "kernel \<Rightarrow> int \<Rightarrow> sockopt \<Rightarrow> os \<Rightarrow> int \<times> os" where
  "sys_setsockopt k fd p os = (case socket_of os fd of
       Some s \<Rightarrow> if k_setsockopt k p then (0, set_fd fd (Some (Sock (s\<lparr>sk_opts := insert p (sk_opts s)\<rparr>))) os)
                 else (-1, os)
     | None \<Rightarrow> (-1, os))"

text \<open>\<open>recvfrom\<close> with \<open>MSG_PEEK\<close>: the sender of the first datagram, which stays in the queue.\<close>

definition sys_peek :: "kernel \<Rightarrow> int \<Rightarrow> os \<Rightarrow> (sockaddr_in6 option \<times> os) option" where
  "sys_peek k fd os = (case socket_of os fd of
       None \<Rightarrow> Some (None, os)
     | Some s \<Rightarrow>
         if \<not> k_recvfrom k then Some (None, os)
         else let s = s\<lparr>sk_queue := sk_queue s @ k_arrive k\<rparr> in
           (case sk_queue s of [] \<Rightarrow> None
            | (from, _) # _ \<Rightarrow> Some (Some from, set_fd fd (Some (Sock s)) os)))"

definition sys_close :: "int \<Rightarrow> os \<Rightarrow> int \<times> os" where
  "sys_close fd os = (if os_fds os fd = None then (-1, os) else (0, set_fd fd None os))"

text \<open>\<open>open\<close>, which creates the file when it does not exist (with \<open>O_CREAT\<close>) and never empties it.\<close>

definition sys_open :: "kernel \<Rightarrow> bool \<Rightarrow> string \<Rightarrow> os \<Rightarrow> int \<times> os" where
  "sys_open k creat f os =
     (if k_open k f < 0 then (-1, os)
      else let os = (if creat \<and> os_files os f = None then os\<lparr>os_files := (os_files os)(f \<mapsto> [])\<rparr> else os) in
        (k_open k f, set_fd (k_open k f) (Some (File f)) os))"

section \<open>The functions of socket\_manager.c\<close>

definition with_port :: "endian \<Rightarrow> int \<Rightarrow> sockaddr_in6 \<Rightarrow> sockaddr_in6" where
  "with_port e port a = (if port > 0 then a\<lparr>sin6_port := htons e (word_of_int port)\<rparr> else a)"

definition wait_for_client :: "kernel \<Rightarrow> int \<Rightarrow> os \<Rightarrow> (int \<times> os) option" where
  "wait_for_client k sfd os = do {
     (sock, os) \<leftarrow> sys_peek k sfd os;
     (case sock of None \<Rightarrow> Some (-1, print_err ''Error in recvfrom() '' os)
      | Some sock \<Rightarrow>
          (case sys_connect k sfd sock os of (done, os) \<Rightarrow>
             if done = -1 then Some (-1, print_err ''Error in connect() '' os) else Some (0, os)))
   }"

text \<open>The error message, the null pointer for none, and \<open>*rval\<close>.\<close>

definition real_address :: "kernel \<Rightarrow> string \<Rightarrow> sockaddr_in6 \<Rightarrow> (string option \<times> sockaddr_in6) option" where
  "real_address k address rval =
     (case k_getaddrinfo k address of (s, result) \<Rightarrow>
        if s \<noteq> 0 then Some (Some (k_gai_strerror k s), rval)
        else (case result of [] \<Rightarrow> None | a # _ \<Rightarrow> Some (None, a)))"

text \<open>The descriptor, the two addresses as the function leaves them, and the system.\<close>

definition create_socket ::
  "endian \<Rightarrow> kernel \<Rightarrow> sockaddr_in6 option \<Rightarrow> int \<Rightarrow> sockaddr_in6 option \<Rightarrow> int \<Rightarrow> os \<Rightarrow>
   int \<times> sockaddr_in6 option \<times> sockaddr_in6 option \<times> os" where
  "create_socket e k source_addr src_port dest_addr dst_port os =
     (case sys_socket k os of (sock, os) \<Rightarrow>
        if sock = -1 then (-1, source_addr, dest_addr, print_err ''Error in socket() '' os)
        else
          let source_addr = map_option (with_port e src_port) source_addr;
              (bound, os) = (case source_addr of None \<Rightarrow> (0, os) | Some a \<Rightarrow> sys_bind k sock a os) in
          if bound \<noteq> 0 then (-1, source_addr, dest_addr, print_err ''Error in bind() '' os)
          else
            let dest_addr = map_option (with_port e dst_port) dest_addr;
                (connected, os) = (case dest_addr of None \<Rightarrow> (0, os) | Some a \<Rightarrow> sys_connect k sock a os) in
            if connected \<noteq> 0 then (-1, source_addr, dest_addr, print_err ''Error in connect() '' os)
            else (sock, source_addr, dest_addr, os))"

section \<open>Descriptors\<close>

lemma set_fd_simps [simp]:
  "os_fds (set_fd fd v os) = (os_fds os)(fd := v)" "os_files (set_fd fd v os) = os_files os"
  "os_err (set_fd fd v os) = os_err os" "set_fd fd w (set_fd fd v os) = set_fd fd w os"
  "socket_of (set_fd fd (Some (Sock s)) os) fd = Some s"
  by (simp_all add: set_fd_def socket_of_def)

lemma print_err_simps [simp]:
  "os_fds (print_err m os) = os_fds os" "os_files (print_err m os) = os_files os"
  "os_err (print_err m os) = os_err os @ [m]" "socket_of (print_err m os) fd = socket_of os fd"
  by (simp_all add: print_err_def socket_of_def)

lemma socket_of_Some: "socket_of os fd = Some s \<longleftrightarrow> os_fds os fd = Some (Sock s)"
  by (auto simp: socket_of_def split: option.splits fdobj.splits)

text \<open>\<open>socket\<close> returns -1 or a descriptor that was not open.\<close>

definition fresh_socket :: "kernel \<Rightarrow> os \<Rightarrow> bool" where
  "fresh_socket k os \<longleftrightarrow> k_socket k = -1 \<or> (0 \<le> k_socket k \<and> os_fds os (k_socket k) = None)"

text \<open>The state of the new socket when all calls succeed.\<close>

definition made_socket :: "sockaddr_in6 option \<Rightarrow> sockaddr_in6 option \<Rightarrow> socket" where
  "made_socket src dst = new_socket\<lparr>sk_bound := src, sk_peer := dst\<rparr>"

definition make_succeeds :: "kernel \<Rightarrow> sockaddr_in6 option \<Rightarrow> sockaddr_in6 option \<Rightarrow> bool" where
  "make_succeeds k src dst \<longleftrightarrow> k_socket k \<noteq> -1 \<and> (src \<noteq> None \<longrightarrow> k_bind k) \<and> (dst \<noteq> None \<longrightarrow> k_connect k)"

section \<open>What a program relies on\<close>

text \<open>After a failure: one message, and the descriptor, if there was one, is still open.\<close>

definition failed_make :: "kernel \<Rightarrow> os \<Rightarrow> os \<Rightarrow> bool" where
  "failed_make k os os' \<longleftrightarrow> (\<exists>m. os_err os' = os_err os @ [m]) \<and> os_files os' = os_files os \<and>
     (if k_socket k = -1 then os_fds os' = os_fds os
      else (\<exists>sk. os_fds os' = (os_fds os)(k_socket k \<mapsto> Sock sk)))"

text \<open>
  The contract of the functions that make and connect sockets. Two modules give it: this one
  and that of the exercise, theory \<open>Chat\<close>.
\<close>

locale socket_api =
  fixes make :: "endian \<Rightarrow> kernel \<Rightarrow> sockaddr_in6 option \<Rightarrow> int \<Rightarrow> sockaddr_in6 option \<Rightarrow> int \<Rightarrow> os \<Rightarrow>
      int \<times> sockaddr_in6 option \<times> sockaddr_in6 option \<times> os"
    and wait :: "kernel \<Rightarrow> int \<Rightarrow> os \<Rightarrow> (int \<times> os) option"
  assumes make_ok: "make_succeeds k src dst \<Longrightarrow> make e k src sp dst dp os =
      (k_socket k, map_option (with_port e sp) src, map_option (with_port e dp) dst,
       set_fd (k_socket k) (Some (Sock (made_socket (map_option (with_port e sp) src) (map_option (with_port e dp) dst)))) os)"
    and make_fails: "\<not> make_succeeds k src dst \<Longrightarrow> \<exists>src' dst' os'. make e k src sp dst dp os = (-1, src', dst', os') \<and> failed_make k os os'"
    and wait_ok: "socket_of os fd = Some s \<Longrightarrow> k_recvfrom k \<Longrightarrow> k_connect k \<Longrightarrow> sk_queue s @ k_arrive k = (a0, d) # q \<Longrightarrow>
      wait k fd os = Some (0, set_fd fd (Some (Sock (s\<lparr>sk_queue := (a0, d) # q, sk_peer := Some a0\<rparr>))) os)"
    and wait_fails: "socket_of os fd = None \<or> \<not> k_recvfrom k \<or> \<not> k_connect k \<Longrightarrow> wait k fd os = Some (r, os') \<Longrightarrow>
      r = -1 \<and> (\<exists>m. os_err os' = os_err os @ [m]) \<and> os_files os' = os_files os \<and>
      (\<forall>x. x \<noteq> fd \<longrightarrow> os_fds os' x = os_fds os x) \<and> (os_fds os' fd = None \<longleftrightarrow> os_fds os fd = None)"
    and wait_blocks: "socket_of os fd = Some s \<Longrightarrow> k_recvfrom k \<Longrightarrow> sk_queue s @ k_arrive k = [] \<Longrightarrow> wait k fd os = None"
begin

lemma make_result: "fst (make e k src sp dst dp os) = (if make_succeeds k src dst then k_socket k else -1)"
  using make_ok [of k src dst e sp dp os] make_fails [of k src dst e sp dp os] by auto

lemma make_files: "make e k src sp dst dp os = (r, src', dst', os') \<Longrightarrow> os_files os' = os_files os"
  using make_ok [of k src dst e sp dp os] make_fails [of k src dst e sp dp os]
  by (cases "make_succeeds k src dst") (auto simp: failed_make_def)

text \<open>On failure something is printed, and the descriptor, once there, stays open.\<close>

lemma make_failure:
  assumes "fresh_socket k os" "make e k src sp dst dp os = (-1, src', dst', os')"
  shows "(\<exists>m. os_err os' = os_err os @ [m]) \<and> (os_fds os' = os_fds os \<longleftrightarrow> k_socket k = -1)"
proof -
  have n: "\<not> make_succeeds k src dst"
    using make_result [of e k src sp dst dp os] assms(2) by (auto simp: make_succeeds_def split: if_splits)
  have "os_fds os x = None \<Longrightarrow> os_fds os \<noteq> (os_fds os)(x \<mapsto> v)" for x v by (metis fun_upd_same option.distinct(1))
  then show ?thesis using make_fails [OF n, of e sp dp os] assms
    by (auto simp: fresh_socket_def failed_make_def split: if_splits)
qed

text \<open>The first message stays in the queue: to wait again changes nothing, but for what arrived meanwhile.\<close>

lemma wait_again:
  assumes "wait k fd os = Some (0, os1)" "k_recvfrom k'" "k_connect k'"
  shows "\<exists>s a0 d q. socket_of os1 fd = Some s \<and> sk_peer s = Some a0 \<and> sk_queue s = (a0, d) # q \<and>
    wait k' fd os1 = Some (0, set_fd fd (Some (Sock (s\<lparr>sk_queue := sk_queue s @ k_arrive k'\<rparr>))) os1)"
proof -
  obtain s where s: "socket_of os fd = Some s" "k_recvfrom k" "k_connect k" using wait_fails [of os fd k 0 os1] assms(1) by force
  obtain a0 d q where q: "sk_queue s @ k_arrive k = (a0, d) # q"
    using wait_blocks [OF s(1,2)] assms(1) by (cases "sk_queue s @ k_arrive k") auto
  have os1: "os1 = set_fd fd (Some (Sock (s\<lparr>sk_queue := (a0, d) # q, sk_peer := Some a0\<rparr>))) os"
    using wait_ok [OF s q] assms(1) by simp
  then show ?thesis using wait_ok [of os1 fd "s\<lparr>sk_queue := (a0, d) # q, sk_peer := Some a0\<rparr>" k' a0 d "q @ k_arrive k'"]
      assms(2,3) by (cases s) simp
qed

text \<open>A server: bound to its address, connected to whom the first message came from.\<close>

lemma serve:
  assumes "make_succeeds k (Some a) None" "k_recvfrom k" "k_connect k" "k_arrive k = (a0, d) # q"
    "make e k (Some a) sp None dp os = (fd, src', dst', os1)"
  shows "wait k fd os1 = Some (0, set_fd fd (Some (Sock \<lparr>sk_bound = Some (with_port e sp a), sk_peer = Some a0,
      sk_queue = k_arrive k, sk_opts = {}\<rparr>)) os)"
proof -
  have m: "fd = k_socket k" "os1 = set_fd fd (Some (Sock (made_socket (Some (with_port e sp a)) None))) os"
    using make_ok [OF assms(1), of e sp dp os] assms(5) by auto
  have "wait k fd os1 = Some (0, set_fd fd (Some (Sock ((made_socket (Some (with_port e sp a)) None)\<lparr>sk_queue := (a0, d) # q,
      sk_peer := Some a0\<rparr>))) os1)"
    using assms(2-4) by (intro wait_ok) (simp_all add: m made_socket_def new_socket_def)
  then show ?thesis using assms(4) by (simp add: m made_socket_def new_socket_def)
qed

end

text \<open>The steps of \<open>create_socket\<close> and \<open>wait_for_client\<close>, for this module and the other.\<close>

lemma sys_bind_new: "sys_bind k fd a (set_fd fd (Some (Sock s)) os) =
    (if k_bind k then (0, set_fd fd (Some (Sock (s\<lparr>sk_bound := Some a\<rparr>))) os) else (-1, set_fd fd (Some (Sock s)) os))"
  by (simp add: sys_bind_def)

lemma sys_connect_new: "sys_connect k fd a (set_fd fd (Some (Sock s)) os) =
    (if k_connect k then (0, set_fd fd (Some (Sock (s\<lparr>sk_peer := Some a\<rparr>))) os) else (-1, set_fd fd (Some (Sock s)) os))"
  by (simp add: sys_connect_def)

lemmas make_steps = sys_socket_def sys_bind_new sys_connect_new make_succeeds_def made_socket_def new_socket_def

lemma sys_peek_cases:
  "socket_of os fd = None \<or> \<not> k_recvfrom k \<Longrightarrow> sys_peek k fd os = Some (None, os)"
  "socket_of os fd = Some s \<Longrightarrow> k_recvfrom k \<Longrightarrow> sk_queue s @ k_arrive k = [] \<Longrightarrow> sys_peek k fd os = None"
  "socket_of os fd = Some s \<Longrightarrow> k_recvfrom k \<Longrightarrow> sk_queue s @ k_arrive k = (a0, d) # q \<Longrightarrow>
    sys_peek k fd os = Some (Some a0, set_fd fd (Some (Sock (s\<lparr>sk_queue := (a0, d) # q\<rparr>))) os)"
  by (auto simp: sys_peek_def split: option.splits)

interpretation sock: socket_api create_socket wait_for_client
proof
  fix k src dst e sp dp os
  show "make_succeeds k src dst \<Longrightarrow> create_socket e k src sp dst dp os =
      (k_socket k, map_option (with_port e sp) src, map_option (with_port e dp) dst,
       set_fd (k_socket k) (Some (Sock (made_socket (map_option (with_port e sp) src) (map_option (with_port e dp) dst)))) os)"
    by (cases src; cases dst) (simp_all add: create_socket_def make_steps)
  show "\<not> make_succeeds k src dst \<Longrightarrow> \<exists>src' dst' os'. create_socket e k src sp dst dp os = (-1, src', dst', os') \<and> failed_make k os os'"
    by (cases src; cases dst) (auto simp: create_socket_def make_steps failed_make_def Let_def)
next
  fix os fd s a0 d q and k :: kernel
  assume "socket_of os fd = Some s" "k_recvfrom k" "k_connect k" "sk_queue s @ k_arrive k = (a0, d) # q"
  then show "wait_for_client k fd os = Some (0, set_fd fd (Some (Sock (s\<lparr>sk_queue := (a0, d) # q, sk_peer := Some a0\<rparr>))) os)"
    by (simp add: wait_for_client_def sys_peek_cases(3) sys_connect_new)
next
  fix os fd r os' and k :: kernel
  assume a: "socket_of os fd = None \<or> \<not> k_recvfrom k \<or> \<not> k_connect k" "wait_for_client k fd os = Some (r, os')"
  show "r = -1 \<and> (\<exists>m. os_err os' = os_err os @ [m]) \<and> os_files os' = os_files os \<and>
      (\<forall>x. x \<noteq> fd \<longrightarrow> os_fds os' x = os_fds os x) \<and> (os_fds os' fd = None \<longleftrightarrow> os_fds os fd = None)"
  proof (cases "socket_of os fd = None \<or> \<not> k_recvfrom k")
    case True
    then show ?thesis using a(2) by (auto simp: wait_for_client_def sys_peek_cases(1))
  next
    case False
    then obtain s where s: "socket_of os fd = Some s" "k_recvfrom k" "\<not> k_connect k" using a(1) by auto
    obtain a0 d q where q: "sk_queue s @ k_arrive k = (a0, d) # q"
      using a(2) sys_peek_cases(2) [OF s(1,2)] by (cases "sk_queue s @ k_arrive k") (auto simp: wait_for_client_def)
    then show ?thesis using a(2) s
      by (auto simp: wait_for_client_def sys_peek_cases(3) sys_connect_new socket_of_Some)
  qed
next
  fix os fd s and k :: kernel
  assume "socket_of os fd = Some s" "k_recvfrom k" "sk_queue s @ k_arrive k = []"
  then show "wait_for_client k fd os = None" by (simp add: wait_for_client_def sys_peek_cases(2))
qed

section \<open>Properties\<close>

text \<open>An address of port 0, as \<open>getaddrinfo\<close> gives it, and a system where all calls succeed.\<close>

definition demo_addr :: sockaddr_in6 where
  "demo_addr = \<lparr>sin6_family = 10, sin6_port = 0, sin6_flowinfo = 0, sin6_addr = replicate 15 0 @ [1], sin6_scope_id = 0\<rparr>"

definition demo_kernel :: kernel where
  "demo_kernel = \<lparr>k_socket = 3, k_setsockopt = (\<lambda>_. True), k_bind = True, k_connect = True, k_fcntl = True,
     k_recvfrom = True, k_arrive = [(demo_addr, [1, 2])], k_getaddrinfo = (\<lambda>_. (0, [demo_addr])),
     k_gai_strerror = (\<lambda>_. ''''), k_open = (\<lambda>_. 4), k_fopen = (\<lambda>_. True)\<rparr>"

definition demo_os :: os where
  "demo_os = \<lparr>os_fds = (\<lambda>_. None), os_files = Map.empty, os_err = []\<rparr>"

lemma demo_kernel_simps [simp]:
  "k_socket demo_kernel = 3" "k_bind demo_kernel" "k_connect demo_kernel" "k_recvfrom demo_kernel"
  "k_arrive demo_kernel = [(demo_addr, [1, 2])]" "fresh_socket demo_kernel demo_os"
  "make_succeeds demo_kernel src dst" "os_fds demo_os fd = None"
  by (simp_all add: demo_kernel_def demo_os_def fresh_socket_def make_succeeds_def)

text \<open>When the calls it makes succeed, \<open>create_socket\<close> returns a descriptor of a new socket that
  is bound to the source and connected to the destination, when they are given, with the port
  asked for, when it is positive, in network order in memory on every host; no other
  descriptor changes and nothing is printed.\<close>

theorem create_socket_connects:
  assumes "make_succeeds k src dst" "create_socket e k src sp dst dp os = (r, src', dst', os')"
  shows "r = k_socket k \<and> (\<exists>s. socket_of os' r = Some s \<and> sk_bound s = src' \<and> sk_peer s = dst' \<and> sk_queue s = []) \<and>
    (src' = None \<longleftrightarrow> src = None) \<and> (dst' = None \<longleftrightarrow> dst = None) \<and>
    (\<forall>a a'. src = Some a \<and> src' = Some a' \<longrightarrow> sin6_addr a' = sin6_addr a \<and>
      store16 e (sin6_port a') = (if sp > 0 then rev (le16 (word_of_int sp)) else store16 e (sin6_port a))) \<and>
    (\<forall>a a'. dst = Some a \<and> dst' = Some a' \<longrightarrow> sin6_addr a' = sin6_addr a \<and>
      store16 e (sin6_port a') = (if dp > 0 then rev (le16 (word_of_int dp)) else store16 e (sin6_port a))) \<and>
    (\<forall>x. x \<noteq> r \<longrightarrow> os_fds os' x = os_fds os x) \<and> os_err os' = os_err os"
proof -
  have d: "r = k_socket k" "src' = map_option (with_port e sp) src" "dst' = map_option (with_port e dp) dst"
    "os' = set_fd (k_socket k) (Some (Sock (made_socket src' dst'))) os"
    using sock.make_ok [OF assms(1), of e sp dp os] assms(2) by auto
  have p: "sin6_addr (with_port e n a) = sin6_addr a \<and>
      store16 e (sin6_port (with_port e n a)) = (if n > 0 then rev (le16 (word_of_int n)) else store16 e (sin6_port a))" for n a
    by (simp add: with_port_def)
  show ?thesis unfolding d by (cases src; cases dst) (simp_all add: made_socket_def new_socket_def p)
qed

theorem create_socket_connects_witness:
  "\<exists>dst' os' s a'. create_socket Little demo_kernel None (-1) (Some demo_addr) 12345 demo_os = (3, None, dst', os') \<and>
     socket_of os' 3 = Some s \<and> sk_peer s = Some a' \<and> store16 Little (sin6_port a') = [0x30, 0x39]"
proof -
  obtain r src' dst' os' where c: "create_socket Little demo_kernel None (-1) (Some demo_addr) 12345 demo_os = (r, src', dst', os')"
    by (cases "create_socket Little demo_kernel None (-1) (Some demo_addr) 12345 demo_os") auto
  note t = create_socket_connects [OF demo_kernel_simps(7) c]
  obtain a' where a: "dst' = Some a'" using t by auto
  obtain s where s: "socket_of os' r = Some s" "sk_peer s = dst'" using t by blast
  have r: "r = 3" "src' = None" "store16 Little (sin6_port a') = rev (le16 (word_of_int 12345))" using t a by simp_all
  have "rev (le16 (word_of_int 12345)) = [0x30, 0x39]" by (simp add: le16_def)
  then show ?thesis using c r a s by auto
qed

text \<open>C37. When \<open>create_socket\<close> returns -1 it has printed one line, as documented; but unless it is
  \<open>socket\<close> itself that failed, the descriptor it got stays open and no one knows its number.\<close>

theorem create_socket_leaks:
  assumes "fresh_socket k os" "create_socket e k src sp dst dp os = (-1, src', dst', os')"
  shows "(\<exists>m. os_err os' = os_err os @ [m]) \<and> (os_fds os' = os_fds os \<longleftrightarrow> k_socket k = -1)"
  by (rule sock.make_failure [OF assms])

theorem create_socket_leaks_witness:
  "\<exists>src' dst' os'. create_socket Little (demo_kernel\<lparr>k_bind := False\<rparr>) (Some demo_addr) 80 None (-1) demo_os =
     (-1, src', dst', os') \<and> os_fds os' \<noteq> os_fds demo_os"
proof -
  let ?k = "demo_kernel\<lparr>k_bind := False\<rparr>"
  obtain src' dst' os' where c: "create_socket Little ?k (Some demo_addr) 80 None (-1) demo_os = (-1, src', dst', os')"
    by (cases "create_socket Little ?k (Some demo_addr) 80 None (-1) demo_os")
      (simp add: create_socket_def make_steps)
  have "fresh_socket ?k demo_os" by (simp add: fresh_socket_def)
  from create_socket_leaks [OF this c] c show ?thesis by auto
qed

text \<open>\<open>wait_for_client\<close> does not consume the message it waits for, and repeating it, as long as
  the calls succeed, connects to the same client: the second call leaves the socket as it is, but
  for the datagrams that arrived in between.\<close>

theorem wait_for_client_idempotent:
  assumes "wait_for_client k fd os = Some (0, os1)" "k_recvfrom k'" "k_connect k'"
  shows "\<exists>s a d q. socket_of os1 fd = Some s \<and> sk_peer s = Some a \<and> sk_queue s = (a, d) # q \<and>
    wait_for_client k' fd os1 = Some (0, set_fd fd (Some (Sock (s\<lparr>sk_queue := sk_queue s @ k_arrive k'\<rparr>))) os1)"
  by (rule sock.wait_again [OF assms])

theorem wait_for_client_idempotent_witness:
  "\<exists>os1 os2. wait_for_client demo_kernel 3 (set_fd 3 (Some (Sock new_socket)) demo_os) = Some (0, os1) \<and>
     wait_for_client demo_kernel 3 os1 = Some (0, os2) \<and> map_option sk_peer (socket_of os2 3) = Some (Some demo_addr)"
proof -
  let ?os = "set_fd 3 (Some (Sock new_socket)) demo_os"
  obtain os1 where w: "wait_for_client demo_kernel 3 ?os = Some (0, os1)" "map_option sk_peer (socket_of os1 3) = Some (Some demo_addr)"
    using sock.wait_ok [of ?os 3 new_socket demo_kernel demo_addr "[1, 2]" "[]"] by (auto simp: new_socket_def)
  have d: "k_recvfrom demo_kernel" "k_connect demo_kernel" by simp_all
  from wait_for_client_idempotent [OF w(1) d] obtain s where s: "socket_of os1 3 = Some s"
    "wait_for_client demo_kernel 3 os1 = Some (0, set_fd 3 (Some (Sock (s\<lparr>sk_queue := sk_queue s @ k_arrive demo_kernel\<rparr>))) os1)"
    by blast
  then show ?thesis using w by auto
qed

end
