(* ===== verification/Programs.thy ===== *)
theory Programs
  imports Sockets Transfer_Run
begin

text \<open>
  The two programs, \<open>main\<close> of \<open>src/src/sender.c\<close> and of \<open>src/src/receiver.c\<close>: the options, the
  sockets, the loop over what the system calls of its turns return, and the statistics file.
  The options are what \<open>getopt\<close> returns, letters with their arguments, and the positional
  arguments that remain. A list of turns may be shorter than the run: then the program is
  still in its loop, and it has no exit status. The loops print to the standard error too,
  which is not modelled; the letters \<open>[ERROR]\<close> in front of each line are left out.
\<close>

section \<open>Arguments\<close>

text \<open>The names of the file and of the statistics file; \<open>None\<close> when the usage is printed.\<close>

fun sender_options :: "(char \<times> string) list \<Rightarrow> string option \<times> string option \<Rightarrow> (string option \<times> string option) option" where
  "sender_options [] names = Some names"
| "sender_options ((opt, optarg) # opts) (filename, stats_filename) =
     (if opt = CHR ''f'' then sender_options opts (Some optarg, stats_filename)
      else if opt = CHR ''h'' then None
      else if opt = CHR ''s'' then sender_options opts (filename, Some optarg)
      else None)"

fun receiver_options :: "(char \<times> string) list \<Rightarrow> string option \<times> string option \<Rightarrow> (string option \<times> string option) option" where
  "receiver_options [] names = Some names"
| "receiver_options ((opt, optarg) # opts) (filename, stats_filename) =
     (if opt = CHR ''f'' then receiver_options opts (Some optarg, stats_filename)
      else if opt = CHR ''h'' then None
      else if opt = CHR ''s'' then receiver_options opts (filename, Some optarg)
      else None)"

text \<open>The port, a \<open>uint16_t\<close>; \<open>None\<close> when the whole argument is not a number.\<close>

definition port_arg :: "string \<Rightarrow> u16 option" where
  "port_arg arg = (case strtol 10 arg of (v, port_err) \<Rightarrow> if port_err \<noteq> [] then None else Some (word_of_int v))"

definition sender_print_usage :: "os \<Rightarrow> int \<times> os" where
  "sender_print_usage os = (1, print_err ''Usage: %s [-f filename] [-s stats_filename] receiver_ip receiver_port'' os)"

definition receiver_print_usage :: "os \<Rightarrow> int \<times> os" where
  "receiver_print_usage os = (1, print_err ''Usage: %s [-s stats_filename] listen_ip listen_port'' os)"

section \<open>The statistics\<close>

definition newline :: char where
  "newline = char_of (10 :: nat)"

definition stat_line :: "string \<Rightarrow> string \<Rightarrow> string" where
  "stat_line name v = name @ CHR '':'' # v @ [newline]"

text \<open>The file a stream is written to; glibc's \<open>fopen\<close> fails on a null pointer.\<close>

definition write_file :: "kernel \<Rightarrow> string option \<Rightarrow> string \<Rightarrow> os \<Rightarrow> int \<times> os" where
  "write_file k filename text os = (case filename of None \<Rightarrow> (-1, os)
     | Some f \<Rightarrow> if \<not> k_fopen k f then (-1, os)
                 else (0, os\<lparr>os_files := (os_files os)(f \<mapsto> map of_char text)\<rparr>))"

definition sender_stats :: "sender \<Rightarrow> int \<Rightarrow> string" where
  "sender_stats st total_time =
     stat_line ''data_sent'' (show_d (s_data_sent st)) @
     stat_line ''ack_received'' (show_d (s_ack_received_stat st)) @
     stat_line ''nack_received'' (show_d (s_nack_received st)) @
     stat_line ''min_rtt'' (show_ms (s_min_rtt st)) @
     stat_line ''max_rtt'' (show_ms (s_max_rtt st)) @
     stat_line ''total_time'' (show_ms total_time)"

definition sender_write_stats :: "kernel \<Rightarrow> string option \<Rightarrow> sender \<Rightarrow> int \<Rightarrow> os \<Rightarrow> int \<times> os" where
  "sender_write_stats k filename st total_time os = write_file k filename (sender_stats st total_time) os"

definition receiver_stats :: "rcv \<Rightarrow> string" where
  "receiver_stats st =
     stat_line ''data_received'' (show_d (r_data_received st)) @
     stat_line ''data_truncated_received'' (show_d (r_data_truncated_received st)) @
     stat_line ''ack_sent'' (show_d (r_ack_sent st)) @
     stat_line ''nack_sent'' (show_d (r_nack_sent st)) @
     stat_line ''packet_ignored'' (show_d (r_packet_ignored st)) @
     stat_line ''packet_duplicated'' (show_d (r_packet_duplicated st))"

definition receiver_write_stats :: "kernel \<Rightarrow> string option \<Rightarrow> rcv \<Rightarrow> os \<Rightarrow> int \<times> os" where
  "receiver_write_stats k filename st os = write_file k filename (receiver_stats st) os"

section \<open>The loops\<close>

text \<open>
  The result of a loop over the turns given: whether it was left, and the state. The buffer is
  freed at the end of the function, also after a \<open>break\<close>, but not where it returns inside the
  loop: when \<open>poll\<close> fails.
\<close>

fun sender_loop :: "(bytes \<Rightarrow> u32) \<Rightarrow> endian \<Rightarrow> sturn list \<Rightarrow> sender \<Rightarrow> (bool \<times> sender) option" where
  "sender_loop crc e inps st =
     (if \<not> sender_running st then do {
        (h, _) \<leftarrow> buffer_free (s_heap st) (s_buffer st);
        Some (True, st\<lparr>s_heap := h\<rparr>)
      } else case inps of [] \<Rightarrow> Some (False, st)
        | inp # inps \<Rightarrow> do {
            (gone, st) \<leftarrow> sender_turn crc e inp st;
            if gone then (if u_ready inp = -1 then Some (True, st) else do {
              (h, _) \<leftarrow> buffer_free (s_heap st) (s_buffer st);
              Some (True, st\<lparr>s_heap := h\<rparr>)
            }) else sender_loop crc e inps st
          })"

fun receiver_loop :: "(bytes \<Rightarrow> u32) \<Rightarrow> endian \<Rightarrow> rturn list \<Rightarrow> rcv \<Rightarrow> (bool \<times> rcv) option" where
  "receiver_loop crc e inps st =
     (if \<not> rcv_running st then do {
        (h, _) \<leftarrow> buffer_free (r_heap st) (r_buffer st);
        Some (True, st\<lparr>r_heap := h\<rparr>)
      } else case inps of [] \<Rightarrow> Some (False, st)
        | inp # inps \<Rightarrow> do {
            (f, st) \<leftarrow> rcv_turn crc e lenient inp st;
            if f = Return then Some (True, st) else receiver_loop crc e inps st
          })"

declare sender_loop.simps [simp del] receiver_loop.simps [simp del]

section \<open>The main functions\<close>

text \<open>
  What a run of a program is given: the uninitialised address on its stack, its memory, the
  array for acknowledgements, what the calls of each turn return, which depends on the
  descriptors polled, and the two times taken around the loop.
\<close>

record sender_input =
  si_addr :: sockaddr_in6
  si_heap :: heap
  si_buf_ack :: bytes
  si_turns :: "int \<Rightarrow> int \<Rightarrow> sturn list"
  si_start :: timespec
  si_end :: timespec

record receiver_input =
  ri_addr :: sockaddr_in6
  ri_heap :: heap
  ri_turns :: "int \<Rightarrow> rturn list"

text \<open>
  The exit status, when the program ends, the state its loop left and the system. First what
  follows the creation of the socket, then what follows the arguments, then \<open>main\<close>.
\<close>

definition sender_session :: "(bytes \<Rightarrow> u32) \<Rightarrow> endian \<Rightarrow> kernel \<Rightarrow> string option \<Rightarrow> int \<Rightarrow> int \<Rightarrow>
    sender_input \<Rightarrow> sender \<Rightarrow> os \<Rightarrow> (int option \<times> sender \<times> os) option" where
  "sender_session crc e k stats_filename sock fd w st os = do {
     (over, st) \<leftarrow> sender_loop crc e (si_turns w sock fd) st;
     if \<not> over then Some (None, st, os)
     else
       let os = snd (sys_close sock os);
           os = snd (sys_close fd os);
           total_time = snd (diff (si_start w) (si_end w));
           os = snd (sender_write_stats k stats_filename st total_time os) in
       Some (Some 0, st, os)
   }"

definition sender_start :: "(bytes \<Rightarrow> u32) \<Rightarrow> endian \<Rightarrow> kernel \<Rightarrow> string option \<Rightarrow> string option \<Rightarrow> string \<Rightarrow> u16 \<Rightarrow>
    sender_input \<Rightarrow> sender \<Rightarrow> os \<Rightarrow> (int option \<times> sender \<times> os) option" where
  "sender_start crc e k filename stats_filename receiver_ip receiver_port w st os =
     (let (fd, os) = (case filename of None \<Rightarrow> (0, os)
        | Some f \<Rightarrow> (case sys_open k False f os of (fd, os) \<Rightarrow>
            (fd, if fd < 0 then print_err ''Can't open file %s'' os else os))) in
      do {
        (err, receiver_addr) \<leftarrow> real_address k receiver_ip (si_addr w);
        if err \<noteq> None then Some (Some 1, st, print_err ''Could not resolve hostname %s : %d'' os)
        else (case create_socket e k None (-1) (Some receiver_addr) (uint receiver_port) os of (sock, _, _, os) \<Rightarrow>
          if sock < 0 then Some (Some 1, st, print_err ''Failed to create socket at %s : %d'' os)
          else sender_session crc e k stats_filename sock fd w st os)
      })"

definition sender_main :: "(bytes \<Rightarrow> u32) \<Rightarrow> endian \<Rightarrow> kernel \<Rightarrow> (char \<times> string) list \<Rightarrow> string list \<Rightarrow>
    sender_input \<Rightarrow> os \<Rightarrow> (int option \<times> sender \<times> os) option" where
  "sender_main crc e k opts args w os =
     (let st = sender_init (si_heap w) (si_buf_ack w);
          leave = (\<lambda>(r, os). Some (Some r, st, os)) in
      case sender_options opts (None, None) of None \<Rightarrow> leave (sender_print_usage os)
      | Some (filename, stats_filename) \<Rightarrow>
        (case args of [receiver_ip, port] \<Rightarrow>
          (case port_arg port of
             None \<Rightarrow> leave (sender_print_usage (print_err ''Receiver port parameter is not a number'' os))
           | Some receiver_port \<Rightarrow>
             let os = print_err ''Sender has following arguments: filename is %s, stats_filename is %s, receiver_ip is %s, receiver_port is %u'' os in
             sender_start crc e k filename stats_filename receiver_ip receiver_port w st os)
         | _ \<Rightarrow> leave (sender_print_usage (print_err ''Unexpected number of positional arguments'' os))))"

text \<open>What the writes on a descriptor opened at offset 0 leave of the file.\<close>

definition overwrite :: "bytes \<Rightarrow> bytes \<Rightarrow> bytes" where
  "overwrite old out = out @ drop (length out) old"

definition write_fd :: "int \<Rightarrow> bytes \<Rightarrow> os \<Rightarrow> os" where
  "write_fd fd out os = (case os_fds os fd of
       Some (File f) \<Rightarrow> os\<lparr>os_files := (os_files os)(f := map_option (\<lambda>old. overwrite old out) (os_files os f))\<rparr>
     | _ \<Rightarrow> os)"

definition receiver_session :: "(bytes \<Rightarrow> u32) \<Rightarrow> endian \<Rightarrow> kernel \<Rightarrow> string option \<Rightarrow> int \<Rightarrow> int \<Rightarrow>
    receiver_input \<Rightarrow> rcv \<Rightarrow> os \<Rightarrow> (int option \<times> rcv \<times> os) option" where
  "receiver_session crc e k stats_filename sock fd w st os = do {
     (error, os) \<leftarrow> wait_for_client k sock os;
     if error < 0 then Some (Some (-1), st, snd (sys_close sock (print_err ''Can't connect to client'' os)))
     else do {
       (over, st) \<leftarrow> receiver_loop crc e (ri_turns w sock) st;
       let os = write_fd fd (r_out st) os;
       if \<not> over then Some (None, st, os)
       else (case receiver_write_stats k stats_filename st os of (stats_written, os) \<Rightarrow>
         Some (Some 0, st, if stats_written \<noteq> 0 then print_err ''Stats writing failed'' os else os))
     }
   }"

definition receiver_start :: "(bytes \<Rightarrow> u32) \<Rightarrow> endian \<Rightarrow> kernel \<Rightarrow> string option \<Rightarrow> string option \<Rightarrow> string \<Rightarrow> u16 \<Rightarrow>
    receiver_input \<Rightarrow> rcv \<Rightarrow> os \<Rightarrow> (int option \<times> rcv \<times> os) option" where
  "receiver_start crc e k filename stats_filename listen_ip listen_port w st os =
     (let (fd, os) = (case filename of None \<Rightarrow> (1, os)
        | Some f \<Rightarrow> (case sys_open k True f os of (fd, os) \<Rightarrow>
            (fd, if fd < 0 then print_err ''Can't open file %s'' os else os))) in
      do {
        (err, listener_addr) \<leftarrow> real_address k listen_ip (ri_addr w);
        if err \<noteq> None then Some (Some 1, st, print_err ''Could not resolve hostname %s : %d'' os)
        else (case create_socket e k (Some listener_addr) (uint listen_port) None (-1) os of (sock, _, _, os) \<Rightarrow>
          if sock < 0 then Some (Some 1, st, print_err ''Failed to create socket at %s : %d'' os)
          else receiver_session crc e k stats_filename sock fd w st os)
      })"

definition receiver_main :: "(bytes \<Rightarrow> u32) \<Rightarrow> endian \<Rightarrow> kernel \<Rightarrow> (char \<times> string) list \<Rightarrow> string list \<Rightarrow>
    receiver_input \<Rightarrow> os \<Rightarrow> (int option \<times> rcv \<times> os) option" where
  "receiver_main crc e k opts args w os =
     (let st = rcv_init (ri_heap w);
          leave = (\<lambda>(r, os). Some (Some r, st, os)) in
      case receiver_options opts (None, None) of None \<Rightarrow> leave (receiver_print_usage os)
      | Some (filename, stats_filename) \<Rightarrow>
        (case args of [listen_ip, port] \<Rightarrow>
          (case port_arg port of
             None \<Rightarrow> leave (receiver_print_usage (print_err ''Receiver port parameter is not a number'' os))
           | Some listen_port \<Rightarrow>
             let os = print_err ''Receiver has following arguments: stats_filename is %s, listen_ip is %s, listen_port is %u'' os in
             receiver_start crc e k filename stats_filename listen_ip listen_port w st os)
         | _ \<Rightarrow> leave (receiver_print_usage (print_err ''Unexpected number of positional arguments'' os))))"

section \<open>The statistics read back\<close>

primrec split_lines :: "string \<Rightarrow> string list" where
  "split_lines [] = []"
| "split_lines (c # cs) = (if c = newline then [] # split_lines cs
     else case split_lines cs of [] \<Rightarrow> [[c]] | l # ls \<Rightarrow> (c # l) # ls)"

text \<open>The number after the colon of a line.\<close>

definition stat_value :: "string \<Rightarrow> int" where
  "stat_value l = fst (strtol 10 (tl (dropWhile (\<lambda>c. c \<noteq> CHR '':'') l)))"

lemma split_line: "newline \<notin> set l \<Longrightarrow> split_lines (l @ newline # r) = l # split_lines r"
  by (induction l) auto

lemma newline_digit: "d < 10 \<Longrightarrow> digit_char d \<noteq> newline"
  using digit_char_neq(4) [of d] by (auto simp: newline_def of_char_of)

lemma newline_minus: "CHR ''-'' \<noteq> newline"
  by (auto simp: newline_def dest!: arg_cong [of _ _ "of_char :: char \<Rightarrow> nat"] simp: of_char_of)

lemma newline_show_d: "newline \<notin> set (show_d i)"
proof -
  have "newline \<notin> set (dec n)" for n using dec_digits newline_digit by metis
  then show ?thesis using newline_minus by (auto simp: show_d_def)
qed

lemma stat_line_value:
  assumes "CHR '':'' \<notin> set name" "LONG_MIN \<le> i" "i \<le> LONG_MAX"
  shows "stat_value (name @ CHR '':'' # show_d i) = i"
proof -
  have "dropWhile (\<lambda>c. c \<noteq> CHR '':'') (name @ CHR '':'' # show_d i) = CHR '':'' # show_d i"
    using assms(1) by (induction name) auto
  moreover have "strtol 10 (show_d i @ []) = (i, [])" by (rule strtol_show_d [OF assms(2,3)]) (simp add: starts_digit_def)
  ultimately show ?thesis by (simp add: stat_value_def)
qed

lemma split_stat_line:
  assumes "newline \<notin> set name"
  shows "split_lines (stat_line name (show_d i) @ r) = (name @ CHR '':'' # show_d i) # split_lines r"
proof -
  have "CHR '':'' \<noteq> newline"
    by (auto simp: newline_def dest!: arg_cong [of _ _ "of_char :: char \<Rightarrow> nat"] simp: of_char_of)
  then show ?thesis
    using split_line [of "name @ CHR '':'' # show_d i" r] assms newline_show_d by (simp add: stat_line_def)
qed

lemma letter_newline: "of_char c \<noteq> (10 :: nat) \<Longrightarrow> newline \<noteq> c"
  by (auto simp: newline_def of_char_of)

definition read_stats :: "string \<Rightarrow> int list" where
  "read_stats text = map stat_value (split_lines text)"

lemma read_stats_line:
  assumes "newline \<notin> set name" "CHR '':'' \<notin> set name" "LONG_MIN \<le> i" "i \<le> LONG_MAX"
  shows "read_stats (stat_line name (show_d i) @ r) = i # read_stats r"
  using assms by (simp only: read_stats_def split_stat_line list.map stat_line_value not_False_eq_True)

definition receiver_counters :: "rcv \<Rightarrow> int list" where
  "receiver_counters st = [r_data_received st, r_data_truncated_received st, r_ack_sent st, r_nack_sent st,
     r_packet_ignored st, r_packet_duplicated st]"



section \<open>A sender without a file\<close>

text \<open>Nothing to send, nothing to send again.\<close>

definition sender_idle :: "sender \<Rightarrow> bool" where
  "sender_idle st \<longleftrightarrow> s_ack_received st = -1 \<and> s_pkt_tr st = -1 \<and> b_size (s_buffer st) = 0 \<and> s_EOF_ACKED st = 0"

text \<open>A turn in which the socket is writable, as the socket of a datagram always is, and nothing arrives.\<close>

definition silent_turn :: "sturn \<Rightarrow> bool" where
  "silent_turn t \<longleftrightarrow> 1 \<le> u_ready t \<and> (u_sock_in t \<longrightarrow> u_ack t = None)"

lemma idle_turn:
  assumes "sender_idle st" "silent_turn t" "\<not> u_file_in t"
  shows "sender_turn crc e t st = Some (False, st\<lparr>s_ready := u_ready t\<rparr>)"
proof -
  let ?st = "st\<lparr>s_ready := u_ready t\<rparr>"
  have s: "turn_send crc e t ?st = Some (False, ?st)" using assms(1)
    by (simp add: turn_send_def sender_idle_def look_for_timedout_packet_def look_for_unsended_packet_def Let_def)
  have a: "u_sock_in t \<Longrightarrow> turn_ack crc e t ?st = Some ?st" using assms(2) by (simp add: turn_ack_def silent_turn_def)
  show ?thesis using assms(2,3) by (cases "u_sock_out t"; cases "u_sock_in t")
      (simp_all add: sender_turn_def Let_def silent_turn_def s a)
qed

lemma idle_loop:
  "sender_idle st \<Longrightarrow> s_ready st \<noteq> 0 \<Longrightarrow> (\<And>t. t \<in> set ts \<Longrightarrow> silent_turn t \<and> \<not> u_file_in t) \<Longrightarrow>
   \<exists>r. sender_loop crc e ts st = Some (False, st\<lparr>s_ready := r\<rparr>)"
proof (induction ts arbitrary: st)
  case Nil
  then have "sender_running st" by (simp add: sender_idle_def sender_running_def)
  then have "sender_loop crc e [] st = Some (False, st\<lparr>s_ready := s_ready st\<rparr>)" by (simp add: sender_loop.simps)
  then show ?case by blast
next
  case (Cons t ts)
  let ?st = "st\<lparr>s_ready := u_ready t\<rparr>"
  have t: "silent_turn t" "\<not> u_file_in t" using Cons.prems(3) by auto
  have "sender_running st" using Cons.prems(1,2) by (simp add: sender_idle_def sender_running_def)
  then have "sender_loop crc e (t # ts) st = sender_loop crc e ts ?st"
    by (simp add: sender_loop.simps [of _ _ _ st] idle_turn [OF Cons.prems(1) t])
  moreover have i: "sender_idle ?st" "s_ready ?st \<noteq> 0" using Cons.prems(1) t(1) by (simp_all add: sender_idle_def silent_turn_def)
  obtain r where "sender_loop crc e ts ?st = Some (False, ?st\<lparr>s_ready := r\<rparr>)"
    using Cons.IH [OF i] Cons.prems(3) by auto
  ultimately show ?case by auto
qed

lemma sender_init_idle: "sender_idle (sender_init h b)" "s_ready (sender_init h b) \<noteq> 0" "s_out (sender_init h b) = []"
  by (simp_all add: sender_idle_def sender_init_def buffer_init_def)

lemma session_idle:
  assumes "\<And>t. t \<in> set (si_turns w sock fd) \<Longrightarrow> silent_turn t \<and> \<not> u_file_in t"
    "sender_session crc e k sf sock fd w (sender_init h b) os = Some (x, st, os')"
  shows "x = None \<and> s_out st = []"
proof -
  obtain r where "sender_loop crc e (si_turns w sock fd) (sender_init h b) = Some (False, (sender_init h b)\<lparr>s_ready := r\<rparr>)"
    using idle_loop [OF sender_init_idle(1,2), of "si_turns w sock fd"] assms(1) by blast
  then show ?thesis using assms(2) by (auto simp: sender_session_def sender_init_idle)
qed

lemma sender_main_cases:
  assumes "sender_main crc e k opts args w os = Some (x, st, os')"
  shows "x = Some 1 \<and> st = sender_init (si_heap w) (si_buf_ack w) \<or>
    (\<exists>f sf ip port p m. sender_options opts (None, None) = Some (f, sf) \<and> args = [ip, port] \<and> port_arg port = Some p \<and>
      sender_start crc e k f sf ip p w (sender_init (si_heap w) (si_buf_ack w)) (print_err m os) = Some (x, st, os'))"
  using assms
  by (simp add: sender_main_def Let_def sender_print_usage_def split: option.splits list.splits prod.splits) blast+

lemma sender_start_cases:
  assumes "sender_start crc e k f sf ip p w st0 os = Some (x, st, os')"
  shows "x = Some 1 \<and> st = st0 \<or> (\<exists>sock fd os1. sock = k_socket k \<and> fd = (case f of None \<Rightarrow> 0 | Some n \<Rightarrow> if k_open k n < 0 then -1 else k_open k n) \<and>
    os_files os1 = os_files os \<and> sender_session crc e k sf sock fd w st0 os1 = Some (x, st, os'))"
proof -
  define fo where "fo = (case f of None \<Rightarrow> (0, os)
        | Some f \<Rightarrow> (case sys_open k False f os of (fd, os) \<Rightarrow>
            (fd, if fd < 0 then print_err ''Can't open file %s'' os else os)))"
  obtain fd os1 where fo2: "fo = (fd, os1)" by (cases fo)
  have fd: "fd = (case f of None \<Rightarrow> 0 | Some n \<Rightarrow> if k_open k n < 0 then -1 else k_open k n)" "os_files os1 = os_files os"
    using fo2 by (auto simp: fo_def sys_open_def split: option.splits if_splits)
  note run = assms [unfolded sender_start_def fo_def [symmetric] fo2 Let_def prod.case]
  obtain err addr where r: "real_address k ip (si_addr w) = Some (err, addr)"
    using run by (cases "real_address k ip (si_addr w)") auto
  obtain sock a b os2 where c: "create_socket e k None (-1) (Some addr) (uint p) os1 = (sock, a, b, os2)"
    by (cases "create_socket e k None (-1) (Some addr) (uint p) os1")
  have s: "os_files os2 = os_files os1" "sock \<ge> 0 \<Longrightarrow> sock = k_socket k"
    using sock.make_files [OF c] sock.make_result [of e k None "-1" "Some addr" "uint p" os1] c by (auto split: if_splits)
  show ?thesis
    using run fd s by (auto simp: r c split: if_splits)
qed

lemma sender_start_defined:
  assumes "\<And>rs. k_getaddrinfo k ip = (0, rs) \<Longrightarrow> rs \<noteq> []" "k_open k f < 0"
    "\<forall>sock fd. \<forall>t \<in> set (si_turns w sock fd). silent_turn t \<and> (fd < 0 \<longrightarrow> \<not> u_file_in t)"
  shows "sender_start crc e k (Some f) sf ip p w (sender_init h b) os \<noteq> None"
proof -
  have o: "sys_open k False f os1 = (-1, os1)" for os1 using assms(2) by (simp add: sys_open_def)
  have "real_address k ip a \<noteq> None" for a
    using assms(1) by (cases "k_getaddrinfo k ip") (auto simp: real_address_def split: list.splits)
  then obtain err addr where r: "real_address k ip (si_addr w) = Some (err, addr)" by fastforce
  have "sender_session crc e k sf sock (-1) w (sender_init h b) os1 \<noteq> None" for sock os1
  proof -
    obtain st where "sender_loop crc e (si_turns w sock (-1)) (sender_init h b) = Some (False, st)"
      using idle_loop [OF sender_init_idle(1,2), of "si_turns w sock (-1)"] assms(3) by fastforce
    then show ?thesis by (simp add: sender_session_def)
  qed
  then show ?thesis by (simp add: sender_start_def o r split: prod.split)
qed


lemma port_1341: "port_arg ''1341'' = Some 1341"
  by (simp add: port_arg_def strtol_def isspace_def base_of_def starts_digit_def digit_value_def to_long_def LONG_MIN_def LONG_MAX_def)

definition silent_input :: sender_input where
  "silent_input = \<lparr>si_addr = demo_addr, si_heap = new_heap, si_buf_ack = replicate 10 0,
     si_turns = (\<lambda>sock fd. replicate 3 (turn_s None None 1)), si_start = (0, 0), si_end = (1, 5)\<rparr>"


end
