(* ===== verification/Program_Run.thy ===== *)
theory Program_Run
  imports Programs
begin

text \<open>
  The two programs run against each other: from the arguments of both to the file on the disk of
  the receiver. The turns of the two loops are interleaved in any order by a schedule, each turn
  under the conditions of \<open>File_Transfer\<close> on the network.
\<close>

section \<open>Schedules\<close>

definition sender_turns :: "(sturn + rturn) list \<Rightarrow> sturn list" where
  "sender_turns evs = map projl (filter isl evs)"

definition receiver_turns :: "(sturn + rturn) list \<Rightarrow> rturn list" where
  "receiver_turns evs = map projr (filter (\<lambda>x. \<not> isl x) evs)"

text \<open>The flags say that the sender and the receiver have left their loops from inside a turn.\<close>

fun schedule :: "(bytes \<Rightarrow> u32) \<Rightarrow> endian \<Rightarrow> (nat \<Rightarrow> bytes) \<Rightarrow> bool \<Rightarrow> bool \<Rightarrow> (sturn + rturn) list \<Rightarrow>
    sender \<Rightarrow> rcv \<Rightarrow> (nat \<times> bytes) list \<Rightarrow> bool" where
  "schedule crc e chunk gs gr [] S R acks \<longleftrightarrow> True"
| "schedule crc e chunk gs gr (Inl inp # evs) S R acks \<longleftrightarrow>
     \<not> gs \<and> sender_running S \<and> file_ok crc chunk S inp \<and> ack_delivery crc e acks R inp \<and>
     (case sender_turn crc e inp S of None \<Rightarrow> False
      | Some (gone, S') \<Rightarrow> schedule crc e chunk gone gr evs S' R acks)"
| "schedule crc e chunk gs gr (Inr inp # evs) S R acks \<longleftrightarrow>
     \<not> gr \<and> rcv_running R \<and> memory_ok R inp \<and> data_delivery crc e chunk S inp \<and>
     (case rcv_turn crc e lenient inp R of None \<Rightarrow> False
      | Some (f, R') \<Rightarrow> schedule crc e chunk gs (f = Return) evs S R'
          (acks @ map (Pair (nat (r_nb_writed R'))) (drop (length (r_acks R)) (r_acks R'))))"

lemma turns_simps [simp]:
  "sender_turns [] = []" "sender_turns (Inl i # evs) = i # sender_turns evs" "sender_turns (Inr j # evs) = sender_turns evs"
  "receiver_turns [] = []" "receiver_turns (Inl i # evs) = receiver_turns evs" "receiver_turns (Inr j # evs) = j # receiver_turns evs"
  by (simp_all add: sender_turns_def receiver_turns_def)

text \<open>What the loops leave is, but for freed packets, what the last turns of the schedule left.\<close>

definition left_sender :: "sender \<Rightarrow> sender \<Rightarrow> bool" where
  "left_sender S st \<longleftrightarrow> (\<exists>h. st = S\<lparr>s_heap := h\<rparr>)"

definition left_receiver :: "rcv \<Rightarrow> rcv \<Rightarrow> bool" where
  "left_receiver R st \<longleftrightarrow> (\<exists>h. st = R\<lparr>r_heap := h\<rparr>)"

lemma left_refl [simp]: "left_sender S S" "left_sender S (S\<lparr>s_heap := h\<rparr>)" "left_receiver R R" "left_receiver R (R\<lparr>r_heap := h\<rparr>)"
proof -
  have "S = S\<lparr>s_heap := s_heap S\<rparr>" "R = R\<lparr>r_heap := r_heap R\<rparr>" by simp_all
  then show "left_sender S S" "left_sender S (S\<lparr>s_heap := h\<rparr>)" "left_receiver R R" "left_receiver R (R\<lparr>r_heap := h\<rparr>)"
    unfolding left_sender_def left_receiver_def by blast+
qed

lemma sender_loop_Nil: "sender_loop crc e [] S = Some (b, st) \<Longrightarrow> left_sender S st"
  by (auto simp: sender_loop.simps bind_eq_Some_conv split: if_splits)

lemma receiver_loop_Nil: "receiver_loop crc e [] R = Some (b, st) \<Longrightarrow> left_receiver R st"
  by (auto simp: receiver_loop.simps bind_eq_Some_conv split: if_splits)

lemma sender_loop_Cons:
  assumes "sender_running S" "sender_turn crc e inp S = Some (gone, S')" "sender_loop crc e (inp # inps) S = Some (b, st)"
  shows "if gone then left_sender S' st else sender_loop crc e inps S' = Some (b, st)"
  using assms by (auto simp: sender_loop.simps [of _ _ _ S] bind_eq_Some_conv split: if_splits)

lemma receiver_loop_Cons:
  assumes "rcv_running R" "rcv_turn crc e lenient inp R = Some (f, R')" "receiver_loop crc e (inp # inps) R = Some (b, st)"
  shows "if f = Return then left_receiver R' st else receiver_loop crc e inps R' = Some (b, st)"
  using assms by (auto simp: receiver_loop.simps [of _ _ _ R] bind_eq_Some_conv split: if_splits)

lemma schedule_transfer:
  "transfer crc e chunk S R acks \<Longrightarrow> schedule crc e chunk gs gr evs S R acks \<Longrightarrow>
   \<exists>S' R' acks'. transfer crc e chunk S' R' acks' \<and> (gs \<longrightarrow> S' = S) \<and> (gr \<longrightarrow> R' = R) \<and>
     (\<forall>b st. \<not> gs \<longrightarrow> sender_loop crc e (sender_turns evs) S = Some (b, st) \<longrightarrow> left_sender S' st) \<and>
     (\<forall>b st. \<not> gr \<longrightarrow> receiver_loop crc e (receiver_turns evs) R = Some (b, st) \<longrightarrow> left_receiver R' st)"
proof (induction evs arbitrary: S R acks gs gr)
  case Nil
  show ?case
    by (rule exI [of _ S], rule exI [of _ R], rule exI [of _ acks])
      (use Nil.prems(1) in \<open>auto dest: sender_loop_Nil receiver_loop_Nil\<close>)
next
  case (Cons ev evs)
  show ?case
  proof (cases ev)
    case (Inl inp)
    obtain gone S1 where t: "sender_turn crc e inp S = Some (gone, S1)" "\<not> gs" "sender_running S" "file_ok crc chunk S inp"
      "ack_delivery crc e acks R inp" "schedule crc e chunk gone gr evs S1 R acks"
      using Cons.prems(2) by (auto simp: Inl split: option.splits)
    obtain S' R' acks' where i: "transfer crc e chunk S' R' acks'" "gone \<longrightarrow> S' = S1" "gr \<longrightarrow> R' = R"
      "\<And>b st. \<not> gone \<Longrightarrow> sender_loop crc e (sender_turns evs) S1 = Some (b, st) \<Longrightarrow> left_sender S' st"
      "\<And>b st. \<not> gr \<Longrightarrow> receiver_loop crc e (receiver_turns evs) R = Some (b, st) \<Longrightarrow> left_receiver R' st"
      using Cons.IH [OF transfer.sender [OF Cons.prems(1) t(3-5) t(1)] t(6)] by blast
    have "left_sender S' st" if "sender_loop crc e (inp # sender_turns evs) S = Some (b, st)" for b st
      using sender_loop_Cons [OF t(3,1) that] i(2,4) by (auto split: if_splits)
    then show ?thesis using i t(2) by (intro exI [of _ S'] exI [of _ R'] exI [of _ acks']) (auto simp: Inl)
  next
    case (Inr inp)
    obtain f R1 where t: "rcv_turn crc e lenient inp R = Some (f, R1)" "\<not> gr" "rcv_running R" "memory_ok R inp"
      "data_delivery crc e chunk S inp" "schedule crc e chunk gs (f = Return) evs S R1
          (acks @ map (Pair (nat (r_nb_writed R1))) (drop (length (r_acks R)) (r_acks R1)))"
      using Cons.prems(2) by (auto simp: Inr split: option.splits)
    obtain S' R' acks' where i: "transfer crc e chunk S' R' acks'" "gs \<longrightarrow> S' = S" "f = Return \<longrightarrow> R' = R1"
      "\<And>b st. \<not> gs \<Longrightarrow> sender_loop crc e (sender_turns evs) S = Some (b, st) \<Longrightarrow> left_sender S' st"
      "\<And>b st. f \<noteq> Return \<Longrightarrow> receiver_loop crc e (receiver_turns evs) R1 = Some (b, st) \<Longrightarrow> left_receiver R' st"
      using Cons.IH [OF transfer.receiver [OF Cons.prems(1) t(3-5) t(1)] t(6)] by blast
    have "left_receiver R' st" if "receiver_loop crc e (inp # receiver_turns evs) R = Some (b, st)" for b st
      using receiver_loop_Cons [OF t(3,1) that] i(3,5) by (auto split: if_splits)
    then show ?thesis using i t(2) by (intro exI [of _ S'] exI [of _ R'] exI [of _ acks']) (auto simp: Inr)
  qed
qed

section \<open>What the main functions leave\<close>

text \<open>To wait for a client touches its own socket only.\<close>

context socket_api
begin

lemma wait_frame:
  assumes "wait k fd os = Some (r, os')"
  shows "os_files os' = os_files os" "x \<noteq> fd \<Longrightarrow> os_fds os' x = os_fds os x"
proof -
  have "os_files os' = os_files os \<and> (x \<noteq> fd \<longrightarrow> os_fds os' x = os_fds os x)"
  proof (cases "socket_of os fd = None \<or> \<not> k_recvfrom k \<or> \<not> k_connect k")
    case True
    then show ?thesis using wait_fails [OF True assms] by blast
  next
    case False
    then obtain s where s: "socket_of os fd = Some s" "k_recvfrom k" "k_connect k" by auto
    obtain a0 d q where q: "sk_queue s @ k_arrive k = (a0, d) # q"
      using wait_blocks [OF s(1,2)] assms by (cases "sk_queue s @ k_arrive k") auto
    show ?thesis using wait_ok [OF s q] assms by auto
  qed
  then show "os_files os' = os_files os" "x \<noteq> fd \<Longrightarrow> os_fds os' x = os_fds os x" by blast+
qed

end

lemma sender_main_exit:
  assumes "sender_main crc e k opts args w os = Some (Some 0, st, os')"
  shows "\<exists>sock fd. sender_loop crc e (si_turns w sock fd) (sender_init (si_heap w) (si_buf_ack w)) = Some (True, st)"
proof -
  obtain f sf ip port p m where "sender_start crc e k f sf ip p w (sender_init (si_heap w) (si_buf_ack w)) (print_err m os) = Some (Some 0, st, os')"
    using sender_main_cases [OF assms] by auto
  from sender_start_cases [OF this] obtain sock fd os1 where
    "sender_session crc e k sf sock fd w (sender_init (si_heap w) (si_buf_ack w)) os1 = Some (Some 0, st, os')" by auto
  then have "sender_loop crc e (si_turns w sock fd) (sender_init (si_heap w) (si_buf_ack w)) = Some (True, st)"
    by (auto simp: sender_session_def bind_eq_Some_conv split: if_splits prod.splits)
  then show ?thesis by blast
qed

lemma receiver_main_cases:
  assumes "receiver_main crc e k opts args w os = Some (x, st, os')"
  shows "x = Some 1 \<and> st = rcv_init (ri_heap w) \<or>
    (\<exists>f sf ip port p m. receiver_options opts (None, None) = Some (f, sf) \<and> args = [ip, port] \<and> port_arg port = Some p \<and>
      receiver_start crc e k f sf ip p w (rcv_init (ri_heap w)) (print_err m os) = Some (x, st, os'))"
  using assms
  by (simp add: receiver_main_def Let_def receiver_print_usage_def split: option.splits list.splits prod.splits) blast+

lemma write_file_other: "sf \<noteq> Some f \<Longrightarrow> os_files (snd (write_file k sf text os)) f = os_files os f"
  by (auto simp: write_file_def split: option.splits)

text \<open>The content of a file before it is opened; a missing file is created empty.\<close>

definition old_content :: "os \<Rightarrow> string \<Rightarrow> bytes" where
  "old_content os f = (case os_files os f of None \<Rightarrow> [] | Some old \<Rightarrow> old)"

lemma receiver_session_exit:
  assumes "receiver_session crc e k sf sock fd w st0 os = Some (Some 0, st, os')" "os_fds os fd = Some (File f)"
    "os_files os f = Some old" "sock \<noteq> fd" "sf \<noteq> Some f"
  shows "receiver_loop crc e (ri_turns w sock) st0 = Some (True, st) \<and> os_files os' f = Some (overwrite old (r_out st))"
proof -
  obtain r os1 where wt: "wait_for_client k sock os = Some (r, os1)"
    using assms(1) by (cases "wait_for_client k sock os") (auto simp: receiver_session_def)
  have f1: "os_files os1 = os_files os" "os_fds os1 fd = Some (File f)"
    using sock.wait_frame [OF wt] assms(2,4) by auto
  have "\<not> r < 0" using assms(1) by (auto simp: receiver_session_def wt split: if_splits)
  then obtain st1 where l: "receiver_loop crc e (ri_turns w sock) st0 = Some (True, st1)"
    using assms(1) by (auto simp: receiver_session_def wt bind_eq_Some_conv Let_def split: if_splits prod.splits)
  have w1: "os_files (write_fd fd (r_out st1) os1) f = Some (overwrite old (r_out st1))"
    using f1 assms(3) by (simp add: write_fd_def)
  have "st = st1" "os_files os' = os_files (snd (receiver_write_stats k sf st1 (write_fd fd (r_out st1) os1)))"
    using assms(1) \<open>\<not> r < 0\<close> by (auto simp: receiver_session_def wt l Let_def split: prod.splits if_splits)
  then show ?thesis using l w1 write_file_other [OF assms(5)] by (simp add: receiver_write_stats_def)
qed

lemma receiver_start_exit:
  assumes "receiver_start crc e k (Some f) sf ip p w st0 os = Some (Some 0, st, os')" "0 \<le> k_open k f" "k_socket k \<noteq> k_open k f"
    "sf \<noteq> Some f"
  shows "receiver_loop crc e (ri_turns w (k_socket k)) st0 = Some (True, st) \<and>
    os_files os' f = Some (overwrite (old_content os f) (r_out st))"
proof -
  define os1 where "os1 = snd (sys_open k True f os)"
  have o: "sys_open k True f os = (k_open k f, os1)" "os_fds os1 (k_open k f) = Some (File f)" "os_files os1 f = Some (old_content os f)"
    using assms(2) by (auto simp: os1_def sys_open_def old_content_def Let_def split: option.splits)
  have run: "real_address k ip (ri_addr w) \<bind> (\<lambda>(err, a). if err \<noteq> None then Some (Some 1, st0, print_err ''Could not resolve hostname %s : %d'' os1)
      else (case create_socket e k (Some a) (uint p) None (-1) os1 of (sock, _, _, os) \<Rightarrow>
          if sock < 0 then Some (Some 1, st0, print_err ''Failed to create socket at %s : %d'' os)
          else receiver_session crc e k sf sock (k_open k f) w st0 os)) = Some (Some 0, st, os')"
    using assms(1,2) by (simp add: receiver_start_def o(1))
  then obtain a where a: "real_address k ip (ri_addr w) = Some (None, a)"
    by (cases "real_address k ip (ri_addr w)") (auto split: if_splits)
  obtain sk x y os2 where c: "create_socket e k (Some a) (uint p) None (-1) os1 = (sk, x, y, os2)"
    by (cases "create_socket e k (Some a) (uint p) None (-1) os1")
  have s: "\<not> sk < 0" "receiver_session crc e k sf sk (k_open k f) w st0 os2 = Some (Some 0, st, os')"
    using run by (auto simp: a c split: if_splits)
  have m: "make_succeeds k (Some a) None" "sk = k_socket k"
    using sock.make_result [of e k "Some a" "uint p" None "-1" os1] c s(1) by (auto split: if_splits)
  have os2: "os_fds os2 (k_open k f) = Some (File f)" "os_files os2 f = Some (old_content os f)"
    using sock.make_ok [OF m(1), of e "uint p" "-1" os1] c o(2,3) assms(3) by auto
  show ?thesis using receiver_session_exit [OF s(2) os2 _ assms(4)] m(2) assms(3) by simp
qed

lemma receiver_main_exit:
  assumes "receiver_main crc e k opts args w os = Some (Some 0, st, os')" "receiver_options opts (None, None) = Some (Some f, sf)"
    "0 \<le> k_open k f" "k_socket k \<noteq> k_open k f" "sf \<noteq> Some f"
  shows "receiver_loop crc e (ri_turns w (k_socket k)) (rcv_init (ri_heap w)) = Some (True, st) \<and>
    os_files os' f = Some (overwrite (old_content os f) (r_out st))"
proof -
  obtain ip p m where s: "receiver_start crc e k (Some f) sf ip p w (rcv_init (ri_heap w)) (print_err m os) = Some (Some 0, st, os')"
    using receiver_main_cases [OF assms(1)] assms(2) by auto
  from receiver_start_exit [OF s assms(3-5)] show ?thesis by (simp add: old_content_def)
qed

section \<open>From the arguments to the file\<close>

lemma programs_exit:
  assumes "nodes (si_heap ws) = Map.empty" "length (si_buf_ack ws) = Sender.ACK_SIZE" "nodes (ri_heap wr) = Map.empty"
    "schedule crc e chunk False False evs (sender_init (si_heap ws) (si_buf_ack ws)) (rcv_init (ri_heap wr)) []"
    "\<forall>sock fd. si_turns ws sock fd = sender_turns evs" "\<forall>sock. ri_turns wr sock = receiver_turns evs"
    "sender_main crc e ks sopts sargs ws oss = Some (Some 0, S, oss')"
    "receiver_main crc e kr ropts rargs wr osr = Some (Some 0, R, osr')"
    "receiver_options ropts (None, None) = Some (Some f, sf)" "sf \<noteq> Some f" "0 \<le> k_open kr f" "k_socket kr \<noteq> k_open kr f"
  shows "\<exists>m. int m \<le> s_nb_sended S \<and> os_files osr' f = Some (overwrite (old_content osr f) (concat (map chunk [0..<m]))) \<and>
    (r_last_acked R = r_lastack_to_send R \<or> s_EOF_ACKED S \<noteq> 0 \<longrightarrow> int m = s_nb_sended S)"
proof -
  let ?S = "sender_init (si_heap ws) (si_buf_ack ws)" and ?R = "rcv_init (ri_heap wr)"
  obtain S' R' acks where t: "transfer crc e chunk S' R' acks"
    "\<And>b st. sender_loop crc e (sender_turns evs) ?S = Some (b, st) \<Longrightarrow> left_sender S' st"
    "\<And>b st. receiver_loop crc e (receiver_turns evs) ?R = Some (b, st) \<Longrightarrow> left_receiver R' st"
    using schedule_transfer [OF transfer.start [OF assms(1-3)] assms(4)] by blast
  have "left_sender S' S" using sender_main_exit [OF assms(7)] assms(5) t(2) by auto
  moreover have r: "receiver_loop crc e (receiver_turns evs) ?R = Some (True, R)"
    "os_files osr' f = Some (overwrite (old_content osr f) (r_out R))"
    using receiver_main_exit [OF assms(8,9,11,12,10)] assms(6) by auto
  moreover have "left_receiver R' R" by (rule t(3) [OF r(1)])
  ultimately have "s_nb_sended S = s_nb_sended S'" "s_EOF_ACKED S = s_EOF_ACKED S'" "r_out R = r_out R'"
    "r_last_acked R = r_last_acked R'" "r_lastack_to_send R = r_lastack_to_send R'"
    by (auto simp: left_sender_def left_receiver_def)
  then show ?thesis using transfer_prefix [OF t(1)] r(2) by auto
qed


section \<open>A complete run\<close>

text \<open>The transfer of \<open>Transfer_Run\<close>: one piece, its acknowledgement, the end of the file and its own.\<close>

definition demo_events :: "(sturn + rturn) list" where
  "demo_events = [Inl (turn_s (Some sal) None 1), Inr (turn_r (data_wire crc32 Little seg0 sal) 1),
     Inl (turn_s None (Some (ack_wire crc32 Little ack1)) 2), Inl (turn_s (Some []) None 2),
     Inr (turn_r (eof_wire crc32 Little eof1) 2), Inl (turn_s None (Some (ack_wire crc32 Little ack1)) 3)]"

definition demo_si :: sender_input where
  "demo_si = \<lparr>si_addr = demo_addr, si_heap = new_heap, si_buf_ack = replicate 10 0,
     si_turns = (\<lambda>_ _. sender_turns demo_events), si_start = (0, 0), si_end = (1, 5)\<rparr>"

definition demo_ri :: receiver_input where
  "demo_ri = \<lparr>ri_addr = demo_addr, ri_heap = empty_heap, ri_turns = (\<lambda>_. receiver_turns demo_events)\<rparr>"

lemma demo_schedule: "schedule crc32 Little (\<lambda>_. sal) False False demo_events demo_sender (rcv_init empty_heap) []"
proof -
  have run: "sender_running demo_sender" "sender_running S1" "sender_running S2" "sender_running S3"
    "rcv_running (rcv_init empty_heap)" "rcv_running R1"
    by (simp_all add: sender_running_def rcv_running_def states)
  have mem: "memory_ok (rcv_init empty_heap) (turn_r (data_wire crc32 Little seg0 sal) 1)" "memory_ok R1 (turn_r (eof_wire crc32 Little eof1) 2)"
    by (simp_all add: memory_ok_def full_writes_def turn_r_def demo_turn_def states)
  have files: "file_ok crc32 (\<lambda>_. sal) demo_sender (turn_s (Some sal) None 1)" "file_ok crc32 (\<lambda>_. sal) S3 (turn_s None d 3)"
    "file_ok crc32 (\<lambda>_. sal) S1 (turn_s None d 2)" "file_ok crc32 (\<lambda>_. sal) S2 (turn_s (Some []) None 2)" for d
    using crc32_sal by (simp_all add: file_ok_def turn_s_def states sal_def)
  have none: "ack_delivery crc32 Little acks R (turn_s f None x)" for acks R f x
    by (rule no_ack) (simp add: turn_s_def)
  have acks: "map (Pair (nat (r_nb_writed R1))) (drop (length (r_acks (rcv_init empty_heap))) (r_acks R1)) = ack_list 1"
    "ack_list 1 @ map (Pair (nat (r_nb_writed R2))) (drop (length (r_acks R1)) (r_acks R2)) = ack_list 2"
    by (simp_all add: states ack_list_def numeral_2_eq_2)
  show ?thesis
    by (simp add: demo_events_def step1 step2 step3 step4 step5 step6 run mem files none delivered2 delivered3 delivered5 delivered6 acks del: One_nat_def)
qed

lemma demo_sender_exit: "\<exists>S os'. sender_main crc32 Little demo_kernel [] [''::1'', ''1341''] demo_si demo_os = Some (Some 0, S, os') \<and>
   left_sender S4 S"
proof -
  have run: "sender_running demo_sender" "sender_running S1" "sender_running S2" "sender_running S3" "\<not> sender_running S4"
    by (simp_all add: sender_running_def states)
  obtain ps where "holds (s_heap S4) (s_buffer S4) ps"
    using transfer_run_inv [OF exchange6] unfolding transfer_inv_def by (meson snd_inv_facts(1))
  from holds_free [OF this] obtain h4 where b: "buffer_free (s_heap S4) (s_buffer S4) = Some (h4, 0)" by blast
  have l: "sender_loop crc32 Little (sender_turns demo_events) demo_sender = Some (True, S4\<lparr>s_heap := h4\<rparr>)"
    using run b by (simp add: demo_events_def sender_loop.simps step1 step3 step4 step6 del: One_nat_def)
  have a: "real_address demo_kernel ''::1'' demo_addr = Some (None, demo_addr)"
    by (simp add: real_address_def demo_kernel_def)
  have c: "create_socket e demo_kernel None (-1) (Some b) p os = (3, None, Some (with_port e p b), set_fd 3 (Some (Sock (made_socket None (Some (with_port e p b))))) os)" for e b p os
    using sock.make_ok [of demo_kernel None "Some b" e "-1" p os] by simp
  have w: "si_addr demo_si = demo_addr" "si_heap demo_si = new_heap" "si_buf_ack demo_si = replicate 10 0"
    "si_turns demo_si = (\<lambda>_ _. sender_turns demo_events)" by (simp_all add: demo_si_def)
  show ?thesis
    by (simp add: sender_main_def sender_start_def port_1341 a c sender_session_def l w Let_def)
qed

lemma demo_receiver_exit: "\<exists>R os'. receiver_main crc32 Little demo_kernel [(CHR ''f'', ''out'')] [''::'', ''1341''] demo_ri demo_os =
   Some (Some 0, R, os') \<and> left_receiver R2 R"
proof -
  have run: "rcv_running (rcv_init empty_heap)" "rcv_running R1" "\<not> rcv_running R2"
    by (simp_all add: rcv_running_def states)
  have b: "b_first (r_buffer R2) = None" by (simp add: states buffer_init_def)
  have l: "receiver_loop crc32 Little (receiver_turns demo_events) (rcv_init empty_heap) = Some (True, R2)"
    using run b by (simp add: demo_events_def receiver_loop.simps step2 step5 buffer_free.simps del: One_nat_def)
  have a: "real_address demo_kernel ''::'' demo_addr = Some (None, demo_addr)"
    by (simp add: real_address_def demo_kernel_def)
  have o: "sys_open demo_kernel True ''out'' os = (4, set_fd 4 (Some (File ''out'')) (if os_files os ''out'' = None then os\<lparr>os_files := (os_files os)(''out'' \<mapsto> [])\<rparr> else os))" for os
    by (simp add: sys_open_def demo_kernel_def)
  let ?sk = "\<lambda>p. Sock \<lparr>sk_bound = Some (with_port Little p demo_addr), sk_peer = Some demo_addr, sk_queue = [(demo_addr, [1, 2])], sk_opts = {}\<rparr>"
  have c: "create_socket Little demo_kernel (Some demo_addr) p None (-1) os = (3, Some (with_port Little p demo_addr), None,
      set_fd 3 (Some (Sock (made_socket (Some (with_port Little p demo_addr)) None))) os)" for p os
    using sock.make_ok [of demo_kernel "Some demo_addr" None Little p "-1" os] by simp
  have wt: "wait_for_client demo_kernel 3 (set_fd 3 (Some (Sock (made_socket (Some a) None))) os) =
      Some (0, set_fd 3 (Some (Sock ((made_socket (Some a) None)\<lparr>sk_queue := [(demo_addr, [1, 2])], sk_peer := Some demo_addr\<rparr>))) os)" for a os
    using sock.wait_ok [of "set_fd 3 (Some (Sock (made_socket (Some a) None))) os" 3 "made_socket (Some a) None" demo_kernel demo_addr "[1, 2]" "[]"]
    by (simp add: made_socket_def new_socket_def)
  have w: "ri_addr demo_ri = demo_addr" "ri_heap demo_ri = empty_heap" "ri_turns demo_ri = (\<lambda>_. receiver_turns demo_events)"
    by (simp_all add: demo_ri_def)
  show ?thesis
    by (simp add: receiver_main_def receiver_start_def port_1341 o a c receiver_session_def wt l w Let_def split: prod.split)
qed


end
