(* ===== verification/Completion.thy ===== *)
theory Completion
  imports Transfer_Run
begin

text \<open>
  Every file arrives: over a network that loses nothing, there is a run of the two programs that
  sends a given file whole and in which both see its end. The run is the one in which each piece
  is read, sent, written and acknowledged before the next: the sender reads piece \<open>N\<close>, sends it and
  then receives the acknowledgement that asks for it.
\<close>

section \<open>A turn of the sender\<close>


lemma find_last: "(\<And>p. p \<in> set ps \<Longrightarrow> \<not> P p) \<Longrightarrow> P x \<Longrightarrow> find P (ps @ [x]) = Some x"
  by (induction ps) auto

lemma expired_1000: "p_timestamp q = 1000 \<or> p_timestamp q = 0 \<Longrightarrow> \<not> expired 1000 q"
  by (auto simp: expired_def pkt_get_timestamp_def)

lemma find_none: "(\<And>p. p \<in> set ps \<Longrightarrow> \<not> P p) \<Longrightarrow> find P ps = None"
  by (auto simp: find_None_iff)

text \<open>The socket branch of a turn sends the new packet.\<close>

lemma turn_send_new:
  assumes inv: "snd_inv crc e chunk N n (ps @ [x]) st"
    and old: "\<And>p. p \<in> set ps \<Longrightarrow> p_timestamp (the (pkts (s_heap st) p)) = 1000"
    and new: "pkts (s_heap st) x = Some q" "p_timestamp q = 0"
    and ctl: "s_pkt_tr st = -1" "s_ack_received st = -1 \<or>
      word_of_int (s_ack_received st) = pkt_get_seqnum q \<and> pkt_get_seqnum q \<notin> set (map (pseq (s_heap st)) ps)"
  shows "\<exists>st'. turn_send crc e (turn_s f d y) st = Some (False, st') \<and> snd_inv crc e chunk N n (ps @ [x]) st' \<and>
    piece crc chunk N (n + length ps) (q\<lparr>p_timestamp := 1000\<rparr>) \<and>
    st' = st\<lparr>s_ack_received := -1, s_heap := (s_heap st)\<lparr>pkts := (pkts (s_heap st))(x \<mapsto> q\<lparr>p_timestamp := 1000\<rparr>)\<rparr>,
      s_out := s_out st @ [piece_wire crc e chunk N (n + length ps) (q\<lparr>p_timestamp := 1000\<rparr>)], s_data_sent := s_data_sent st + 1,
      s_rtt := (s_rtt st)(pkt_get_seqnum q := (1000, 5))\<rparr>"
proof -
  let ?inp = "turn_s f d y" let ?h = "s_heap st" let ?q = "q\<lparr>p_timestamp := 1000\<rparr>"
  have hold: "holds ?h (s_buffer st) (ps @ [x])" by (rule snd_inv_facts(1) [OF inv])
  have xps: "x \<notin> set ps" using holds_facts(1) [OF hold] by simp
  have i: "length ps < length (ps @ [x])" "pkts ?h ((ps @ [x]) ! length ps) = Some q" using new(1) by simp_all
  have ok: "u_send ?inp (length (s_out st))" "u_now ?inp = 1000" "u_times ?inp = (\<lambda>_. 1000)" "u_clock ?inp = (1000, 5)"
    by (simp_all add: turn_s_def)
  note send = send_pkt_sends [OF inv i ok(1), unfolded ok nth_append_length]
  let ?h' = "?h\<lparr>pkts := (pkts ?h)(x \<mapsto> ?q)\<rparr>"
  have hold': "holds ?h' (s_buffer st) (ps @ [x])" using snd_inv_facts(1) [OF send(2)] by simp
  have t: "the (pkts ?h' p) = (if p = x then ?q else the (pkts ?h p))" for p by simp
  show ?thesis
  proof (cases "s_ack_received st = -1")
    case True
    have "look_for_timedout_packet ?inp ?h (Some (s_buffer st)) = Some (None, ?h)"
      using old new by (intro no_timeout [OF hold ok(3)] expired_1000) auto
    moreover have "find (\<lambda>p. pkt_get_timestamp (the (pkts ?h p)) = 0) (ps @ [x]) = Some x"
      using old new by (intro find_last) (auto simp: pkt_get_timestamp_def)
    ultimately have "turn_send crc e ?inp st = do { st \<leftarrow> send_pkt crc e ?inp st (Some x); Some (False, st) }"
      using True ctl(1) holds_unsended [OF hold] by (simp add: turn_send_def)
    then show ?thesis using send True by simp
  next
    case False
    then have s: "word_of_int (s_ack_received st) = pkt_get_seqnum q" "pkt_get_seqnum q \<notin> set (map (pseq ?h) ps)" using ctl(2) by auto
    have "find_seq ?h (pkt_get_seqnum q) (ps @ [x]) = Some x"
      unfolding find_seq_def using s(2) new(1) by (intro find_last) (auto simp: pseq_def image_iff)
    then have get: "buffer_get_pkt ?h (s_buffer st) (word_of_int (s_ack_received st)) = Some (Some x)"
      using holds_get [OF hold] s(1) by simp
    have "look_for_timedout_packet ?inp ?h' (Some (s_buffer st)) = Some (None, ?h')"
      using old xps unfolding t by (intro no_timeout [OF hold' ok(3)] expired_1000) auto
    moreover have "find (\<lambda>p. pkt_get_timestamp (the (pkts ?h' p)) = 0) (ps @ [x]) = None"
      using old xps unfolding t by (intro find_none) (auto simp: pkt_get_timestamp_def)
    ultimately have "turn_send crc e ?inp st = Some (False, (the (send_pkt crc e ?inp st (Some x)))\<lparr>s_ack_received := -1\<rparr>)"
      using False ctl(1) get holds_unsended [OF hold'] send(1) by (simp add: turn_send_def)
    then show ?thesis using send by simp
  qed
qed

text \<open>An acknowledgement on the socket.\<close>

lemma handle_ack_ready: "handle_ack inp p st = Some st' \<Longrightarrow> s_ready st' = s_ready st"
  by (auto simp: handle_ack_def Let_def bind_eq_Some_conv split: if_splits prod.splits)

definition plain_ack :: "nat \<Rightarrow> pkt \<Rightarrow> bool" where
  "plain_ack k q \<longleftrightarrow> p_type q = 2 \<and> p_tr q = 0 \<and> p_window q = 31 \<and> p_seqnum q = of_nat k"

lemma turn_ack_takes:
  assumes q: "plain_ack k q" and buf: "length (s_buf_ack st) = Sender.ACK_SIZE"
    and fine: "int (k mod 256) \<le> s_nb_sended st + 1" "s_last_ack_to_receive st = -1 \<or> int (k mod 256) \<le> s_last_ack_to_receive st"
    and r: "buffer_remove_acked (s_heap st) (s_buffer st) (of_nat k) = Some (c, h, b)" "holds h b ps"
  shows "\<exists>st'. turn_ack crc e (turn_s f (Some (ack_wire crc e q)) y) st = Some st' \<and> s_heap st' = h \<and> s_buffer st' = b \<and>
    s_window st' = 31 \<and> s_last_ack_to_receive st' = s_last_ack_to_receive st \<and> s_pkt_tr st' = s_pkt_tr st \<and>
    s_nb_sended st' = s_nb_sended st \<and> s_seqnum st' = s_seqnum st \<and> s_out st' = s_out st \<and>
    s_buf_ack st' = ack_wire crc e q \<and> s_ready st' = s_ready st \<and>
    s_ack_received st' = (if c > 0 \<or> s_last_ack_to_receive st \<noteq> -1 then -1 else int (k mod 256)) \<and>
    s_EOF_ACKED st' = s_EOF_ACKED st + (if s_last_ack_to_receive st = int (k mod 256) then 1 else 0)"
proof -
  let ?d = "ack_wire crc e q" let ?st = "st\<lparr>s_buf_ack := ?d\<rparr>"
  define p where "p = zero_pkt\<lparr>p_type := 2, p_tr := 0, p_window := 31, p_seqnum := of_nat k, p_timestamp := p_timestamp q, p_crc1 := crc (ack_header e q)\<rparr>"
  have t: "p_type q \<noteq> 0" "p_type q \<noteq> 1" using q by (simp_all add: plain_ack_def)
  have dec: "pkt_decode crc e True (Some ?d) 10 zero_pkt = Some (PKT_OK, p)"
    using pkt_decode_ack [of 10 q "rev (le32 (crc (ack_header e q)))" crc e True "[]" zero_pkt] t q
    by (simp add: ack_wire_def Let_def plain_ack_def p_def)
  have pf: "pkt_get_type p = PTYPE_ACK" "pkt_get_seqnum p = of_nat k" "uint (pkt_get_window p) = 31"
    by (simp_all add: p_def pkt_get_type_def pkt_get_seqnum_def pkt_get_window_def)
  have "turn_ack crc e (turn_s f (Some ?d) y) st = handle_ack (turn_s f (Some ?d) y) p ?st"
    using dec pf(1) buf by (simp add: turn_ack_def turn_s_def Sender.ACK_SIZE_def Let_def)
  moreover have "\<not> ack_refused ?st p" using fine pf(2) by (auto simp: ack_refused_def seq_of_nat)
  moreover have "buffer_remove_acked (s_heap ?st) (s_buffer ?st) (pkt_get_seqnum p) = Some (c, h, b)" using r(1) pf(2) by simp
  ultimately obtain st' where st': "turn_ack crc e (turn_s f (Some ?d) y) st = Some st'" "handle_ack (turn_s f (Some ?d) y) p ?st = Some st'"
    and frame: "s_heap st' = h \<and> s_buffer st' = b \<and>
    s_window st' = uint (pkt_get_window p) \<and> s_nb_sended st' = s_nb_sended ?st \<and> s_seqnum st' = s_seqnum ?st \<and>
    s_last_ack_to_receive st' = s_last_ack_to_receive ?st \<and> s_out st' = s_out ?st \<and> s_pkt_tr st' = s_pkt_tr ?st \<and> s_buf_ack st' = s_buf_ack ?st \<and>
    s_ack_received st' = (if c > 0 \<or> s_last_ack_to_receive ?st \<noteq> -1 then -1 else uint (pkt_get_seqnum p)) \<and>
    s_EOF_ACKED st' = s_EOF_ACKED ?st + (if s_last_ack_to_receive ?st = uint (pkt_get_seqnum p) then 1 else 0)"
    using handle_ack_accepted [of ?st p c h b ps "turn_s f (Some ?d) y"] r(2) pf(1) by auto
  from handle_ack_ready [OF st'(2)] st'(1) frame show ?thesis by (auto simp: pf seq_of_nat)
qed

text \<open>Reading a piece, or the end of the file, and sending it.\<close>

definition has_sent :: "(bytes \<Rightarrow> u32) \<Rightarrow> endian \<Rightarrow> (nat \<Rightarrow> bytes) \<Rightarrow> nat \<Rightarrow> nat \<Rightarrow> addr list \<Rightarrow> addr \<Rightarrow> bytes \<Rightarrow> sender \<Rightarrow> sender \<Rightarrow> bool" where
  "has_sent crc e chunk N n ps x d st st' \<longleftrightarrow> snd_inv crc e chunk (if d = [] then N else N + 1) n (ps @ [x]) st' \<and>
     (\<forall>p \<in> set (ps @ [x]). p_timestamp (the (pkts (s_heap st') p)) = 1000) \<and>
     (\<exists>dg \<in> set (s_out st'). arrives crc e chunk (if d = [] then N else N + 1) N dg) \<and>
     s_last_ack_to_receive st' = (if d = [] then int (N mod 256) else -1) \<and>
     s_ack_received st' = -1 \<and> s_pkt_tr st' = -1 \<and> s_EOF_ACKED st' = s_EOF_ACKED st \<and> s_window st' = s_window st \<and>
     s_ready st' = s_ready st \<and> dom (pkts (s_heap st')) = insert x (dom (pkts (s_heap st)))"

lemma read_and_send:
  assumes inv: "snd_inv crc e chunk N n ps st" and last: "s_last_ack_to_receive st = -1"
    and room: "int (b_size (s_buffer st)) < s_window st"
    and fresh: "pkts (s_heap st) x = None" "nodes (s_heap st) x = None"
    and ok: "d \<noteq> [] \<Longrightarrow> d = chunk N \<and> length d \<le> MAX_PAYLOAD_SIZE \<and> crc d \<noteq> 0"
    and old: "\<And>p. p \<in> set ps \<Longrightarrow> p_timestamp (the (pkts (s_heap st) p)) = 1000"
    and ctl: "s_pkt_tr st = -1" "s_ack_received st = -1 \<or> s_ack_received st = int (N mod 256)"
  shows "\<exists>st1 st2. turn_file (turn_s (Some d) w x) st = Some st1 \<and> turn_send crc e (turn_s (Some d) w x) st1 = Some (False, st2) \<and>
    has_sent crc e chunk N n ps x d st st2"
proof -
  let ?inp = "turn_s (Some d) w x" let ?N = "if d = [] then N else N + 1" let ?q = "file_pkt st d zero_pkt"
  have i: "u_file ?inp = Some d" "u_pkt ?inp = Some (x, zero_pkt)" "u_node ?inp = Some x" "u_payload_ok ?inp" by (simp_all add: turn_s_def)
  obtain h b st1 where f: "turn_file ?inp st = Some st1" "pkts h = (pkts (s_heap st))(x \<mapsto> ?q)"
    "snd_inv crc e chunk ?N n (ps @ [x]) st1"
    "st1 = (if d = [] then st\<lparr>s_last_ack_to_receive := s_seqnum st, s_heap := h, s_buffer := b\<rparr>
      else st\<lparr>s_seqnum := (s_seqnum st + 1) mod Sender.MAX_SEQNUM, s_nb_sended := s_nb_sended st + 1, s_heap := h, s_buffer := b\<rparr>)"
    using turn_file_appends [OF inv last room i(1-3) fresh] ok i(4) by blast
  have n: "n + length ps = N" using snd_inv_facts(7) [OF inv] last by auto
  have h: "s_heap st1 = h" using f(4) by auto
  have xps: "x \<notin> set ps" using holds_facts(2) [OF snd_inv_facts(1) [OF inv]] fresh(1) by auto
  have q: "pkts (s_heap st1) x = Some ?q" "p_timestamp ?q = 0" using f(2) h by (simp_all add: file_pkt_def)
  have sq: "pkt_get_seqnum ?q = of_nat N" by (rule snd_inv_piece_of_file(3) [OF inv])
  have seqs: "map (pseq (s_heap st1)) (ps @ [x]) = map (\<lambda>i. of_nat (n + i)) [0..<length (ps @ [x])]" by (rule snd_inv_seqs [OF f(3)])
  have "of_nat N \<notin> set (map (pseq (s_heap st1)) ps)"
  proof
    assume "of_nat N \<in> set (map (pseq (s_heap st1)) ps)"
    moreover have "map (pseq (s_heap st1)) ps = map (\<lambda>i. of_nat (n + i)) [0..<length ps]" using seqs by simp
    ultimately obtain i where "i < length ps" "(of_nat N :: u8) = of_nat (n + i)" by auto
    then show False using mod_eq_unique [of N "n + i"] n snd_inv_facts(5) [OF inv] by simp
  qed
  moreover have same: "s_ack_received st1 = s_ack_received st" "s_pkt_tr st1 = s_pkt_tr st" "s_EOF_ACKED st1 = s_EOF_ACKED st"
    "s_window st1 = s_window st" "s_ready st1 = s_ready st"
    using f(4) by auto
  moreover have "(word_of_int (int (N mod 256)) :: u8) = of_nat N" by (simp add: of_nat_mod_256)
  moreover have ts: "p_timestamp (the (pkts (s_heap st1) p)) = 1000" if "p \<in> set ps" for p
    using old [OF that] that xps f(2) h by auto
  ultimately obtain st2 where s: "turn_send crc e ?inp st1 = Some (False, st2)" "snd_inv crc e chunk ?N n (ps @ [x]) st2"
    "piece crc chunk ?N (n + length ps) (?q\<lparr>p_timestamp := 1000\<rparr>)"
    "st2 = st1\<lparr>s_ack_received := -1, s_heap := (s_heap st1)\<lparr>pkts := (pkts (s_heap st1))(x \<mapsto> ?q\<lparr>p_timestamp := 1000\<rparr>)\<rparr>,
      s_out := s_out st1 @ [piece_wire crc e chunk ?N (n + length ps) (?q\<lparr>p_timestamp := 1000\<rparr>)], s_data_sent := s_data_sent st1 + 1,
      s_rtt := (s_rtt st1)(pkt_get_seqnum ?q := (1000, 5))\<rparr>"
    using turn_send_new [OF f(3) _ q, of "Some d" w x] ctl unfolding sq by auto
  have "has_sent crc e chunk N n ps x d st st2"
    unfolding has_sent_def
  proof (intro conjI)
    show "\<forall>p \<in> set (ps @ [x]). p_timestamp (the (pkts (s_heap st2) p)) = 1000" using s(4) ts xps by auto
    show "\<exists>dg \<in> set (s_out st2). arrives crc e chunk ?N N dg" using s(4) piece_arrives [OF s(3), of e] n by auto
    show "s_last_ack_to_receive st2 = (if d = [] then int (N mod 256) else -1)"
      using s(4) f(4) last snd_inv_facts(3) [OF inv] by auto
    show "dom (pkts (s_heap st2)) = insert x (dom (pkts (s_heap st)))" using s(4) f(2) h by auto
  qed (use s(2,4) same ctl(1) in simp_all)
  then show ?thesis using f(1) s(1) by blast
qed

text \<open>Between two turns: piece \<open>N - 1\<close> is in the buffer, all before it are acknowledged.\<close>

definition waiting :: "(bytes \<Rightarrow> u32) \<Rightarrow> endian \<Rightarrow> (nat \<Rightarrow> bytes) \<Rightarrow> nat \<Rightarrow> sender \<Rightarrow> bool" where
  "waiting crc e chunk N S \<longleftrightarrow> (\<exists>p. snd_inv crc e chunk N (N - 1) [p] S \<and> p_timestamp (the (pkts (s_heap S) p)) = 1000) \<and>
     1 \<le> N \<and> s_last_ack_to_receive S = -1 \<and> (s_ack_received S = -1 \<or> s_ack_received S = int (N mod 256)) \<and>
     s_pkt_tr S = -1 \<and> s_EOF_ACKED S = 0 \<and> s_ready S = 1 \<and> 1 < s_window S \<and> finite (dom (pkts (s_heap S)))"

lemma sender_turn_both:
  assumes "turn_file (turn_s (Some d) w x) (st\<lparr>s_ready := 1\<rparr>) = Some st1"
    "turn_send crc e (turn_s (Some d) w x) st1 = Some (False, st2)"
  shows "sender_turn crc e (turn_s (Some d) w x) st = (case w of None \<Rightarrow> Some (False, st2)
    | Some a \<Rightarrow> do { st \<leftarrow> turn_ack crc e (turn_s (Some d) w x) st2; Some (False, st) })"
  using assms by (simp add: sender_turn_def turn_s_def Let_def split: option.split)

lemma waiting_turn:
  assumes w: "waiting crc e chunk N S" and q: "plain_ack N q"
    and fresh: "x \<notin> dom (pkts (s_heap S))" "x \<notin> dom (nodes (s_heap S))"
    and ok: "d \<noteq> [] \<Longrightarrow> d = chunk N \<and> length d \<le> MAX_PAYLOAD_SIZE \<and> crc d \<noteq> 0"
  shows "\<exists>S'. sender_turn crc e (turn_s (Some d) (Some (ack_wire crc e q)) x) S = Some (False, S') \<and>
    (\<exists>dg \<in> set (s_out S'). arrives crc e chunk (if d = [] then N else N + 1) N dg) \<and>
    s_nb_sended S' = int (if d = [] then N else N + 1) \<and> (if d = [] then s_EOF_ACKED S' = 1 else waiting crc e chunk (N + 1) S')"
proof -
  let ?inp = "turn_s (Some d) (Some (ack_wire crc e q)) x" let ?N = "if d = [] then N else N + 1"
  obtain p where p: "snd_inv crc e chunk N (N - 1) [p] S" "p_timestamp (the (pkts (s_heap S) p)) = 1000"
    and f: "1 \<le> N" "s_last_ack_to_receive S = -1" "s_ack_received S = -1 \<or> s_ack_received S = int (N mod 256)"
    "s_pkt_tr S = -1" "s_EOF_ACKED S = 0" "s_ready S = 1" "1 < s_window S" "finite (dom (pkts (s_heap S)))"
    using w unfolding waiting_def by blast
  let ?S = "S\<lparr>s_ready := 1\<rparr>"
  have inv: "snd_inv crc e chunk N (N - 1) [p] ?S" using p(1) by simp
  have "b_size (s_buffer S) = 1" using holds_facts(3) [OF snd_inv_facts(1) [OF inv]] by simp
  then obtain st1 st2 where s: "turn_file ?inp ?S = Some st1" "turn_send crc e ?inp st1 = Some (False, st2)"
    "has_sent crc e chunk N (N - 1) [p] x d ?S st2"
    using read_and_send [OF inv, of x d "Some (ack_wire crc e q)"] f fresh ok p(2) by (auto simp: domIff)
  note h = s(3) [unfolded has_sent_def append.simps]
  have inv2: "snd_inv crc e chunk ?N (N - 1) [p, x] st2" using h by blast
  have "map (pseq (s_heap st2)) [p, x] = map (\<lambda>i. of_nat (N - 1 + i)) [0..<length [p, x]]" by (rule snd_inv_seqs [OF inv2])
  moreover have "[0..<length [p, x]] = [0, 1]" by (simp add: upt_rec)
  ultimately have "pseq (s_heap st2) p = of_nat (N - 1 + 0)" "pseq (s_heap st2) x = of_nat (N - 1 + 1)"
    by (simp_all only: list.map list.inject)
  then have seqs: "pseq (s_heap st2) p = of_nat (N - 1)" "pseq (s_heap st2) x = of_nat N" using f(1) by (simp_all del: of_nat_add)
  have ne: "(of_nat (N - 1) :: u8) \<noteq> of_nat N" using mod_eq_unique [of "N - 1" N] f(1) by auto
  obtain h' b' where r: "buffer_remove_acked (s_heap st2) (s_buffer st2) (of_nat N) = Some (1, h', b')" "holds h' b' [x]"
    "pkts h' = pkts (s_heap st2) |` (- {p})"
  proof -
    have "of_nat N \<in> set (map (pseq (s_heap st2)) [p, x])" using seqs(2) by simp
    note rem = holds_remove_acked [OF snd_inv_facts(1) [OF inv2] this]
    have t: "takeWhile (\<lambda>a. pseq (s_heap st2) a \<noteq> of_nat N) [p, x] = [p]" "dropWhile (\<lambda>a. pseq (s_heap st2) a \<noteq> of_nat N) [p, x] = [x]"
      using ne by (simp_all only: takeWhile.simps dropWhile.simps seqs not_True_eq_False not_False_eq_True if_True if_False simp_thms)
    show ?thesis using that rem unfolding t by auto
  qed
  have sent: "s_nb_sended st2 = int ?N" by (rule snd_inv_facts(2) [OF inv2])
  have le: "int (N mod 256) \<le> s_nb_sended st2 + 1" "s_last_ack_to_receive st2 = -1 \<or> int (N mod 256) \<le> s_last_ack_to_receive st2"
    using h sent by (auto intro: order_trans [OF mod_less_eq_dividend])
  obtain S' where S': "turn_ack crc e ?inp st2 = Some S'" "s_heap S' = h'" "s_buffer S' = b'"
    "s_window S' = 31" "s_last_ack_to_receive S' = s_last_ack_to_receive st2" "s_pkt_tr S' = s_pkt_tr st2"
    "s_nb_sended S' = s_nb_sended st2" "s_seqnum S' = s_seqnum st2" "s_out S' = s_out st2"
    "s_buf_ack S' = ack_wire crc e q" "s_ready S' = s_ready st2" "s_ack_received S' = -1"
    "s_EOF_ACKED S' = s_EOF_ACKED st2 + (if s_last_ack_to_receive st2 = int (N mod 256) then 1 else 0)"
    using turn_ack_takes [OF q snd_inv_facts(9) [OF inv2] le r(1,2), of crc e "Some d" x] by auto
  have turn: "sender_turn crc e ?inp S = Some (False, S')" using sender_turn_both [OF s(1,2)] S'(1) by simp
  have xp: "x \<noteq> p" using holds_facts(1) [OF snd_inv_facts(1) [OF inv2]] by auto
  have "waiting crc e chunk (N + 1) S'" if d: "d \<noteq> []"
  proof -
    have "snd_inv crc e chunk (N + 1) (N - 1 + 1) (drop 1 [p, x]) (st2\<lparr>s_heap := h', s_buffer := b', s_window := 31\<rparr>)"
      using snd_inv_dropped [OF inv2, of 1 h' b' 31] r d by simp
    then have "snd_inv crc e chunk (N + 1) N [x] S'" using f(1) S' by (auto simp: snd_inv_def Sender.ACK_SIZE_def)
    moreover have "p_timestamp (the (pkts h' x)) = 1000" using h r(3) xp by auto
    moreover have "finite (dom (pkts h'))" using h r(3) f(8) by simp
    ultimately show ?thesis unfolding waiting_def using S' h d f by auto
  qed
  moreover have "s_EOF_ACKED S' = 1" if "d = []" using S'(13) h f(5) that by simp
  ultimately show ?thesis using turn S'(7,9) sent h by auto
qed

section \<open>The first turns of the sender\<close>

text \<open>With nothing new to send, a turn only takes the acknowledgement.\<close>

lemma turn_send_nothing:
  assumes "holds (s_heap st) (s_buffer st) ps" "\<And>p. p \<in> set ps \<Longrightarrow> p_timestamp (the (pkts (s_heap st) p)) = 1000"
    "s_pkt_tr st = -1" "s_ack_received st = -1"
  shows "turn_send crc e (turn_s f d y) st = Some (False, st)"
proof -
  have "u_times (turn_s f d y) = (\<lambda>_. 1000)" by (simp add: turn_s_def)
  from no_timeout [OF assms(1) this] have "look_for_timedout_packet (turn_s f d y) (s_heap st) (Some (s_buffer st)) = Some (None, s_heap st)"
    using assms(2) expired_1000 by blast
  moreover have "find (\<lambda>p. pkt_get_timestamp (the (pkts (s_heap st) p)) = 0) ps = None"
    using assms(2) by (intro find_none) (auto simp: pkt_get_timestamp_def)
  ultimately show ?thesis using assms(3,4) holds_unsended [OF assms(1)] by (simp add: turn_send_def)
qed

lemma start_turn:
  assumes ok: "d \<noteq> [] \<Longrightarrow> d = chunk 0 \<and> length d \<le> MAX_PAYLOAD_SIZE \<and> crc d \<noteq> 0"
  shows "\<exists>st'. sender_turn crc e (turn_s (Some d) None x) demo_sender = Some (False, st') \<and>
    has_sent crc e chunk 0 0 [] x d (demo_sender\<lparr>s_ready := 1\<rparr>) st'"
proof -
  let ?st = "demo_sender\<lparr>s_ready := 1\<rparr>"
  have inv: "snd_inv crc e chunk 0 0 [] ?st" using demo_sender_inv by simp
  obtain st1 st2 where s: "turn_file (turn_s (Some d) None x) ?st = Some st1" "turn_send crc e (turn_s (Some d) None x) st1 = Some (False, st2)"
    "has_sent crc e chunk 0 0 [] x d ?st st2"
    using read_and_send [OF inv, of x d None] ok by (auto simp: sender_init_def new_heap_def buffer_init_def)
  then show ?thesis using sender_turn_both [OF s(1,2)] by auto
qed

text \<open>The acknowledgement of the first datagram: of the end of an empty file, or of piece 0.\<close>

lemma first_ack_turn:
  assumes sent: "has_sent crc e chunk 0 0 [] x d (demo_sender\<lparr>s_ready := 1\<rparr>) st"
    and q: "plain_ack (if d = [] then 0 else 1) q"
  shows "\<exists>st'. sender_turn crc e (turn_s None (Some (ack_wire crc e q)) y) st = Some (False, st') \<and>
    (if d = [] then s_EOF_ACKED st' = 1 \<and> s_nb_sended st' = 0 else waiting crc e chunk 1 st')"
proof -
  let ?k = "if d = [] then 0 else 1 :: nat" let ?inp = "turn_s None (Some (ack_wire crc e q)) y"
  note h = sent [unfolded has_sent_def append_Nil add_0]
  have inv: "snd_inv crc e chunk ?k 0 [x] st" using h by simp
  have init: "s_EOF_ACKED st = 0" "s_ready st = 1" "dom (pkts (s_heap st)) = {x}"
    using h by (simp_all add: sender_init_def new_heap_def)
  have eq1: "st\<lparr>s_ready := 1\<rparr> = st" using init(2) by simp
  have send: "turn_send crc e ?inp st = Some (False, st)"
    using h by (intro turn_send_nothing [OF snd_inv_facts(1) [OF inv]]) auto
  have "map (pseq (s_heap st)) [x] = map (\<lambda>i. of_nat (0 + i)) [0..<length [x]]" by (rule snd_inv_seqs [OF inv])
  then have seq: "pseq (s_heap st) x = 0" by simp
  obtain h' b' where r: "buffer_remove_acked (s_heap st) (s_buffer st) (of_nat ?k) = Some (0, h', b')" "holds h' b' [x]"
    "pkts h' = pkts (s_heap st)"
  proof (cases "d = []")
    case True
    then show ?thesis using that holds_remove_acked [OF snd_inv_facts(1) [OF inv], of 0] seq by (auto simp: restrict_map_def)
  next
    case False
    then show ?thesis using that holds_remove_acked_absent [OF snd_inv_facts(1) [OF inv], of 1] seq snd_inv_facts(1) [OF inv] by simp
  qed
  have nb: "s_nb_sended st = int ?k" by (rule snd_inv_facts(2) [OF inv])
  have le: "int (?k mod 256) \<le> s_nb_sended st + 1" "s_last_ack_to_receive st = -1 \<or> int (?k mod 256) \<le> s_last_ack_to_receive st"
    using h nb by auto
  obtain st' where st': "turn_ack crc e ?inp st = Some st'" "s_heap st' = h'" "s_buffer st' = b'"
    "s_window st' = 31" "s_last_ack_to_receive st' = s_last_ack_to_receive st" "s_pkt_tr st' = s_pkt_tr st"
    "s_nb_sended st' = s_nb_sended st" "s_seqnum st' = s_seqnum st" "s_out st' = s_out st"
    "s_buf_ack st' = ack_wire crc e q" "s_ready st' = s_ready st"
    "s_ack_received st' = (if s_last_ack_to_receive st \<noteq> -1 then -1 else int (?k mod 256))"
    "s_EOF_ACKED st' = s_EOF_ACKED st + (if s_last_ack_to_receive st = int (?k mod 256) then 1 else 0)"
    using turn_ack_takes [OF q snd_inv_facts(9) [OF inv] le r(1,2), of crc e None y] by auto
  have turn: "sender_turn crc e ?inp st = Some (False, st')"
    using send st'(1) eq1 by (simp add: sender_turn_def turn_s_def)
  have "waiting crc e chunk 1 st'" if "d \<noteq> []"
  proof -
    have "snd_inv crc e chunk 1 0 [x] st'" using inv st' r that by (auto simp: snd_inv_def Sender.ACK_SIZE_def)
    then show ?thesis unfolding waiting_def using st' h init r that by auto
  qed
  moreover have "s_EOF_ACKED st' = 1 \<and> s_nb_sended st' = 0" if "d = []" using st'(7,13) nb h init(1) that by simp
  ultimately show ?thesis using turn by auto
qed

section \<open>A turn of the receiver\<close>

text \<open>A turn more than half a second after the last acknowledgement.\<close>

definition calm_r :: "bytes \<Rightarrow> addr \<Rightarrow> rturn" where
  "calm_r d x = (turn_r d x)\<lparr>t_end := (1, 0)\<rparr>"

lemma calm_r_simps [simp]:
  "t_ready (calm_r d x) = 1" "t_pollin (calm_r d x)" "t_read (calm_r d x) = Some d" "t_stack (calm_r d x) = replicate 528 0"
  "t_pkt (calm_r d x) = Some (x, zero_pkt)" "t_payload_ok (calm_r d x)" "t_node (calm_r d x) = Some x"
  "t_start (calm_r d x) = (0, 0)" "t_end (calm_r d x) = (1, 0)" "t_write (calm_r d x) = (\<lambda>_. Some 512)"
  "t_ack (calm_r d x) = Some zero_pkt" "t_ack_payload (calm_r d x)" "t_send (calm_r d x)"
  by (simp_all add: calm_r_def turn_r_def demo_turn_def)

text \<open>All that came before piece \<open>k\<close> is written and acknowledged.\<close>

definition emptied :: "(nat \<Rightarrow> bytes) \<Rightarrow> nat \<Rightarrow> rcv \<Rightarrow> bool" where
  "emptied chunk k R \<longleftrightarrow> rcv_inv chunk k [] R \<and> r_last_acked R = int (k mod 256) \<and> r_lastack_to_send R = -2 \<and>
     r_ready R \<noteq> 0 \<and> r_reset_time R \<and> finite (dom (pkts (r_heap R)))"

lemma expected_in_window:
  assumes "rcv_inv chunk k ps st"
  shows "Receiver.is_in_window st (int (k mod 256))"
proof (cases k)
  case 0
  then show ?thesis using assms by (simp add: rcv_inv_def Receiver.is_in_window_def)
next
  case (Suc n)
  have "r_last_writed st = int (n mod 256)" "r_window st = 31" using assms Suc by (simp_all add: rcv_inv_def)
  moreover have "Suc n mod 256 = (if n mod 256 = 255 then 0 else n mod 256 + 1)" by (simp add: mod_Suc)
  ultimately show ?thesis using Suc by (auto simp: Receiver.is_in_window_def Receiver.MAX_SEQNUM_def)
qed

text \<open>The only packet in the buffer is the one expected, and it is written.\<close>

lemma write_loop_one:
  assumes inv: "rcv_inv chunk m [p] st" and q: "pkts (r_heap st) p = Some q" "carries chunk m q"
    and wr: "wr (r_writes st) = Some 512"
  shows "\<exists>h b. write_loop lenient wr st (b_first (r_buffer st)) = Some (1,
      st\<lparr>r_writes := r_writes st + 1, r_out := r_out st @ chunk m, r_last_writed := uint (pkt_get_seqnum q),
        r_heap := h, r_buffer := b, r_nb_writed := r_nb_writed st + 1\<rparr>) \<and>
    rcv_inv chunk (Suc m) [] (st\<lparr>r_writes := r_writes st + 1, r_out := r_out st @ chunk m, r_last_writed := uint (pkt_get_seqnum q),
        r_heap := h, r_buffer := b, r_nb_writed := r_nb_writed st + 1\<rparr>) \<and> pkts h = pkts (r_heap st)"
proof -
  obtain a n h' b' where d: "b_first (r_buffer st) = Some a" "nodes (r_heap st) a = Some n" "n_pkt n = p"
    "buffer_remove (r_heap st) (r_buffer st) (pseq (r_heap st) p) = Some (Some p, h', b')" "holds h' b' []"
    "pkts h' = pkts (r_heap st)" "n_next n = Some a" "nodes h' a = None" "stale h' a = Some n"
    using drain_first [OF rcv_inv_facts(1) [OF inv]] by auto
  let ?st = "st\<lparr>r_writes := r_writes st + 1, r_out := r_out st @ chunk m, r_last_writed := uint (pkt_get_seqnum q),
        r_heap := h', r_buffer := b', r_nb_writed := r_nb_writed st + 1\<rparr>"
  have sq: "unat (pkt_get_seqnum q) = m mod 256" by (rule carries_facts(1) [OF q(2)])
  have w: "rcv_inv chunk (Suc m) [] ?st" using written_inv [OF inv q(1) sq d(5,6)] by blast
  have eq: "uint (pkt_get_seqnum q) = (r_last_writed st + 1) mod Receiver.MAX_SEQNUM"
    using sq expected [OF inv] by (simp only: uint_eq_int)
  have "take 512 (chunk m) = chunk m" using carries_facts(2) [OF q(2)] by simp
  then have "write_step lenient wr st a = Some (None, Some a, ?st)"
    using d(2-4,7) q(1) eq wr write_arg_carries [OF q(2)]
    by (simp add: write_step_def read_node_def Let_def pseq_def del: take_all_iff)
  moreover have "write_step lenient wr ?st a = Some (Some 1, Some a, ?st)"
  proof -
    have "uint (pkt_get_seqnum q) \<noteq> (r_last_writed ?st + 1) mod Receiver.MAX_SEQNUM"
      using expected [OF w] sq mod_256_Suc [of m] by (simp add: uint_eq_int)
    then show ?thesis using d(3,6-9) q(1) by (simp add: write_step_def read_node_def lenient_def)
  qed
  ultimately have "write_loop lenient wr st (b_first (r_buffer st)) = Some (1, ?st)"
    using d(1) by (simp add: write_loop.simps [of _ _ _ "Some a"])
  then show ?thesis using w d(6) by blast
qed

text \<open>What a turn leaves alone: the control variables of the loop, and the packets of the heap.\<close>

definition same_loop :: "rcv \<Rightarrow> rcv \<Rightarrow> bool" where
  "same_loop st st' \<longleftrightarrow> r_acks st' = r_acks st \<and> r_last_acked st' = r_last_acked st \<and> r_ready st' = r_ready st \<and>
     r_start st' = r_start st \<and> pkts (r_heap st') = pkts (r_heap st)"

lemma receive_data_piece:
  assumes inv: "rcv_inv chunk m [] st" and p: "pkts (r_heap st) x = Some p" "carries chunk m p"
    "pkt_get_type p = PTYPE_DATA" "pkt_get_tr p = 0"
  shows "\<exists>st'. receive_data crc e lenient (calm_r d x) x p st = Some (Go, st') \<and> rcv_inv chunk (Suc m) [] st' \<and>
    same_loop st st' \<and> r_lastack_to_send st' = r_lastack_to_send st"
proof -
  let ?st = "st\<lparr>r_data_received := r_data_received st + 1\<rparr>"
  have inv1: "rcv_inv chunk m [] ?st" using inv by simp
  have sq: "uint (pkt_get_seqnum p) = int (m mod 256)" using carries_facts(1) [OF p(2)] by (simp add: uint_eq_int)
  have win: "Receiver.is_in_window ?st (uint (pkt_get_seqnum p))" using expected_in_window [OF inv1] sq by simp
  have empty: "is_in_buffer (r_heap ?st) (Some (r_buffer ?st)) (pkt_get_seqnum p) = Some False"
    using holds_mem [OF rcv_inv_facts(1) [OF inv1]] by simp
  have nodes: "nodes (r_heap ?st) x = None" using rcv_inv_facts(1) [OF inv1] by (simp add: holds_empty)
  have "pkts (r_heap ?st) x = Some p" using p(1) by simp
  from enqueued_inv [OF inv1 this nodes empty, of m] p(2) obtain h b ps where
    q: "buffer_enqueue (r_heap st) (r_buffer st) x (Some x) = Some (0, h, b)"
    "rcv_inv chunk m ps (?st\<lparr>r_heap := h, r_buffer := b\<rparr>)" "ps = [x]" "pkts h = pkts (r_heap st)" by auto
  let ?st2 = "?st\<lparr>r_heap := h, r_buffer := b, r_time_last_data := 99\<rparr>"
  have inv2: "rcv_inv chunk m [x] ?st2" using q(2,3) by simp
  have "pkts (r_heap ?st2) x = Some p" using q(4) p(1) by simp
  then obtain st' where w: "write_loop lenient (\<lambda>_. Some 512) ?st2 (b_first (r_buffer ?st2)) = Some (1, st')"
    "rcv_inv chunk (Suc m) [] st'" "same_loop ?st2 st'" "r_lastack_to_send st' = r_lastack_to_send ?st2"
    using write_loop_one [OF inv2 _ p(2), of "\<lambda>_. Some 512"] by (auto simp: same_loop_def)
  have "buffer_print h b \<noteq> None" using holds_print [OF rcv_inv_facts(1) [OF inv2]] by simp
  moreover have "pkt_get_length p \<noteq> 0" using p(2) by (simp add: carries_def pkt_get_length_def)
  moreover have "t_time (calm_r d x) = 99" by (simp add: calm_r_def turn_r_def demo_turn_def)
  ultimately have "receive_data crc e lenient (calm_r d x) x p st = Some (Go, st')"
    using empty win q(1) w(1) p(3,4) full_window [OF w(2)]
    by (auto simp: receive_data_def Let_def write_buffer_to_file_def)
  then show ?thesis using w(2-4) q(4) by (auto simp: same_loop_def)
qed

lemma receive_data_end:
  assumes inv: "rcv_inv chunk m [] st" and p: "pkt_get_seqnum p = of_nat m" "pkt_get_length p = 0"
    "pkt_get_type p = PTYPE_DATA" "pkt_get_tr p = 0"
  shows "\<exists>st'. receive_data crc e lenient inp x p st = Some (Go, st') \<and> rcv_inv chunk m [] st' \<and>
    same_loop st st' \<and> r_lastack_to_send st' = int (m mod 256)"
proof -
  let ?st = "st\<lparr>r_data_received := r_data_received st + 1\<rparr>"
  have inv1: "rcv_inv chunk m [] ?st" using inv by simp
  have "Receiver.is_in_window ?st (uint (pkt_get_seqnum p))" using expected_in_window [OF inv1] p(1) by (simp add: seq_of_nat)
  moreover have "is_in_buffer (r_heap ?st) (Some (r_buffer ?st)) (pkt_get_seqnum p) = Some False"
    using holds_mem [OF rcv_inv_facts(1) [OF inv1]] by simp
  ultimately have "receive_data crc e lenient inp x p st =
      Some (Go, ?st\<lparr>r_lastack_to_send := int (m mod 256), r_bypass := True\<rparr>)"
    using p by (simp add: receive_data_def Let_def seq_of_nat)
  then show ?thesis using inv1 by (simp add: same_loop_def)
qed

lemma turn_end_ack:
  assumes inv: "rcv_inv chunk m [] st" and s: "r_start st = (0, 0)"
  shows "ack_due (calm_r d x) st" and "\<exists>r st' q. send_ack crc e (calm_r d x) st ((r_last_writed st + 1) mod Receiver.MAX_SEQNUM) PTYPE_ACK
      (free_slots st) = Some (r, st') \<and> rcv_inv chunk m [] st' \<and> plain_ack m q \<and> r_acks st' = r_acks st @ [ack_wire crc e q] \<and>
    r_last_acked st' = int (m mod 256) \<and> r_lastack_to_send st' = r_lastack_to_send st \<and> r_ready st' = r_ready st \<and>
    pkts (r_heap st') = pkts (r_heap st)"
proof -
  show "ack_due (calm_r d x) st" using s by (simp add: ack_due_def)
  have "b_size (r_buffer st) = 0" using holds_facts(3) [OF rcv_inv_facts(1) [OF inv]] by simp
  then have f: "free_slots st = 31" using rcv_inv_facts(3) [OF inv] by (simp add: free_slots_def)
  let ?q = "ack_pkt zero_pkt PTYPE_ACK (int (m mod 256)) 31 (r_time_last_data st) True"
  have q: "plain_ack m ?q" by (simp add: plain_ack_def ack_pkt_def of_nat_mod_256)
  let ?st = "st\<lparr>r_acks := r_acks st @ [ack_wire crc e ?q], r_last_acked := int (m mod 256), r_ack_sent := r_ack_sent st + 1\<rparr>"
  have "send_ack crc e (calm_r d x) st ((r_last_writed st + 1) mod Receiver.MAX_SEQNUM) PTYPE_ACK (free_slots st) = Some (0, ?st)"
    unfolding f expected [OF inv] using send_ack_sends [of PTYPE_ACK 31 "calm_r d x" zero_pkt crc e st "int (m mod 256)"]
    by (simp add: Let_def)
  moreover have "rcv_inv chunk m [] ?st" using inv by (simp add: rcv_inv_def)
  ultimately show "\<exists>r st' q. send_ack crc e (calm_r d x) st ((r_last_writed st + 1) mod Receiver.MAX_SEQNUM) PTYPE_ACK
      (free_slots st) = Some (r, st') \<and> rcv_inv chunk m [] st' \<and> plain_ack m q \<and> r_acks st' = r_acks st @ [ack_wire crc e q] \<and>
    r_last_acked st' = int (m mod 256) \<and> r_lastack_to_send st' = r_lastack_to_send st \<and> r_ready st' = r_ready st \<and>
    pkts (r_heap st') = pkts (r_heap st)"
    using q by (intro exI [of _ 0] exI [of _ ?st] exI [of _ ?q]) simp
qed

lemma emptied_turn:
  assumes em: "emptied chunk k R" and d: "arrives crc e chunk N k d" and kN: "k \<le> N" and fresh: "x \<notin> dom (pkts (r_heap R))"
  shows "\<exists>R' q. rcv_turn crc e lenient (calm_r d x) R = Some (Go, R') \<and> r_acks R' = r_acks R @ [ack_wire crc e q] \<and>
    plain_ack (if k < N then k + 1 else k) q \<and>
    (if k < N then emptied chunk (k + 1) R' else rcv_inv chunk k [] R' \<and> r_last_acked R' = r_lastack_to_send R')"
proof -
  let ?m = "if k < N then k + 1 else k"
  have R: "rcv_inv chunk k [] R" "r_last_acked R = int (k mod 256)" "r_lastack_to_send R = -2" "r_ready R \<noteq> 0" "r_reset_time R"
    "finite (dom (pkts (r_heap R)))" using em by (simp_all add: emptied_def)
  have len: "length d \<le> MAX_PKT_SIZE" "\<not> k < N \<Longrightarrow> length d = 12" using d by (simp_all add: arrives_def)
  have buf: "turn_buf (calm_r d x) = d @ drop (length d) (replicate 528 0)" "turn_len (calm_r d x) = length d"
    using turn_buf_fits [of "calm_r d x" d] len by simp_all
  have "k < N \<or> 4 \<le> length (drop (length d) (replicate 528 (0 :: byte)))" using len(2) by (cases "k < N") simp_all
  then obtain p where p: "pkt_decode crc e True (Some (d @ drop (length d) (replicate 528 0))) (length d) zero_pkt = Some (PKT_OK, p)"
    "pkt_get_type p = PTYPE_DATA" "pkt_get_tr p = 0" "pkt_get_seqnum p = of_nat k"
    "if k < N then p_payload p = Some (chunk k) \<and> unat (pkt_get_length p) = length (chunk k) \<and> chunk k \<noteq> [] \<and>
       length (chunk k) \<le> MAX_PAYLOAD_SIZE else pkt_get_length p = 0"
    using d unfolding arrives_def by blast
  define st where "st = R\<lparr>r_ready := 1, r_start := (0, 0), r_reset_time := False, r_n_accumulated := r_n_accumulated R + 1,
    r_heap := (r_heap R)\<lparr>pkts := (pkts (r_heap R))(x \<mapsto> p)\<rparr>\<rparr>"
  have "rcv_inv chunk k [] (R\<lparr>r_ready := 1, r_start := (0, 0), r_reset_time := False, r_n_accumulated := r_n_accumulated R + 1\<rparr>)"
    using R(1) by simp
  from rcv_inv_pkts [OF this, of "(pkts (r_heap R))(x \<mapsto> p)"] have inv: "rcv_inv chunk k [] st"
    by (simp add: st_def del: rcv_inv_upd)
  obtain st' where s: "receive_data crc e lenient (calm_r d x) x p st = Some (Go, st')" "rcv_inv chunk ?m [] st'" "same_loop st st'"
    "r_lastack_to_send st' = (if k < N then -2 else int (k mod 256))"
  proof (cases "k < N")
    case True
    have "unat (pkt_get_seqnum p) = k mod 256" using p(4) by (simp add: unat_of_nat)
    then have "carries chunk k p" using p(5) True by (auto simp: carries_def pkt_get_length_def unat_eq_0)
    then show ?thesis using that receive_data_piece [OF inv, of x p crc e d] p(2,3) True R(3) by (auto simp: st_def)
  next
    case False
    then show ?thesis using that receive_data_end [OF inv p(4) _ p(2,3), of crc e "calm_r d x" x] p(5) by auto
  qed
  have start: "r_start st' = (0, 0)" using s(3) by (simp add: same_loop_def st_def)
  obtain r R0 q where a: "send_ack crc e (calm_r d x) st' ((r_last_writed st' + 1) mod Receiver.MAX_SEQNUM) PTYPE_ACK (free_slots st') = Some (r, R0)"
    "rcv_inv chunk ?m [] R0" "plain_ack ?m q" "r_acks R0 = r_acks st' @ [ack_wire crc e q]" "r_last_acked R0 = int (?m mod 256)"
    "r_lastack_to_send R0 = r_lastack_to_send st'" "r_ready R0 = r_ready st'" "pkts (r_heap R0) = pkts (r_heap st')"
    using turn_end_ack(2) [OF s(2) start] by blast
  let ?R = "R0\<lparr>r_n_accumulated := 0, r_reset_time := True, r_bypass := False\<rparr>"
  have "receive_datagram crc e lenient (calm_r d x) (R\<lparr>r_ready := 1, r_heap := (r_heap R)\<lparr>pkts := (pkts (r_heap R))(x \<mapsto> zero_pkt)\<rparr>\<rparr>)
      = Some (Go, st')"
    using s(1) p(1,2) R(5) by (simp add: receive_datagram_def Let_def buf st_def)
  then have "rcv_turn crc e lenient (calm_r d x) R = Some (Go, ?R)"
    using turn_end_ack(1) [OF s(2) start] a(1) by (simp add: rcv_turn_def Let_def)
  moreover have "rcv_inv chunk ?m [] ?R" using a(2) by simp
  moreover have "r_acks ?R = r_acks R @ [ack_wire crc e q]" using a(4) s(3) by (simp add: same_loop_def st_def)
  moreover have "finite (dom (pkts (r_heap ?R)))" using a(8) s(3) R(6) by (simp add: same_loop_def st_def)
  moreover have "r_ready ?R = 1" using a(7) s(3) by (simp add: same_loop_def st_def)
  ultimately show ?thesis using a(3,5,6) s(4)
    by (intro exI [of _ ?R] exI [of _ q]) (auto simp: emptied_def)
qed

section \<open>The run\<close>

text \<open>
  The turns played so far, from the start of both programs; no turn leaves a loop from inside.
\<close>

inductive played :: "(bytes \<Rightarrow> u32) \<Rightarrow> endian \<Rightarrow> (nat \<Rightarrow> bytes) \<Rightarrow> (sturn + rturn) list \<Rightarrow>
    sender \<Rightarrow> rcv \<Rightarrow> (nat \<times> bytes) list \<Rightarrow> bool" for crc e chunk where
  start: "played crc e chunk [] demo_sender (rcv_init empty_heap) []"
| sender: "played crc e chunk evs S R acks \<Longrightarrow> sender_running S \<Longrightarrow> file_ok crc chunk S inp \<Longrightarrow>
    ack_delivery crc e acks R inp \<Longrightarrow> sender_turn crc e inp S = Some (False, S') \<Longrightarrow>
    played crc e chunk (evs @ [Inl inp]) S' R acks"
| receiver: "played crc e chunk evs S R acks \<Longrightarrow> rcv_running R \<Longrightarrow> memory_ok R inp \<Longrightarrow>
    data_delivery crc e chunk S inp \<Longrightarrow> rcv_turn crc e lenient inp R = Some (Go, R') \<Longrightarrow>
    played crc e chunk (evs @ [Inr inp]) S R' (acks @ map (Pair (nat (r_nb_writed R'))) (drop (length (r_acks R)) (r_acks R')))"

lemma played_transfer: "played crc e chunk evs S R acks \<Longrightarrow> transfer crc e chunk S R acks"
proof (induction rule: played.induct)
  case start
  show ?case by (rule transfer.start) (simp_all add: new_heap_def empty_heap_def Sender.ACK_SIZE_def)
qed (blast intro: transfer.intros)+

lemma calm_ack:
  assumes "plain_ack k q" "(t, ack_wire crc e q) \<in> set acks" "nat (r_nb_writed R) \<le> t + lifetime"
  shows "ack_delivery crc e acks R (turn_s f (Some (ack_wire crc e q)) x)"
proof -
  have "not_data (ack_wire crc e q)" using assms(1) ack_wire_not_data [of q crc e] by (simp add: plain_ack_def)
  then show ?thesis using assms(2,3) by (auto simp: ack_delivery_def ack_ok_def turn_s_def Sender.ACK_SIZE_def)
qed

lemma calm_data:
  assumes "dg \<in> set (s_out S)" "arrives crc e chunk N k dg" "s_nb_sended S = int N" "N \<le> k + lifetime"
  shows "data_delivery crc e chunk S (calm_r dg x)"
  using assms unfolding data_delivery_def by (intro allI impI conjI exI [of _ dg] exI [of _ k]) auto

lemma calm_file:
  assumes "x \<notin> dom (pkts (s_heap S))" "x \<notin> dom (nodes (s_heap S))"
    "\<And>d. f = Some d \<Longrightarrow> d \<noteq> [] \<Longrightarrow> s_last_ack_to_receive S = -1 \<and> d = chunk (nat (s_nb_sended S)) \<and>
      length d \<le> MAX_PAYLOAD_SIZE \<and> crc d \<noteq> 0"
  shows "file_ok crc chunk S (turn_s f w x)"
  using assms by (auto simp: file_ok_def turn_s_def split: option.split)

lemma fresh_address:
  assumes "finite (dom (pkts h))" "finite (dom (nodes h))"
  shows "\<exists>x. x \<notin> dom (pkts h) \<and> x \<notin> dom (nodes h)"
  using ex_new_if_finite [of "dom (pkts h) \<union> dom (nodes h)"] assms infinite_UNIV_nat by auto

lemma holds_finite: "holds h b ps \<Longrightarrow> finite (dom (nodes h))"
  by (auto simp: holds_def)

text \<open>The receiver gets the datagram just sent, and what it answers is there to be delivered.\<close>

lemma calm_receive:
  assumes t: "played crc e chunk evs S R acks" and em: "emptied chunk k R"
    and dg: "dg \<in> set (s_out S)" "arrives crc e chunk N k dg" "s_nb_sended S = int N" and k: "k \<le> N" "N \<le> k + lifetime"
  shows "\<exists>evs' R' acks' q. played crc e chunk evs' S R' acks' \<and> plain_ack (if k < N then k + 1 else k) q \<and>
    (if k < N then k + 1 else k, ack_wire crc e q) \<in> set acks' \<and>
    (if k < N then emptied chunk (k + 1) R' else rcv_inv chunk k [] R' \<and> r_last_acked R' = r_lastack_to_send R')"
proof -
  have R: "rcv_inv chunk k [] R" "r_last_acked R = int (k mod 256)" "r_lastack_to_send R = -2" "r_ready R \<noteq> 0"
    "finite (dom (pkts (r_heap R)))" using em by (simp_all add: emptied_def)
  obtain x where x: "x \<notin> dom (pkts (r_heap R))" "x \<notin> dom (nodes (r_heap R))"
    using fresh_address [OF R(5) holds_finite [OF rcv_inv_facts(1) [OF R(1)]]] by blast
  obtain R' q where r: "rcv_turn crc e lenient (calm_r dg x) R = Some (Go, R')" "r_acks R' = r_acks R @ [ack_wire crc e q]"
    "plain_ack (if k < N then k + 1 else k) q"
    "if k < N then emptied chunk (k + 1) R' else rcv_inv chunk k [] R' \<and> r_last_acked R' = r_lastack_to_send R'"
    using emptied_turn [OF em dg(2) k(1) x(1)] by blast
  have "rcv_running R" using R(2-4) by (simp add: rcv_running_def)
  moreover have "memory_ok R (calm_r dg x)" using x by (auto simp: memory_ok_def full_writes_def)
  ultimately have t': "played crc e chunk (evs @ [Inr (calm_r dg x)]) S R'
      (acks @ map (Pair (nat (r_nb_writed R'))) (drop (length (r_acks R)) (r_acks R')))"
    using calm_data [OF dg k(2)] r(1) by (rule played.receiver [OF t])
  have "rcv_inv chunk (if k < N then k + 1 else k) [] R'" using r(4) by (auto simp: emptied_def)
  then have "nat (r_nb_writed R') = (if k < N then k + 1 else k)" using rcv_inv_facts(4) by fastforce
  then show ?thesis using t' r(2-4) by (intro exI [of _ "evs @ [Inr (calm_r dg x)]"] exI [of _ R'] exI exI [of _ q] conjI) auto
qed

definition steady :: "(bytes \<Rightarrow> u32) \<Rightarrow> endian \<Rightarrow> (nat \<Rightarrow> bytes) \<Rightarrow> nat \<Rightarrow> bool" where
  "steady crc e chunk N \<longleftrightarrow> (\<exists>evs S R acks q. played crc e chunk evs S R acks \<and> waiting crc e chunk N S \<and> emptied chunk N R \<and>
     plain_ack N q \<and> (N, ack_wire crc e q) \<in> set acks)"

definition completed :: "(bytes \<Rightarrow> u32) \<Rightarrow> endian \<Rightarrow> (nat \<Rightarrow> bytes) \<Rightarrow> nat \<Rightarrow> bool" where
  "completed crc e chunk N \<longleftrightarrow> (\<exists>evs S R acks. played crc e chunk evs S R acks \<and> s_EOF_ACKED S = 1 \<and> s_nb_sended S = int N \<and>
     r_last_acked R = r_lastack_to_send R)"

lemma steady_round:
  assumes st: "steady crc e chunk N" and ok: "d \<noteq> [] \<Longrightarrow> d = chunk N \<and> length d \<le> MAX_PAYLOAD_SIZE \<and> crc d \<noteq> 0"
  shows "if d = [] then completed crc e chunk N else steady crc e chunk (N + 1)"
proof -
  let ?N = "if d = [] then N else N + 1"
  obtain evs S R acks q where t: "played crc e chunk evs S R acks" "waiting crc e chunk N S" "emptied chunk N R" "plain_ack N q"
    "(N, ack_wire crc e q) \<in> set acks" using st unfolding steady_def by blast
  obtain p where p: "snd_inv crc e chunk N (N - 1) [p] S" and S: "s_last_ack_to_receive S = -1" "s_EOF_ACKED S = 0" "s_ready S = 1"
    "finite (dom (pkts (s_heap S)))" using t(2) unfolding waiting_def by blast
  obtain x where x: "x \<notin> dom (pkts (s_heap S))" "x \<notin> dom (nodes (s_heap S))"
    using fresh_address [OF S(4) holds_finite [OF snd_inv_facts(1) [OF p]]] by blast
  let ?inp = "turn_s (Some d) (Some (ack_wire crc e q)) x"
  obtain S' dg where s: "sender_turn crc e ?inp S = Some (False, S')" "dg \<in> set (s_out S')" "arrives crc e chunk ?N N dg"
    "s_nb_sended S' = int ?N" "if d = [] then s_EOF_ACKED S' = 1 else waiting crc e chunk (N + 1) S'"
    using waiting_turn [OF t(2,4) x ok] by blast
  have nbR: "nat (r_nb_writed R) = N" using t(3) rcv_inv_facts(4) [of chunk N "[]" R] by (simp add: emptied_def)
  have "file_ok crc chunk S ?inp" using x S(1) ok snd_inv_facts(2) [OF p] by (intro calm_file) auto
  moreover have "ack_delivery crc e acks R ?inp" using calm_ack [OF t(4,5)] nbR by simp
  moreover have "sender_running S" using S by (simp add: sender_running_def)
  ultimately have "played crc e chunk (evs @ [Inl ?inp]) S' R acks" using s(1) by (intro played.sender [OF t(1)])
  from calm_receive [OF this t(3) s(2-4)] obtain evs' R' acks' q' where r: "played crc e chunk evs' S' R' acks'"
    "plain_ack ?N q'" "(?N, ack_wire crc e q') \<in> set acks'"
    "if d = [] then rcv_inv chunk N [] R' \<and> r_last_acked R' = r_lastack_to_send R' else emptied chunk (N + 1) R'"
    by (cases "d = []") (auto simp: lifetime_def)
  then show ?thesis using s(4,5) unfolding steady_def completed_def by (cases "d = []") (simp, blast, simp, blast)
qed

lemma first_round:
  assumes ok: "d \<noteq> [] \<Longrightarrow> d = chunk 0 \<and> length d \<le> MAX_PAYLOAD_SIZE \<and> crc d \<noteq> 0"
  shows "if d = [] then completed crc e chunk 0 else steady crc e chunk 1"
proof -
  let ?N = "if d = [] then 0 else 1 :: nat"
  obtain S' where s: "sender_turn crc e (turn_s (Some d) None 1) demo_sender = Some (False, S')"
    "has_sent crc e chunk 0 0 [] 1 d (demo_sender\<lparr>s_ready := 1\<rparr>) S'" using start_turn [of d chunk crc e 1] ok by blast
  have "file_ok crc chunk demo_sender (turn_s (Some d) None 1)"
    using ok by (intro calm_file) (auto simp: sender_init_def new_heap_def)
  then have t1: "played crc e chunk ([] @ [Inl (turn_s (Some d) None 1)]) S' (rcv_init empty_heap) []"
    using s(1) by (intro played.sender [OF played.start]) (simp_all add: sender_running_def sender_init_def ack_delivery_def ack_ok_def turn_s_def)
  have inv: "snd_inv crc e chunk ?N 0 [1] S'"
    and "\<exists>dg \<in> set (s_out S'). arrives crc e chunk ?N 0 dg"
    using s(2) [unfolded has_sent_def append_Nil add_0] by blast+
  then obtain dg where dg: "dg \<in> set (s_out S')" "arrives crc e chunk ?N 0 dg" by blast
  have em: "emptied chunk 0 (rcv_init empty_heap)"
    using rcv_init_inv [of empty_heap chunk] by (simp add: emptied_def rcv_init_def empty_heap_def)
  obtain evs R acks q where r: "played crc e chunk evs S' R acks" "plain_ack ?N q" "(?N, ack_wire crc e q) \<in> set acks"
    "if d = [] then rcv_inv chunk 0 [] R \<and> r_last_acked R = r_lastack_to_send R else emptied chunk 1 R"
    using calm_receive [OF t1 em dg snd_inv_facts(2) [OF inv]] by (cases "d = []") (auto simp: lifetime_def)
  have "rcv_inv chunk ?N [] R" using r(4) by (cases "d = []") (simp_all add: emptied_def)
  then have nbR: "nat (r_nb_writed R) = ?N" using rcv_inv_facts(4) by fastforce
  obtain S'' where s2: "sender_turn crc e (turn_s None (Some (ack_wire crc e q)) 2) S' = Some (False, S'')"
    "if d = [] then s_EOF_ACKED S'' = 1 \<and> s_nb_sended S'' = 0 else waiting crc e chunk 1 S''"
    using first_ack_turn [OF s(2) r(2)] by blast
  have "ack_delivery crc e acks R (turn_s None (Some (ack_wire crc e q)) 2)" using calm_ack [OF r(2,3)] nbR by simp
  moreover have "sender_running S'" "file_ok crc chunk S' (turn_s None (Some (ack_wire crc e q)) 2)"
    using s(2) by (simp_all add: has_sent_def sender_running_def sender_init_def file_ok_def turn_s_def)
  ultimately have "played crc e chunk (evs @ [Inl (turn_s None (Some (ack_wire crc e q)) 2)]) S'' R acks"
    using s2(1) by (intro played.sender [OF r(1)])
  then show ?thesis using s2(2) r(2-4) unfolding steady_def completed_def by (cases "d = []") (simp, blast, simp, blast)
qed

lemma file_completes:
  assumes "\<forall>k < N. chunk k \<noteq> [] \<and> length (chunk k) \<le> MAX_PAYLOAD_SIZE \<and> crc (chunk k) \<noteq> 0"
  shows "completed crc e chunk N"
proof -
  have "steady crc e chunk k" if "1 \<le> k" "k \<le> N" for k
    using that
  proof (induction k rule: dec_induct)
    case base
    then show ?case using first_round [of "chunk 0" chunk crc e] assms by auto
  next
    case (step k)
    then show ?case using steady_round [of crc e chunk k "chunk k"] assms by auto
  qed
  then show ?thesis
    using first_round [of "[]" chunk crc e] steady_round [of crc e chunk N "[]"] by (cases "N = 0") auto
qed

end
