(* ===== verification/Delivery.thy ===== *)
theory Delivery
  imports Completion Program_Run
begin

text \<open>
  That the two programs can deliver every file, from the arguments of both to the file on the
  disk of the receiver: the turns \<open>Completion\<close> plays are the turns of the two loops, both loops
  are left, and both programs return 0.
\<close>

section \<open>The turns played are those of the loops\<close>

lemma turns_append [simp]:
  "sender_turns (xs @ ys) = sender_turns xs @ sender_turns ys" "receiver_turns (xs @ ys) = receiver_turns xs @ receiver_turns ys"
  by (simp_all add: sender_turns_def receiver_turns_def)

lemma played_loops:
  "played crc e chunk evs S R acks \<Longrightarrow>
   sender_loop crc e (sender_turns evs @ ts) demo_sender = sender_loop crc e ts S \<and>
   receiver_loop crc e (receiver_turns evs @ us) (rcv_init empty_heap) = receiver_loop crc e us R"
proof (induction arbitrary: ts us rule: played.induct)
  case start
  then show ?case by simp
next
  case (sender evs S R acks inp S')
  then show ?case by (simp add: sender_loop.simps [of _ _ "inp # ts" S])
next
  case (receiver evs S R acks inp R')
  then show ?case by (simp add: receiver_loop.simps [of _ _ "inp # us" R])
qed

lemma played_schedule:
  "played crc e chunk evs S R acks \<Longrightarrow>
   schedule crc e chunk False False (evs @ rest) demo_sender (rcv_init empty_heap) [] \<longleftrightarrow>
   schedule crc e chunk False False rest S R acks"
  by (induction arbitrary: rest rule: played.induct) simp_all

text \<open>When the end of the file is known on both sides, both loops stop and free their buffers.\<close>

lemma played_over:
  assumes "played crc e chunk evs S R acks" "s_EOF_ACKED S = 1" "r_last_acked R = r_lastack_to_send R"
  shows "\<exists>hs hr. sender_loop crc e (sender_turns evs) demo_sender = Some (True, S\<lparr>s_heap := hs\<rparr>) \<and>
    receiver_loop crc e (receiver_turns evs) (rcv_init empty_heap) = Some (True, R\<lparr>r_heap := hr\<rparr>)"
proof -
  obtain N n m ps qs where i: "snd_inv crc e chunk N n ps S" "rcv_inv (so_far N chunk) m qs R"
    using transfer_run_inv [OF played_transfer [OF assms(1)]] unfolding transfer_inv_def by blast
  obtain hs hr where f: "buffer_free (s_heap S) (s_buffer S) = Some (hs, 0)" "buffer_free (r_heap R) (r_buffer R) = Some (hr, 0)"
    using holds_free [OF snd_inv_facts(1) [OF i(1)]] holds_free [OF rcv_inv_facts(1) [OF i(2)]] by blast
  have "\<not> sender_running S" "\<not> rcv_running R" using assms(2,3) by (simp_all add: sender_running_def rcv_running_def)
  then have "sender_loop crc e (sender_turns evs) demo_sender = Some (True, S\<lparr>s_heap := hs\<rparr>) \<and>
      receiver_loop crc e (receiver_turns evs) (rcv_init empty_heap) = Some (True, R\<lparr>r_heap := hr\<rparr>)"
    using f played_loops [OF assms(1), of "[]" "[]"]
    by (simp add: sender_loop.simps [of _ _ "[]" S] receiver_loop.simps [of _ _ "[]" R])
  then show ?thesis by blast
qed

section \<open>The programs return 0\<close>

text \<open>The host name is known, and the calls the programs make succeed.\<close>

definition resolves :: "kernel \<Rightarrow> string \<Rightarrow> bool" where
  "resolves k ip \<longleftrightarrow> fst (k_getaddrinfo k ip) = 0 \<and> snd (k_getaddrinfo k ip) \<noteq> []"

definition can_send :: "kernel \<Rightarrow> string \<Rightarrow> bool" where
  "can_send k ip \<longleftrightarrow> resolves k ip \<and> 0 \<le> k_socket k \<and> k_connect k"

definition can_receive :: "kernel \<Rightarrow> string \<Rightarrow> string \<Rightarrow> bool" where
  "can_receive k ip f \<longleftrightarrow> resolves k ip \<and> 0 \<le> k_socket k \<and> k_bind k \<and>
     k_recvfrom k \<and> k_arrive k \<noteq> [] \<and> k_connect k \<and> 0 \<le> k_open k f \<and> k_socket k \<noteq> k_open k f"

lemma real_address_ok: "resolves k ip \<Longrightarrow> \<exists>a. real_address k ip a0 = Some (None, a)"
  by (cases "k_getaddrinfo k ip"; cases "snd (k_getaddrinfo k ip)") (auto simp: resolves_def real_address_def)

lemma sender_main_returns:
  assumes "can_send k ip" "sender_options opts (None, None) = Some (f, sf)" "port_arg port = Some p"
    "\<And>sock fd. sender_loop crc e (si_turns w sock fd) (sender_init (si_heap w) (si_buf_ack w)) = Some (True, S)"
  shows "\<exists>os'. sender_main crc e k opts [ip, port] w os = Some (Some 0, S, os')"
proof -
  obtain a where a: "real_address k ip (si_addr w) = Some (None, a)" using assms(1) real_address_ok [of k ip "si_addr w"] by (auto simp: can_send_def)
  have "make_succeeds k None (Some a)" "\<not> k_socket k < 0" using assms(1) by (auto simp: can_send_def make_succeeds_def)
  then show ?thesis
    by (auto simp: sender_main_def sender_start_def assms(2-4) a sock.make_ok sender_session_def Let_def split: option.split prod.split)
qed

lemma receiver_main_returns:
  assumes "can_receive k ip f" "receiver_options opts (None, None) = Some (Some f, sf)" "port_arg port = Some p" "sf \<noteq> Some f"
    "\<And>sock. receiver_loop crc e (ri_turns w sock) (rcv_init (ri_heap w)) = Some (True, R)"
  shows "\<exists>os'. receiver_main crc e k opts [ip, port] w os = Some (Some 0, R, os') \<and>
    os_files os' f = Some (overwrite (old_content os f) (r_out R))"
proof -
  obtain a where a: "real_address k ip (ri_addr w) = Some (None, a)" using assms(1) real_address_ok [of k ip "ri_addr w"] by (auto simp: can_receive_def)
  have k: "make_succeeds k (Some a) None" "\<not> k_socket k < 0" "k_recvfrom k" "k_connect k" "0 \<le> k_open k f" "k_socket k \<noteq> k_open k f"
    using assms(1) by (auto simp: can_receive_def make_succeeds_def)
  obtain a0 d q where q: "k_arrive k = (a0, d) # q" using assms(1) by (cases "k_arrive k") (auto simp: can_receive_def)
  have w: "\<exists>os'. wait_for_client k (k_socket k) (set_fd (k_socket k) (Some (Sock (made_socket (Some b) None))) os1) = Some (0, os')" for b os1
    using sock.wait_ok [OF _ k(3,4), of "set_fd (k_socket k) (Some (Sock (made_socket (Some b) None))) os1"] q
    by (auto simp: made_socket_def new_socket_def)
  have "\<exists>os'. receiver_session crc e k sf (k_socket k) fd w (rcv_init (ri_heap w))
      (set_fd (k_socket k) (Some (Sock (made_socket (Some b) None))) os1) = Some (Some 0, R, os')" for b fd os1
    using w [of b os1] by (auto simp: receiver_session_def assms(5) Let_def split: prod.split)
  then obtain os' where r: "receiver_main crc e k opts [ip, port] w os = Some (Some 0, R, os')"
    using k by (fastforce simp: receiver_main_def receiver_start_def assms(2,3) a sock.make_ok Let_def split: prod.split)
  then show ?thesis using receiver_main_exit [OF r assms(2) k(5,6) assms(4)] by blast
qed



end
