(* ===== verification/Relay.thy ===== *)
theory Relay
  imports Lossy_Link
begin

text \<open>
  The three programs together: the sender and the receiver speak to the link simulator only. The
  network between the hosts may still lose, repeat and reorder; what is truncated, damaged or
  delayed is the work of the simulator. Every run of the three is a run of \<open>transfer\<close>.
\<close>

section \<open>What the sender sent stays sent\<close>

definition sends_more :: "sender \<Rightarrow> sender \<Rightarrow> bool" where
  "sends_more S S' \<longleftrightarrow> (\<exists>ds. s_out S' = s_out S @ ds)"

lemma sends_more_refl: "s_out S' = s_out S \<Longrightarrow> sends_more S S'"
  by (simp add: sends_more_def)

lemma sends_more_trans: "sends_more S T \<Longrightarrow> sends_more T U \<Longrightarrow> sends_more S U"
  by (auto simp: sends_more_def)

lemma sends_more_set: "sends_more S S' \<Longrightarrow> set (s_out S) \<subseteq> set (s_out S')"
  by (auto simp: sends_more_def)

lemma send_pkt_more: "send_pkt crc e inp S p = Some S' \<Longrightarrow> sends_more S S'"
  by (auto simp: send_pkt_def sends_more_def bind_eq_Some_conv Let_def split: if_splits prod.splits)

lemma bindE: "Option.bind m f = Some y \<Longrightarrow> (\<And>x. m = Some x \<Longrightarrow> f x = Some y \<Longrightarrow> P) \<Longrightarrow> P"
  by (auto simp: bind_eq_Some_conv)

lemma turn_file_more: "turn_file inp S = Some S' \<Longrightarrow> sends_more S S'"
  using turn_file_control by (blast intro: sends_more_refl)

lemma handle_ack_more: "handle_ack inp q S = Some S' \<Longrightarrow> sends_more S S'"
  by (auto simp: handle_ack_def bind_eq_Some_conv Let_def intro!: sends_more_refl split: if_splits prod.splits)

lemma turn_ack_more: "turn_ack crc e inp S = Some S' \<Longrightarrow> sends_more S S'"
  by (auto simp: turn_ack_def bind_eq_Some_conv Let_def intro!: sends_more_refl
      dest!: handle_ack_more simp: sends_more_def split: if_splits prod.splits option.splits)

lemma resend_more:
  "(if c then do { p \<leftarrow> x; st \<leftarrow> send_pkt crc e inp S p; Some (f st) } else Some S) = Some S' \<Longrightarrow>
   (\<And>st. s_out (f st) = s_out st) \<Longrightarrow> sends_more S S'"
  by (auto simp: bind_eq_Some_conv sends_more_def dest!: send_pkt_more split: if_splits)

lemma turn_send_scan:
  assumes "(case p of None \<Rightarrow> Some (False, S)
        | Some a \<Rightarrow> do {
            q \<leftarrow> pkts (s_heap S) a;
            let last = (uint (pkt_get_seqnum q) = s_last_ack_to_receive S);
            let st = (if last then S\<lparr>s_nb_last_ack_to := s_nb_last_ack_to S + 1\<rparr> else S);
            if last \<and> s_nb_last_ack_to st = 4 then Some (True, st)
            else do { st \<leftarrow> send_pkt crc e inp st (Some a); Some (False, st) }
          }) = Some (gone, S')"
  shows "sends_more S S'"
proof (cases p)
  case (Some a)
  then obtain q where q: "pkts (s_heap S) a = Some q" using assms by (cases "pkts (s_heap S) a") auto
  define S1 where "S1 = (if uint (pkt_get_seqnum q) = s_last_ack_to_receive S then S\<lparr>s_nb_last_ack_to := s_nb_last_ack_to S + 1\<rparr> else S)"
  have "S' = S1 \<or> send_pkt crc e inp S1 (Some a) = Some S'"
    using assms by (auto simp: Some q S1_def Let_def bind_eq_Some_conv split: if_splits)
  moreover have "s_out S1 = s_out S" by (simp add: S1_def)
  ultimately show ?thesis using send_pkt_more [of crc e inp S1 "Some a" S'] by (auto simp: sends_more_def)
qed (use assms in \<open>simp add: sends_more_def\<close>)

lemma turn_send_more:
  assumes "turn_send crc e inp S = Some (gone, S')"
  shows "sends_more S S'"
proof -
  have unsent: "sends_more S3 S'" if "(if gone3 then Some (True, S3) else do {
       p \<leftarrow> look_for_unsended_packet (s_heap S3) (Some (s_buffer S3));
       (case p of None \<Rightarrow> Some (False, S3)
        | Some a \<Rightarrow> do { st \<leftarrow> send_pkt crc e inp S3 (Some a); Some (False, st) })
     }) = Some (gone, S')" for gone3 S3
    using that by (auto simp: bind_eq_Some_conv intro: sends_more_refl dest: send_pkt_more split: if_splits option.splits)
  show ?thesis
    using assms unfolding turn_send_def
  proof (elim bindE)
    fix S1 S2 ph
    assume 1: "(if s_ack_received S \<noteq> - 1 then do {
              p \<leftarrow> buffer_get_pkt (s_heap S) (s_buffer S) (word_of_int (s_ack_received S));
              st \<leftarrow> send_pkt crc e inp S p;
              Some (st\<lparr>s_ack_received := - 1\<rparr>)
            } else Some S) = Some S1"
      and 2: "(if s_pkt_tr S1 \<noteq> - 1 then do {
              p \<leftarrow> buffer_get_pkt (s_heap S1) (s_buffer S1) (word_of_int (s_pkt_tr S1));
              st \<leftarrow> send_pkt crc e inp S1 p;
              Some (st\<lparr>s_pkt_tr := - 1\<rparr>)
            } else Some S1) = Some S2"
      and 3: "(case ph of (p, h) \<Rightarrow> let st = S2\<lparr>s_heap := h\<rparr> in
        Option.bind (case p of None \<Rightarrow> Some (False, st)
        | Some a \<Rightarrow> do {
            q \<leftarrow> pkts (s_heap st) a;
            let last = (uint (pkt_get_seqnum q) = s_last_ack_to_receive st);
            let st = (if last then st\<lparr>s_nb_last_ack_to := s_nb_last_ack_to st + 1\<rparr> else st);
            if last \<and> s_nb_last_ack_to st = 4 then Some (True, st)
            else do { st \<leftarrow> send_pkt crc e inp st (Some a); Some (False, st) }
          })
        (\<lambda>(gone, st). if gone then Some (True, st) else do {
           p \<leftarrow> look_for_unsended_packet (s_heap st) (Some (s_buffer st));
           (case p of None \<Rightarrow> Some (False, st)
            | Some a \<Rightarrow> do { st \<leftarrow> send_pkt crc e inp st (Some a); Some (False, st) }) })) = Some (gone, S')"
    have "sends_more S S1" "sends_more S1 S2" by (rule resend_more [OF 1], simp) (rule resend_more [OF 2], simp)
    moreover obtain p h where ph: "ph = (p, h)" by (cases ph)
    have "sends_more (S2\<lparr>s_heap := h\<rparr>) S'"
      using 3 unfolding ph prod.case Let_def [of "S2\<lparr>s_heap := h\<rparr>"]
    proof (elim bindE)
      fix x
      assume a: "(case p of None \<Rightarrow> Some (False, S2\<lparr>s_heap := h\<rparr>)
        | Some a \<Rightarrow> do {
            q \<leftarrow> pkts (s_heap (S2\<lparr>s_heap := h\<rparr>)) a;
            let last = (uint (pkt_get_seqnum q) = s_last_ack_to_receive (S2\<lparr>s_heap := h\<rparr>));
            let st = (if last then (S2\<lparr>s_heap := h\<rparr>)\<lparr>s_nb_last_ack_to := s_nb_last_ack_to (S2\<lparr>s_heap := h\<rparr>) + 1\<rparr> else S2\<lparr>s_heap := h\<rparr>);
            if last \<and> s_nb_last_ack_to st = 4 then Some (True, st)
            else do { st \<leftarrow> send_pkt crc e inp st (Some a); Some (False, st) }
          }) = Some x" and b: "(case x of (gone, st) \<Rightarrow> if gone then Some (True, st) else do {
           p \<leftarrow> look_for_unsended_packet (s_heap st) (Some (s_buffer st));
           (case p of None \<Rightarrow> Some (False, st)
            | Some a \<Rightarrow> do { st \<leftarrow> send_pkt crc e inp st (Some a); Some (False, st) }) }) = Some (gone, S')"
      obtain g S3 where x: "x = (g, S3)" by (cases x)
      show "sends_more (S2\<lparr>s_heap := h\<rparr>) S'"
        by (rule sends_more_trans [OF turn_send_scan [OF a [unfolded x]] unsent [OF b [unfolded x prod.case]]])
    qed
    then have "sends_more S2 S'" by (simp add: sends_more_def)
    ultimately show ?thesis by (blast intro: sends_more_trans)
  qed
qed

lemma sender_turn_more:
  assumes "sender_turn crc e inp S = Some (gone, S')"
  shows "sends_more S S'"
  using assms
  by (auto simp: sender_turn_def bind_eq_Some_conv Let_def split: if_splits
      dest!: turn_file_more turn_send_more turn_ack_more) (auto simp: sends_more_def)

section \<open>What the link carries\<close>

text \<open>
  \<open>Q d b\<close>: datagram \<open>b\<close> may be on its way in direction \<open>d\<close>. As long as the link has not heard of
  the sender it carries nothing.
\<close>

definition relay_ok :: "(u32 \<Rightarrow> bytes \<Rightarrow> bool) \<Rightarrow> link \<Rightarrow> bool" where
  "relay_ok Q L \<longleftrightarrow> mq_inv pkt_slot_cmp (l_queue L) \<and> delays_ok L \<and>
     (\<forall>p. p \<in># mq_items (l_queue L) \<longrightarrow> Q (ps_direction p) (ps_buf p)) \<and>
     (\<forall>a b. (a, b) \<in> set (l_out L) \<longrightarrow> (\<exists>d. Q d b \<and> a = way L d)) \<and>
     (l_src L = None \<longrightarrow> mq_items (l_queue L) = {#} \<and> l_out L = [])"

definition same_setup :: "link \<Rightarrow> link \<Rightarrow> bool" where
  "same_setup L L' \<longleftrightarrow> l_dest L' = l_dest L \<and> l_direction L' = l_direction L \<and> l_err_rate L' = l_err_rate L \<and>
     l_delay L' = l_delay L \<and> l_jitter L' = l_jitter L"

lemma relay_ok_mono: "relay_ok Q L \<Longrightarrow> (\<And>d b. Q d b \<Longrightarrow> Q' d b) \<Longrightarrow> relay_ok Q' L"
  unfolding relay_ok_def by blast

lemma relay_ok_step:
  assumes ok: "relay_ok Q L" and inv: "mq_inv pkt_slot_cmp (l_queue L')" and same: "same_setup L L'" "l_src L' = l_src L"
    and q: "\<And>p. p \<in># mq_items (l_queue L') \<Longrightarrow> p \<in># mq_items (l_queue L) \<or> Q (ps_direction p) (ps_buf p)"
    and out: "\<And>a b. (a, b) \<in> set (l_out L') \<Longrightarrow> (a, b) \<in> set (l_out L) \<or> (\<exists>d. Q d b \<and> a = way L d)"
    and none: "l_src L = None \<Longrightarrow> mq_items (l_queue L') = {#} \<and> l_out L' = []"
  shows "relay_ok Q L'"
proof -
  have "way L' = way L" using same by (simp add: fun_eq_iff way_def same_setup_def)
  then have "\<exists>d. Q d b \<and> a = way L' d" if "(a, b) \<in> set (l_out L')" for a b
    using out [OF that] ok by (auto simp: relay_ok_def)
  moreover have "Q (ps_direction p) (ps_buf p)" if "p \<in># mq_items (l_queue L')" for p
    using q [OF that] ok by (auto simp: relay_ok_def)
  moreover have "delays_ok L'" using ok same(1) by (simp add: relay_ok_def delays_ok_def same_setup_def)
  ultimately show ?thesis using inv none same(2) by (simp add: relay_ok_def)
qed

lemma relay_ok_fields: "relay_ok Q L \<Longrightarrow> mq_inv pkt_slot_cmp (l_queue L) \<and> delays_ok L"
  by (simp add: relay_ok_def)

lemma relay_ok_queue: "relay_ok Q L \<Longrightarrow> p \<in># mq_items (l_queue L) \<Longrightarrow> Q (ps_direction p) (ps_buf p)"
  unfolding relay_ok_def by blast

lemma relay_ok_out: "relay_ok Q L \<Longrightarrow> (a, b) \<in> set (l_out L) \<Longrightarrow> \<exists>d. Q d b \<and> a = way L d"
  unfolding relay_ok_def by blast

lemma relay_ok_silent: "relay_ok Q L \<Longrightarrow> l_src L = None \<Longrightarrow> mq_items (l_queue L) = {#} \<and> l_out L = []"
  by (simp add: relay_ok_def)

lemma relay_ok_clock: "relay_ok Q L \<Longrightarrow> relay_ok Q (L\<lparr>l_clock := now\<rparr>)"
  by (rule relay_ok_step) (auto dest: relay_ok_fields relay_ok_silent simp: same_setup_def)

lemma same_setup_fields:
  "L'\<lparr>l_queue := q, l_rands := k, l_sends := n, l_errno := err, l_out := out\<rparr> = L \<Longrightarrow> same_setup L L'"
  "L'\<lparr>l_queue := q, l_rands := k, l_sends := n, l_errno := err, l_out := out\<rparr> = L \<Longrightarrow> l_src L' = l_src L"
  "L'\<lparr>l_queue := q, l_sends := n, l_errno := err, l_out := out\<rparr> = L \<Longrightarrow> same_setup L L'"
  "L'\<lparr>l_queue := q, l_sends := n, l_errno := err, l_out := out\<rparr> = L \<Longrightarrow> l_src L' = l_src L"
  by (auto simp: same_setup_def)

lemma deliver_relays:
  assumes ok: "relay_ok Q L" and run: "deliver_delayed_pkt env L = Some (r, L')"
  shows "relay_ok Q L' \<and> same_setup L L' \<and> l_src L' = l_src L"
proof -
  obtain vs where d: "mq_inv pkt_slot_cmp (l_queue L')" "mset vs + mq_items (l_queue L') = mq_items (l_queue L)"
    "l_out L' = l_out L @ sent_of L vs"
    "L'\<lparr>l_queue := l_queue L, l_sends := l_sends L, l_errno := l_errno L, l_out := l_out L\<rparr> = L"
    using deliver_conserves [of L env] ok run by (auto simp: relay_ok_def)
  have same: "same_setup L L'" "l_src L' = l_src L" by (rule same_setup_fields(3,4) [OF d(4)])+
  have sub: "p \<in># mq_items (l_queue L)" if "p \<in># mq_items (l_queue L') \<or> p \<in> set vs" for p
    using that d(2) by (metis UnCI set_mset_mset set_mset_union)
  have "relay_ok Q L'"
  proof (rule relay_ok_step [OF ok d(1) same])
    show "(a, b) \<in> set (l_out L) \<or> (\<exists>d. Q d b \<and> a = way L d)" if m: "(a, b) \<in> set (l_out L')" for a b
    proof (cases "(a, b) \<in> set (l_out L)")
      case False
      then obtain p where "p \<in> set vs" "a = way L (ps_direction p)" "b = ps_buf p"
        using m unfolding d(3) sent_of_def slot_addr_def by auto
      then show ?thesis using relay_ok_queue [OF ok sub] by blast
    qed simp
    show "mq_items (l_queue L') = {#} \<and> l_out L' = []" if "l_src L = None"
      using relay_ok_silent [OF ok that] d(2,3) by (auto simp: sent_of_def)
  qed (use sub in blast)
  then show ?thesis using same by blast
qed

lemma write_out_relays:
  assumes ok: "relay_ok Q L" and src: "l_src L \<noteq> None" and q: "Q d buf" and run: "write_out env buf d L = (r, L')"
  shows "relay_ok Q L' \<and> same_setup L L' \<and> l_src L' = l_src L"
proof -
  have r: "l_queue L' = l_queue L" "set (l_out L') \<subseteq> insert (way L d, buf) (set (l_out L))" "same_setup L L'" "l_src L' = l_src L"
    using run by (auto simp: write_out_def Let_def way_def same_setup_def split: if_splits)
  have "relay_ok Q L'" using ok r src q by (intro relay_ok_step [OF ok]) (auto dest: relay_ok_fields)
  then show ?thesis using r by blast
qed

lemma simulate_relays:
  assumes ok: "relay_ok Q L" and src: "l_src L \<noteq> None" and re: "realloc_ok (e_realloc env)" and ne: "buf \<noteq> []"
    and q: "\<And>b. altered buf b \<Longrightarrow> (l_err_rate L = 0 \<and> length buf \<le> MIN_PKT_PDATA_LEN \<longrightarrow> b = buf) \<Longrightarrow> Q d b"
    and run: "simulate_link env buf d L = Some (r, L')"
  shows "relay_ok Q L' \<and> same_setup L L' \<and> l_src L' = l_src L"
proof -
  have inv: "mq_inv pkt_slot_cmp (l_queue L)" "delays_ok L" using ok by (simp_all add: relay_ok_def)
  have s: "mq_inv pkt_slot_cmp (l_queue L')"
    "L'\<lparr>l_queue := l_queue L, l_rands := l_rands L, l_sends := l_sends L, l_errno := l_errno L, l_out := l_out L\<rparr> = L"
    "(mq_items (l_queue L') = mq_items (l_queue L) \<and> l_out L' = l_out L) \<or>
     (\<exists>b. Q d b \<and> ((\<exists>ts. mq_items (l_queue L') = add_mset \<lparr>ps_ts = ts, ps_direction = d, ps_buf = b\<rparr> (mq_items (l_queue L)) \<and>
             l_out L' = l_out L) \<or>
        (mq_items (l_queue L') = mq_items (l_queue L) \<and> l_out L' = l_out L @ [(way L d, b)])))"
    using simulate_link_cases [OF inv(1) re inv(2) ne, of d] run q by (auto 0 4)
  have same: "same_setup L L'" "l_src L' = l_src L" by (rule same_setup_fields(1,2) [OF s(2)])+
  have "relay_ok Q L'" using s(3) src by (intro relay_ok_step [OF ok s(1) same]) auto
  then show ?thesis using same by blast
qed

text \<open>
  A datagram of the sender may be altered on its way; one of the receiver must be too short to be
  truncated, and not be damaged.
\<close>

definition way_back :: "link \<Rightarrow> bool" where
  "way_back L \<longleftrightarrow> l_direction L AND LINK_REVERSE = 0 \<or> l_err_rate L = 0"

lemma forward_reverse: "LINK_FORWARD \<noteq> 0" "LINK_REVERSE \<noteq> 0" "LINK_REVERSE \<noteq> LINK_FORWARD"
  by (simp_all add: LINK_FORWARD_def LINK_REVERSE_def)

lemma process_relays:
  assumes ok: "relay_ok Q L" and re: "realloc_ok (e_realloc env)" and wb: "way_back L"
    and src: "l_src L = None \<Longrightarrow> from = a" "l_src L \<noteq> None \<Longrightarrow> l_src L = Some a" and ne: "a \<noteq> l_dest L"
    and fwd: "\<And>b. from = a \<Longrightarrow> altered (take MAX_PKT_LEN dgram) b \<Longrightarrow> Q LINK_FORWARD b"
    and rev: "from = l_dest L \<Longrightarrow> length dgram \<le> MIN_PKT_PDATA_LEN \<and> Q LINK_REVERSE dgram"
    and run: "process_incoming_pkt env (Recv from dgram) L = Some (r, L')"
  shows "relay_ok Q L' \<and> same_setup L L' \<and> (l_src L' = l_src L \<or> l_src L' = Some a)"
proof -
  define buf where "buf = take MAX_PKT_LEN dgram"
  define L1 where "L1 = (if l_src L = None then L\<lparr>l_src := Some from\<rparr> else L)"
  show ?thesis
  proof (cases "length buf < MIN_PKT_LEN")
    case True
    then show ?thesis using run ok by (auto simp: process_incoming_pkt_def buf_def same_setup_def)
  next
    case False
    then have ne_buf: "buf \<noteq> []" by (auto simp: MIN_PKT_LEN_def)
    have L1: "relay_ok Q L1" "same_setup L L1" "l_src L1 = Some a" "way_back L1" "l_dest L1 = l_dest L"
      using ok src wb relay_ok_silent [OF ok]
      by (auto simp: L1_def relay_ok_def same_setup_def delays_ok_def way_back_def)
    define dir where "dir = (if from = a then LINK_FORWARD else if from = l_dest L then LINK_REVERSE else 0)"
    have go: "(if dir = 0 then Some (0, L1)
          else if dir AND l_direction L1 = 0 then
            (case write_out env buf dir L1 of (r, st) \<Rightarrow> Some (if r \<noteq> 0 then 1 else 0, st))
          else simulate_link env buf dir L1) = Some (r, L')"
      using run False L1(3,5) by (simp add: process_incoming_pkt_def Let_def buf_def L1_def dir_def cong: if_cong)
    have b: "Q dir b" if "dir \<noteq> 0" "altered buf b" "dir AND l_direction L1 = 0 \<Longrightarrow> b = buf"
      "l_err_rate L1 = 0 \<and> length buf \<le> MIN_PKT_PDATA_LEN \<Longrightarrow> b = buf" for b
    proof (cases "from = a")
      case True
      then show ?thesis using fwd that(2) by (simp add: dir_def buf_def)
    next
      case False
      then have d: "dir = LINK_REVERSE" "from = l_dest L" using that(1) by (auto simp: dir_def split: if_splits)
      have "length dgram \<le> MAX_PKT_LEN" using rev [OF d(2)] by (simp add: MIN_PKT_PDATA_LEN_def MAX_PKT_LEN_def)
      then have "buf = dgram" "length buf \<le> MIN_PKT_PDATA_LEN" using rev [OF d(2)] by (simp_all add: buf_def)
      then show ?thesis using rev [OF d(2)] that(3,4) L1(4) d(1) by (auto simp: way_back_def and.commute)
    qed
    have "relay_ok Q L' \<and> same_setup L1 L' \<and> l_src L' = l_src L1"
    proof (cases "dir = 0")
      case True
      then show ?thesis using go L1 by (simp add: same_setup_def)
    next
      case dir: False
      show ?thesis
      proof (cases "dir AND l_direction L1 = 0")
        case True
        then obtain r' where "write_out env buf dir L1 = (r', L')" using go dir by (auto split: prod.splits)
        then show ?thesis using True dir b [of buf] L1(3) by (intro write_out_relays [OF L1(1)]) (auto simp: altered_def)
      next
        case False
        then show ?thesis using go dir b L1(3) ne_buf by (intro simulate_relays [OF L1(1) _ re]) auto
      qed
    qed
    then show ?thesis using L1(2,3) by (auto simp: same_setup_def)
  qed
qed


lemma turn_relays:
  assumes ok: "relay_ok Q L" and re: "realloc_ok (e_realloc env)" and wb: "way_back L"
    and src: "l_src L = None \<or> l_src L = Some a" and ne: "a \<noteq> l_dest L"
    and heard: "\<And>from dgram. input = Some (Recv from dgram) \<Longrightarrow>
      (l_src L = None \<longrightarrow> from = a) \<and> (from = a \<longrightarrow> (\<forall>b. altered (take MAX_PKT_LEN dgram) b \<longrightarrow> Q LINK_FORWARD b)) \<and>
      (from = l_dest L \<longrightarrow> length dgram \<le> MIN_PKT_PDATA_LEN \<and> Q LINK_REVERSE dgram)"
    and run: "proxy_turn env clock input L = Some (up, L')"
  shows "relay_ok Q L' \<and> same_setup L L' \<and> (l_src L' = None \<or> l_src L' = Some a)"
proof (cases clock)
  case None
  then show ?thesis using run ok src by (simp add: proxy_turn_def same_setup_def)
next
  case (Some now)
  obtain r L1 where d: "deliver_delayed_pkt env (L\<lparr>l_clock := now\<rparr>) = Some (r, L1)"
    using run Some by (auto simp: proxy_turn_def bind_eq_Some_conv)
  have L1: "relay_ok Q L1" "same_setup L L1" "l_src L1 = l_src L"
    using deliver_relays [OF relay_ok_clock [OF ok] d] by (simp_all add: same_setup_def)
  show ?thesis
  proof (cases "r \<noteq> 0 \<or> input = None \<or> input = Some Recv_Again \<or> input = Some Recv_Failed")
    case True
    then have "L' = L1" using run Some d by (auto simp: proxy_turn_def process_incoming_pkt_def split: if_splits)
    then show ?thesis using L1 src by auto
  next
    case False
    then obtain fr dgram where i: "input = Some (Recv fr dgram)" by (cases input; cases "the input") auto
    then obtain r' where p: "process_incoming_pkt env (Recv fr dgram) L1 = Some (r', L')"
      using run Some d False by (auto simp: proxy_turn_def bind_eq_Some_conv)
    have "way_back L1" "l_dest L1 = l_dest L" using wb L1(2) by (simp_all add: way_back_def same_setup_def)
    from process_relays [OF L1(1) re this(1) _ _ _ _ _ p, of a] show ?thesis
      using heard [OF i] src ne L1 \<open>l_dest L1 = l_dest L\<close> by (auto simp: same_setup_def)
  qed
qed

section \<open>Runs of the three programs\<close>

text \<open>
  \<open>a\<close> is the address of the sender. What reaches the socket of the link: from \<open>a\<close> a datagram
  the sender sent, from the host it forwards to one the receiver sent, and from elsewhere
  anything, but not before the sender was heard of.
\<close>

definition heard :: "sockaddr \<Rightarrow> sender \<Rightarrow> (nat \<times> bytes) list \<Rightarrow> link \<Rightarrow> recv_result option \<Rightarrow> bool" where
  "heard a S acks L input \<longleftrightarrow> (\<forall>from d. input = Some (Recv from d) \<longrightarrow>
     (l_src L = None \<longrightarrow> from = a) \<and> (from = a \<longrightarrow> d \<in> set (s_out S)) \<and> (from = l_dest L \<longrightarrow> d \<in> snd ` set acks))"

text \<open>What reaches the programs was sent to them by the link, and is not more than \<open>lifetime\<close> pieces old.\<close>

definition relayed_data :: "(bytes \<Rightarrow> u32) \<Rightarrow> endian \<Rightarrow> (nat \<Rightarrow> bytes) \<Rightarrow> sender \<Rightarrow> link \<Rightarrow> rturn \<Rightarrow> bool" where
  "relayed_data crc e chunk S L inp \<longleftrightarrow> (\<forall>d. t_read inp = Some d \<longrightarrow> t_payload_ok inp \<and> (Some (l_dest L), d) \<in> set (l_out L) \<and>
     (d \<in> set (s_out S) \<longrightarrow> (\<exists>k. arrives crc e chunk (nat (s_nb_sended S)) k d \<and> nat (s_nb_sended S) \<le> k + lifetime)))"

definition relayed_ack :: "sockaddr \<Rightarrow> (nat \<times> bytes) list \<Rightarrow> link \<Rightarrow> rcv \<Rightarrow> sturn \<Rightarrow> bool" where
  "relayed_ack a acks L R inp \<longleftrightarrow> (\<forall>d. u_ack inp = Some d \<longrightarrow> (Some a, d) \<in> set (l_out L) \<and>
     (d \<in> snd ` set acks \<longrightarrow> (\<exists>t. (t, d) \<in> set acks \<and> nat (r_nb_writed R) \<le> t + lifetime)))"

definition link_start :: "sockaddr \<Rightarrow> link \<Rightarrow> bool" where
  "link_start a L \<longleftrightarrow> mq_inv pkt_slot_cmp (l_queue L) \<and> mq_items (l_queue L) = {#} \<and> l_out L = [] \<and> l_src L = None \<and>
     delays_ok L \<and> way_back L \<and> l_dest L \<noteq> a"

text \<open>The flag says that the link simulator is still running.\<close>

inductive relayed :: "(bytes \<Rightarrow> u32) \<Rightarrow> endian \<Rightarrow> (nat \<Rightarrow> bytes) \<Rightarrow> sockaddr \<Rightarrow>
    sender \<Rightarrow> bool \<Rightarrow> link \<Rightarrow> rcv \<Rightarrow> (nat \<times> bytes) list \<Rightarrow> bool" for crc e chunk a where
  start: "nodes hs = Map.empty \<Longrightarrow> length b = Sender.ACK_SIZE \<Longrightarrow> nodes hr = Map.empty \<Longrightarrow> link_start a L \<Longrightarrow>
    relayed crc e chunk a (sender_init hs b) True L (rcv_init hr) []"
| sender: "relayed crc e chunk a S up L R acks \<Longrightarrow> sender_running S \<Longrightarrow> file_ok crc chunk S inp \<Longrightarrow>
    relayed_ack a acks L R inp \<Longrightarrow> sender_turn crc e inp S = Some (gone, S') \<Longrightarrow> relayed crc e chunk a S' up L R acks"
| link: "relayed crc e chunk a S True L R acks \<Longrightarrow> realloc_ok (e_realloc env) \<Longrightarrow> heard a S acks L input \<Longrightarrow>
    proxy_turn env clock input L = Some (up, L') \<Longrightarrow> relayed crc e chunk a S up L' R acks"
| receiver: "relayed crc e chunk a S up L R acks \<Longrightarrow> rcv_running R \<Longrightarrow> memory_ok R inp \<Longrightarrow>
    relayed_data crc e chunk S L inp \<Longrightarrow> rcv_turn crc e lenient inp R = Some (f, R') \<Longrightarrow>
    relayed crc e chunk a S up L R' (acks @ map (Pair (nat (r_nb_writed R'))) (drop (length (r_acks R)) (r_acks R')))"

text \<open>What may be on its way: datagrams of the sender, altered, and those of the receiver.\<close>

definition under_way :: "sender \<Rightarrow> (nat \<times> bytes) list \<Rightarrow> u32 \<Rightarrow> bytes \<Rightarrow> bool" where
  "under_way S acks d b \<longleftrightarrow> d = LINK_FORWARD \<and> (\<exists>dg \<in> set (s_out S). altered dg b) \<or> d = LINK_REVERSE \<and> b \<in> snd ` set acks"

lemma under_way_mono:
  "under_way S acks d b \<Longrightarrow> set (s_out S) \<subseteq> set (s_out S') \<Longrightarrow> set acks \<subseteq> set acks' \<Longrightarrow> under_way S' acks' d b"
  unfolding under_way_def by blast

lemma no_datagram: "t_read inp = None \<Longrightarrow> \<not> decodes_to crc e inp p"
  by (auto simp: decodes_to_def turn_len_def decode_unfold split: if_splits)

lemma transfer_datagrams:
  assumes "transfer crc e chunk S R acks"
  shows "dg \<in> set (s_out S) \<Longrightarrow> length dg \<le> MAX_PKT_SIZE" "b \<in> snd ` set acks \<Longrightarrow> length b = 10 \<and> not_data b"
proof -
  obtain N n ps where inv: "snd_inv crc e chunk N n ps S"
    using transfer_run_inv [OF assms] unfolding transfer_inv_def by blast
  show "length dg \<le> MAX_PKT_SIZE" if "dg \<in> set (s_out S)"
    using sent_arrives [OF snd_inv_facts(8) [OF inv that]] by (auto simp: arrives_def)
  show "length b = 10 \<and> not_data b" if b: "b \<in> snd ` set acks"
  proof -
    obtain t where "(t, b) \<in> set acks" using b by auto
    moreover obtain a where "\<forall>x \<in> set acks. ack_ghost crc e a x"
      using transfer_run_inv [OF assms] unfolding transfer_inv_def by blast
    ultimately obtain q where "b = ack_wire crc e q" "p_type q = 2 \<or> p_type q = 3"
      by (fastforce simp: ack_ghost_def)
    then show ?thesis using ack_wire_not_data [of q crc e] by auto
  qed
qed

lemma relayed_data_delivery:
  assumes "checksum crc" "transfer crc e chunk S R acks" "relay_ok (under_way S acks) L" "l_src L = None \<or> l_src L = Some a"
    "l_dest L \<noteq> a" "relayed_data crc e chunk S L inp"
  shows "data_delivery crc e chunk S inp"
proof (cases "t_read inp")
  case None
  then show ?thesis using no_datagram by (simp add: data_delivery_def)
next
  case (Some d)
  have d: "(Some (l_dest L), d) \<in> set (l_out L)" "t_payload_ok inp"
    "d \<in> set (s_out S) \<Longrightarrow> \<exists>k. arrives crc e chunk (nat (s_nb_sended S)) k d \<and> nat (s_nb_sended S) \<le> k + lifetime"
    using assms(6) Some by (auto simp: relayed_data_def)
  obtain dir where "under_way S acks dir d" "Some (l_dest L) = way L dir" using relay_ok_out [OF assms(3) d(1)] by blast
  then obtain dg where "dg \<in> set (s_out S)" "altered dg d" using assms(4,5) by (auto simp: under_way_def way_def forward_reverse)
  then show ?thesis using altered_delivery [OF assms(1,2) _ _ _ Some d(2)] d(3) by blast
qed

lemma relayed_ack_delivery:
  assumes "transfer crc e chunk S R acks" "relay_ok (under_way S acks) L" "l_src L = None \<or> l_src L = Some a" "l_dest L \<noteq> a"
    "relayed_ack a acks L R inp"
  shows "ack_delivery crc e acks R inp"
proof (cases "u_ack inp")
  case None
  then show ?thesis by (rule no_ack)
next
  case (Some d)
  then have "(Some a, d) \<in> set (l_out L)" using assms(5) by (simp add: relayed_ack_def)
  from relay_ok_out [OF assms(2) this] obtain dir where "under_way S acks dir d" "Some a = way L dir" by blast
  then have d: "d \<in> snd ` set acks" using assms(4) by (auto simp: under_way_def way_def forward_reverse)
  then obtain t where "(t, d) \<in> set acks" "nat (r_nb_writed R) \<le> t + lifetime" using assms(5) Some by (auto simp: relayed_ack_def)
  moreover have "length d = 10" "not_data d" using transfer_datagrams(2) [OF assms(1) d] by auto
  ultimately show ?thesis using Some by (auto simp: ack_delivery_def ack_ok_def Sender.ACK_SIZE_def)
qed

lemma relayed_turn:
  assumes t: "transfer crc e chunk S R acks" and ok: "relay_ok (under_way S acks) L" and src: "l_src L = None \<or> l_src L = Some a"
    and dest: "l_dest L \<noteq> a" and wb: "way_back L" and re: "realloc_ok (e_realloc env)" and hears: "heard a S acks L input"
    and run: "proxy_turn env clock input L = Some (up, L')"
  shows "relay_ok (under_way S acks) L' \<and> same_setup L L' \<and> (l_src L' = None \<or> l_src L' = Some a)"
proof -
  have "(l_src L = None \<longrightarrow> fr = a) \<and> (fr = a \<longrightarrow> (\<forall>b. altered (take MAX_PKT_LEN d) b \<longrightarrow> under_way S acks LINK_FORWARD b)) \<and>
      (fr = l_dest L \<longrightarrow> length d \<le> MIN_PKT_PDATA_LEN \<and> under_way S acks LINK_REVERSE d)"
    if "input = Some (Recv fr d)" for fr d
  proof -
    have h: "l_src L = None \<longrightarrow> fr = a" "fr = a \<Longrightarrow> d \<in> set (s_out S)" "fr = l_dest L \<Longrightarrow> d \<in> snd ` set acks"
      using hears that by (auto simp: heard_def)
    have "take MAX_PKT_LEN d = d" if "fr = a"
      using transfer_datagrams(1) [OF t h(2) [OF that]] by (simp add: MAX_PKT_LEN_def MIN_PKT_LEN_def)
    moreover have "length d \<le> MIN_PKT_PDATA_LEN" if "fr = l_dest L"
      using transfer_datagrams(2) [OF t h(3) [OF that]] by (simp add: MIN_PKT_PDATA_LEN_def)
    ultimately show ?thesis using h forward_reverse by (auto simp: under_way_def)
  qed
  from turn_relays [OF ok re wb src not_sym [OF dest] this run]
  show ?thesis by blast
qed

lemma relayed_inv:
  assumes "checksum crc"
  shows "relayed crc e chunk a S up L R acks \<Longrightarrow> transfer crc e chunk S R acks \<and> relay_ok (under_way S acks) L \<and>
    (l_src L = None \<or> l_src L = Some a) \<and> l_dest L \<noteq> a \<and> way_back L"
proof (induction rule: relayed.induct)
  case (start hs b hr L)
  then show ?case by (auto intro: transfer.start simp: link_start_def relay_ok_def)
next
  case (sender S up L R acks inp gone S')
  then have i: "transfer crc e chunk S R acks" "relay_ok (under_way S acks) L" "l_src L = None \<or> l_src L = Some a"
    "l_dest L \<noteq> a" "way_back L" by blast+
  have "transfer crc e chunk S' R acks"
    by (rule transfer.sender [OF i(1) sender.hyps(2,3) relayed_ack_delivery [OF i(1-4) sender.hyps(4)] sender.hyps(5)])
  moreover have "relay_ok (under_way S' acks) L"
    using sends_more_set [OF sender_turn_more [OF sender.hyps(5)]] by (intro relay_ok_mono [OF i(2)]) (auto elim: under_way_mono)
  ultimately show ?case using i by blast
next
  case (link S L R acks env input clock up L')
  then have i: "transfer crc e chunk S R acks" "relay_ok (under_way S acks) L" "l_src L = None \<or> l_src L = Some a"
    "l_dest L \<noteq> a" "way_back L" by blast+
  from relayed_turn [OF i link.hyps(2-4)]
  show ?case using i by (auto simp: same_setup_def way_back_def)
next
  case (receiver S up L R acks inp f R')
  then have i: "transfer crc e chunk S R acks" "relay_ok (under_way S acks) L" "l_src L = None \<or> l_src L = Some a"
    "l_dest L \<noteq> a" "way_back L" by blast+
  have "relay_ok (under_way S (acks @ more)) L" for more
    by (rule relay_ok_mono [OF i(2)]) (auto elim: under_way_mono)
  then show ?case
    using i transfer.receiver [OF i(1) receiver.hyps(2,3) relayed_data_delivery [OF assms i(1-4) receiver.hyps(4)] receiver.hyps(5)]
    by blast
qed


section \<open>Properties\<close>



text \<open>A link for the witnesses: no delay, nothing lost, and a clock that stands still. It relays the six
  datagrams of a transfer.\<close>

definition clear_link :: "link \<Rightarrow> bool" where
  "clear_link L \<longleftrightarrow> l_delay L = 0 \<and> l_loss_rate L = 0 \<and> l_cut_rate L = 0 \<and> l_err_rate L = 0 \<and> l_direction L = LINK_FORWARD \<and>
     minq_peek (l_queue L) = Some None"

definition relay_link :: "link \<Rightarrow> sockaddr option \<Rightarrow> (sockaddr option \<times> bytes) list \<Rightarrow> link" where
  "relay_link L src out = L\<lparr>l_src := src, l_sends := length out, l_errno := Sent, l_out := out\<rparr>"

abbreviation sender_addr :: sockaddr where
  "sender_addr \<equiv> ([2], 7)"

lemma relay_link_fields [simp]:
  "l_dest (relay_link L src out) = l_dest L" "l_src (relay_link L src out) = src" "l_out (relay_link L src out) = out"
  by (simp_all add: relay_link_def)

lemma relay_turn:
  assumes "clear_link L"
  shows "proxy_turn demo_env (Some (l_clock L)) (Some i) (relay_link L src out) =
    Option.bind (process_incoming_pkt demo_env i (relay_link L src out)) (\<lambda>(r, st). Some (r = 0, st))"
proof -
  have "deliver_delayed_pkt demo_env (relay_link L src out) = Some (0, relay_link L src out)"
    using assms by (subst deliver_delayed_pkt.simps) (simp add: relay_link_def clear_link_def)
  moreover have "relay_link L src out\<lparr>l_clock := l_clock L\<rparr> = relay_link L src out" by (simp add: relay_link_def)
  ultimately show ?thesis by (simp add: proxy_turn_def)
qed

lemma relay_write:
  "write_out demo_env d dir (relay_link L src out) = (0, relay_link L src (out @ [(way (relay_link L src out) dir, d)]))"
  by (simp add: write_out_def way_def Let_def demo_env_def) (simp add: relay_link_def)

lemma relay_src: "relay_link L None out\<lparr>l_src := Some a\<rparr> = relay_link L (Some a) out"
  by (simp add: relay_link_def)

lemma relay_forward:
  assumes "clear_link L" "10 \<le> length d" "length d \<le> 528" "src = None \<or> src = Some a"
  shows "proxy_turn demo_env (Some (l_clock L)) (Some (Recv a d)) (relay_link L src out) =
    Some (True, relay_link L (Some a) (out @ [(Some (l_dest L), d)]))"
proof -
  have "take MAX_PKT_LEN d = d" "\<not> length d < MIN_PKT_LEN" using assms(2,3) by (simp_all add: MAX_PKT_LEN_def MIN_PKT_LEN_def)
  moreover have "LINK_FORWARD \<noteq> 0" "LINK_FORWARD AND LINK_FORWARD \<noteq> 0" by (simp_all add: LINK_FORWARD_def)
  moreover have "l_delay (relay_link L s o') = 0" "l_loss_rate (relay_link L s o') = 0" "l_cut_rate (relay_link L s o') = 0"
    "l_err_rate (relay_link L s o') = 0" "l_direction (relay_link L s o') = LINK_FORWARD" for s o'
    using assms(1) by (simp_all add: relay_link_def clear_link_def)
  ultimately show ?thesis using assms(4)
    by (auto simp: relay_turn [OF assms(1)] process_incoming_pkt_def relay_src simulate_link_def alter_pkt_def relay_write way_def
        Let_def cong: if_cong)
qed

lemma relay_back:
  assumes "clear_link L" "length d = 10" "l_dest L \<noteq> a"
  shows "proxy_turn demo_env (Some (l_clock L)) (Some (Recv (l_dest L) d)) (relay_link L (Some a) out) =
    Some (True, relay_link L (Some a) (out @ [(Some a, d)]))"
proof -
  have "take MAX_PKT_LEN d = d" "\<not> length d < MIN_PKT_LEN" using assms(2) by (simp_all add: MAX_PKT_LEN_def MIN_PKT_LEN_def)
  moreover have "LINK_REVERSE AND LINK_FORWARD = 0" by (simp add: LINK_FORWARD_def LINK_REVERSE_def)
  moreover have "l_direction (relay_link L s o') = LINK_FORWARD" for s o' using assms(1) by (simp add: relay_link_def clear_link_def)
  ultimately show ?thesis using forward_reverse assms(3)
    by (simp add: relay_turn [OF assms(1)] process_incoming_pkt_def relay_write way_def Let_def)
qed

lemma early_relayed_data:
  assumes "transfer crc e chunk S R acks" "s_nb_sended S \<le> int lifetime" "t_payload_ok inp" "t_read inp = Some d"
    "(Some (l_dest L), d) \<in> set (l_out L)"
  shows "relayed_data crc e chunk S L inp"
proof -
  obtain N n ps where inv: "snd_inv crc e chunk N n ps S"
    using transfer_run_inv [OF assms(1)] unfolding transfer_inv_def by blast
  have "\<exists>k. arrives crc e chunk (nat (s_nb_sended S)) k d \<and> nat (s_nb_sended S) \<le> k + lifetime" if "d \<in> set (s_out S)"
    using sent_arrives [OF snd_inv_facts(8) [OF inv that]] assms(2) snd_inv_facts(2) [OF inv] by auto
  then show ?thesis using assms(3-5) by (simp add: relayed_data_def)
qed

definition relay_out :: "sockaddr \<Rightarrow> nat \<Rightarrow> (sockaddr option \<times> bytes) list" where
  "relay_out dst k = take k [(Some dst, data_wire crc32 Little seg0 sal), (Some sender_addr, ack_wire crc32 Little ack1),
     (Some dst, eof_wire crc32 Little eof1), (Some sender_addr, ack_wire crc32 Little ack1)]"

definition relay_state :: "link \<Rightarrow> nat \<Rightarrow> link" where
  "relay_state L k = relay_link L (if k = 0 then None else Some sender_addr) (relay_out (l_dest L) k)"

definition relay_input :: "link \<Rightarrow> nat \<Rightarrow> recv_result" where
  "relay_input L k = (case relay_out ([], 0) 4 ! k of (to, d) \<Rightarrow> Recv (if to = Some sender_addr then l_dest L else sender_addr) d)"

lemma relay_state_fields [simp]:
  "l_dest (relay_state L k) = l_dest L" "l_src (relay_state L k) = (if k = 0 then None else Some sender_addr)"
  "l_out (relay_state L k) = relay_out (l_dest L) k"
  by (simp_all add: relay_state_def)

lemma relay_inputs:
  "relay_input L 0 = Recv sender_addr (data_wire crc32 Little seg0 sal)" "relay_input L 1 = Recv (l_dest L) (ack_wire crc32 Little ack1)"
  "relay_input L 2 = Recv sender_addr (eof_wire crc32 Little eof1)" "relay_input L 3 = Recv (l_dest L) (ack_wire crc32 Little ack1)"
  by (simp_all add: relay_input_def relay_out_def)

lemmas relay_inputs_Suc = relay_inputs [unfolded numeral_2_eq_2 numeral_3_eq_3 One_nat_def]

lemma relay_steps:
  assumes "clear_link L" "l_dest L \<noteq> sender_addr"
  shows "k < 4 \<Longrightarrow> proxy_turn demo_env (Some (l_clock L)) (Some (relay_input L k)) (relay_state L k) = Some (True, relay_state L (Suc k))"
proof -
  note fw = relay_forward [OF assms(1)] and bk = relay_back [OF assms(1) _ assms(2)]
  assume "k < 4"
  then consider "k = 0" | "k = 1" | "k = 2" | "k = 3" by linarith
  then show ?thesis
    by cases (simp_all add: relay_inputs_Suc relay_state_def fw bk relay_out_def sal_def numeral_eq_Suc)
qed

abbreviation relay_run :: "sender \<Rightarrow> link \<Rightarrow> rcv \<Rightarrow> (nat \<times> bytes) list \<Rightarrow> bool" where
  "relay_run S L R acks \<equiv> relayed crc32 Little (\<lambda>_. sal) sender_addr S True L R acks"

text \<open>What the link hears, and what the programs get of it, is within the conditions.\<close>

lemma relay_heard:
  assumes "l_dest L \<noteq> sender_addr"
  shows "heard sender_addr S1 [] (relay_state L 0) (Some (relay_input L 0))"
    "heard sender_addr S1 (ack_list 1) (relay_state L 1) (Some (relay_input L 1))"
    "heard sender_addr S3 (ack_list 1) (relay_state L 2) (Some (relay_input L 2))"
    "heard sender_addr S3 (ack_list 2) (relay_state L 3) (Some (relay_input L 3))"
  using assms by (auto simp: heard_def relay_inputs_Suc relay_inputs(4) states ack_list_def numeral_2_eq_2)

lemma relay_data:
  "relayed_data crc32 Little (\<lambda>_. sal) S1 (relay_state L 1) (turn_r (data_wire crc32 Little seg0 sal) 1)"
  "relayed_data crc32 Little (\<lambda>_. sal) S3 (relay_state L 3) (turn_r (eof_wire crc32 Little eof1) 2)"
  by (rule early_relayed_data [OF exchange1, where d = "data_wire crc32 Little seg0 sal"]
      early_relayed_data [OF exchange4, where d = "eof_wire crc32 Little eof1"];
    simp add: turn_r_def demo_turn_def relay_out_def states lifetime_def)+

lemma relay_ack:
  "relayed_ack sender_addr (ack_list 1) (relay_state L 2) R1 (turn_s None (Some (ack_wire crc32 Little ack1)) 2)"
  "relayed_ack sender_addr (ack_list 2) (relay_state L 4) R2 (turn_s None (Some (ack_wire crc32 Little ack1)) 3)"
  "relayed_ack sender_addr acks L' R (turn_s f None n)"
  by (simp_all add: relayed_ack_def turn_s_def relay_out_def ack_list_def states lifetime_def)

lemma relay_programs_ok:
  "sender_running demo_sender" "sender_running S1" "sender_running S2" "sender_running S3" "rcv_running (rcv_init empty_heap)" "rcv_running R1"
  "memory_ok (rcv_init empty_heap) (turn_r (data_wire crc32 Little seg0 sal) 1)" "memory_ok R1 (turn_r (eof_wire crc32 Little eof1) 2)"
  "file_ok crc32 (\<lambda>_. sal) demo_sender (turn_s (Some sal) None 1)" "file_ok crc32 (\<lambda>_. sal) S3 (turn_s None d 3)"
  "file_ok crc32 (\<lambda>_. sal) S1 (turn_s None d 2)" "file_ok crc32 (\<lambda>_. sal) S2 (turn_s (Some []) None 2)"
  "map (Pair (nat (r_nb_writed R1))) (drop (length (r_acks (rcv_init empty_heap))) (r_acks R1)) = ack_list 1"
  "ack_list 1 @ map (Pair (nat (r_nb_writed R2))) (drop (length (r_acks R1)) (r_acks R2)) = ack_list 2"
  using crc32_sal by (simp_all add: sender_running_def rcv_running_def memory_ok_def full_writes_def turn_r_def demo_turn_def
      file_ok_def turn_s_def states sal_def ack_list_def numeral_2_eq_2)

lemma relay_run_link:
  assumes "relay_run S (relay_state L k) R acks" "heard sender_addr S acks (relay_state L k) (Some (relay_input L k))"
    "clear_link L" "l_dest L \<noteq> sender_addr" "k < 4"
  shows "relay_run S (relay_state L (Suc k)) R acks"
  by (rule relayed.link [OF assms(1) demo_env_ok(1) assms(2) relay_steps [OF assms(3-5)]])

lemma relay_run_all:
  assumes "link_start sender_addr (relay_state L 0)" "clear_link L" "l_dest L \<noteq> sender_addr"
  shows "relay_run S4 (relay_state L 4) R2 (ack_list 2)"
proof -
  note turn = relay_run_link [OF _ _ assms(2,3)] and hears = relay_heard [OF assms(3)] and ok = relay_programs_ok
  have "relay_run demo_sender (relay_state L 0) (rcv_init empty_heap) []"
    by (rule relayed.start [OF _ _ _ assms(1)]) (simp_all add: new_heap_def empty_heap_def Sender.ACK_SIZE_def)
  from turn [OF relayed.sender [OF this ok(1,9) relay_ack(3) step1] hears(1)]
  have "relay_run S1 (relay_state L 1) (rcv_init empty_heap) []" by simp
  from relayed.receiver [OF this ok(5,7) relay_data(1) step2] have "relay_run S1 (relay_state L 1) R1 (ack_list 1)" by (simp add: ok(13))
  from turn [OF this hears(2)] have "relay_run S1 (relay_state L 2) R1 (ack_list 1)" by (simp add: numeral_2_eq_2)
  from relayed.sender [OF relayed.sender [OF this ok(2,11) relay_ack(1) step3] ok(3,12) relay_ack(3) step4]
  have "relay_run S3 (relay_state L 2) R1 (ack_list 1)" .
  from turn [OF this hears(3)] have "relay_run S3 (relay_state L 3) R1 (ack_list 1)" by (simp add: numeral_3_eq_3 numeral_2_eq_2)
  from relayed.receiver [OF this ok(6,8) relay_data(2) step5] have "relay_run S3 (relay_state L 3) R2 (ack_list 2)"
    by (simp only: ok(14))
  from turn [OF this hears(4)] have "relay_run S3 (relay_state L 4) R2 (ack_list 2)" by (simp add: numeral_eq_Suc)
  from relayed.sender [OF this ok(4,10) relay_ack(2) step6] show ?thesis .
qed

definition demo_relay :: link where
  "demo_relay = demo_link\<lparr>l_delay := 0, l_queue := Some \<lparr>mq_cmp = pkt_slot_cmp, mq_size = 0, mq_alloc = 0, mq_e = []\<rparr>\<rparr>"

lemma demo_relay_run: "relay_run S4 (relay_state demo_relay 4) R2 (ack_list 2)"
proof (rule relay_run_all)
  show "link_start sender_addr (relay_state demo_relay 0)"
    by (simp add: link_start_def relay_state_def relay_link_def demo_relay_def demo_link_def mq_inv_def mq_items_def heap_ok_def
        delays_ok_def way_back_def LINK_FORWARD_def LINK_REVERSE_def relay_out_def)
  show "clear_link demo_relay" "l_dest demo_relay \<noteq> sender_addr"
    by (simp_all add: clear_link_def demo_relay_def demo_link_def minq_peek_def minq_empty_def)
qed



end
