(* ===== verification/Link_Main.thy ===== *)
theory Link_Main
  imports Link_Sim Sockets
begin

text \<open>
  The program around the lossy link of \<open>Link_Sim\<close>: the options of \<open>src/link_simulator/link_sim.c\<close>,
  its socket and its loop over what \<open>select\<close> and the calls of a turn return. The options are
  what \<open>getopt\<close> returns; the standard error holds the format strings of what \<open>main\<close> and the
  functions here print.
\<close>

section \<open>Options\<close>

definition LINK_BOTH_WAYS :: u32 where "LINK_BOTH_WAYS = LINK_FORWARD OR LINK_REVERSE"

definition get_link_direction :: "u32 \<Rightarrow> string" where
  "get_link_direction x =
     (if x = LINK_FORWARD then ''Forward''
      else if x = LINK_REVERSE then ''Reverse''
      else if x = LINK_BOTH_WAYS then ''Both ways''
      else ''Unknown'')"

record link_args =
  la_forward_port :: int
  la_port :: int
  la_delay :: u32
  la_jitter :: u32
  la_err_rate :: u32
  la_cut_rate :: u32
  la_loss_rate :: u32
  la_direction :: u32
  la_seed :: int

definition link_defaults :: link_args where
  "link_defaults = \<lparr>la_forward_port = 12345, la_port = 1341, la_delay = 0, la_jitter = 0, la_err_rate = 0,
     la_cut_rate = 0, la_loss_rate = 0, la_direction = LINK_FORWARD, la_seed = -1\<rparr>"

definition parse_number :: "string \<Rightarrow> os \<Rightarrow> int \<times> os" where
  "parse_number val os = (case strtol 0 val of (parsed, c) \<Rightarrow>
     (parsed, if c \<noteq> [] then print_err ''!! Parsed %s as %ld'' os else os))"

text \<open>The remainder of C: it has the sign of the dividend.\<close>

definition c_rem :: "int \<Rightarrow> int \<Rightarrow> int" where
  "c_rem a b = (if a < 0 then - (- a mod b) else a mod b)"

text \<open>One option; \<open>None\<close> when the usage is printed and the program ends.\<close>

definition link_option :: "char \<Rightarrow> string \<Rightarrow> link_args \<Rightarrow> os \<Rightarrow> (link_args \<times> os) option" where
  "link_option opt optarg la os =
     (case parse_number optarg os of (n, os') \<Rightarrow>
        if opt = CHR ''p'' then Some (la\<lparr>la_port := n AND 65535\<rparr>, os')
        else if opt = CHR ''P'' then Some (la\<lparr>la_forward_port := n AND 65535\<rparr>, os')
        else if opt = CHR ''d'' then Some (la\<lparr>la_delay := word_of_int n\<rparr>, os')
        else if opt = CHR ''j'' then Some (la\<lparr>la_jitter := word_of_int n\<rparr>, os')
        else if opt = CHR ''e'' then Some (la\<lparr>la_err_rate := word_of_int (c_rem n 101)\<rparr>, os')
        else if opt = CHR ''c'' then Some (la\<lparr>la_cut_rate := word_of_int (c_rem n 101)\<rparr>, os')
        else if opt = CHR ''l'' then Some (la\<lparr>la_loss_rate := word_of_int (c_rem n 101)\<rparr>, os')
        else if opt = CHR ''s'' then Some (la\<lparr>la_seed := n\<rparr>, os')
        else if opt = CHR ''r'' then Some (la\<lparr>la_direction := LINK_REVERSE\<rparr>, os)
        else if opt = CHR ''R'' then Some (la\<lparr>la_direction := LINK_BOTH_WAYS\<rparr>, os)
        else None)"

fun link_options :: "(char \<times> string) list \<Rightarrow> link_args \<Rightarrow> os \<Rightarrow> link_args option \<times> os" where
  "link_options [] la os = (Some la, os)"
| "link_options ((opt, optarg) # opts) la os = (case link_option opt optarg la os of
       None \<Rightarrow> (None, os)
     | Some (la, os) \<Rightarrow> link_options opts la os)"

section \<open>The socket\<close>

definition fail_socket :: "int \<Rightarrow> string \<Rightarrow> os \<Rightarrow> os" where
  "fail_socket sfd err_str os = print_err err_str (snd (sys_close sfd os))"

definition sys_fcntl :: "kernel \<Rightarrow> int \<Rightarrow> os \<Rightarrow> int \<times> os" where
  "sys_fcntl k fd os = (case socket_of os fd of
       Some s \<Rightarrow> if k_fcntl k then (0, set_fd fd (Some (Sock (s\<lparr>sk_opts := insert Nonblock (sk_opts s)\<rparr>))) os) else (-1, os)
     | None \<Rightarrow> (-1, os))"

text \<open>\<open>in6addr_loopback\<close> and \<open>::\<close>; \<open>AF_INET6\<close> is 10.\<close>

definition loopback :: bytes where
  "loopback = replicate 15 0 @ [1]"

definition any_addr :: "endian \<Rightarrow> int \<Rightarrow> sockaddr_in6" where
  "any_addr e port = \<lparr>sin6_family = 10, sin6_port = htons e (word_of_int port), sin6_flowinfo = 0,
     sin6_addr = replicate 16 0, sin6_scope_id = 0\<rparr>"

text \<open>The descriptor, the global \<open>dest_addr\<close> and the system; the global \<open>sfd\<close> is the descriptor.\<close>

definition get_socket :: "endian \<Rightarrow> kernel \<Rightarrow> link_args \<Rightarrow> sockaddr \<Rightarrow> os \<Rightarrow> int \<times> sockaddr \<times> os" where
  "get_socket e k la dest_addr os =
     (case sys_socket k os of (sfd, os) \<Rightarrow>
      if sfd < 0 then (-1, dest_addr, print_err ''Cannot create socket'' os)
      else (case sys_setsockopt k sfd Reuseaddr os of (r, os) \<Rightarrow>
      if r \<noteq> 0 then (-1, dest_addr, fail_socket sfd ''Couldn't enable the re-use of the address ...'' os)
      else (case sys_setsockopt k sfd V6only os of (r, os) \<Rightarrow>
      if r \<noteq> 0 then (-1, dest_addr, fail_socket sfd ''Cannot force the socket to IPv6'' os)
      else (case sys_bind k sfd (any_addr e (la_port la)) os of (r, os) \<Rightarrow>
      if r < 0 then (-1, dest_addr, fail_socket sfd ''Cannot bind socket'' os)
      else
        let dest_addr = (loopback, htons e (word_of_int (la_forward_port la))) in
        (case sys_fcntl k sfd os of (r, os) \<Rightarrow>
           if r < 0 then (-1, dest_addr, fail_socket sfd ''Cannot set the socket to non-blocking mode'' os)
           else (sfd, dest_addr, os))))))"

section \<open>The loop and the program\<close>

text \<open>\<open>None\<close> when the clock cannot be read.\<close>

definition update_time :: "(int \<times> int) option \<Rightarrow> timeval option" where
  "update_time ts = map_option (\<lambda>(sec, nsec). Timeval sec (nsec div 1000)) ts"

text \<open>What \<open>select\<close> returns, and in a turn what \<open>Link_Sim\<close> takes from the environment.\<close>

datatype link_event =
    Interrupted
  | Select_failed
  | Ready env "(int \<times> int) option" "recv_result option"

text \<open>The result of the loop, \<open>None\<close> while it runs, and the state.\<close>

primrec proxy_turns :: "link_event list \<Rightarrow> link \<Rightarrow> (int option \<times> link) option" where
  "proxy_turns [] st = do { _ \<leftarrow> get_queue_timeout st; Some (None, st) }"
| "proxy_turns (ev # evs) st = do {
     _ \<leftarrow> get_queue_timeout st;
     (case ev of
        Interrupted \<Rightarrow> proxy_turns evs st
      | Select_failed \<Rightarrow> Some (Some 1, st)
      | Ready env clock input \<Rightarrow> do {
          (go, st) \<leftarrow> proxy_turn env (update_time clock) input st;
          if go then proxy_turns evs st else Some (Some 1, st)
        })
   }"

definition proxy_loop :: "(int \<times> int) option \<Rightarrow> link_event list \<Rightarrow> link \<Rightarrow> (int option \<times> link) option" where
  "proxy_loop clock evs st = (case update_time clock of None \<Rightarrow> Some (Some 1, st)
     | Some now \<Rightarrow> proxy_turns evs (st\<lparr>l_clock := now\<rparr>))"

text \<open>
  What a run is given: the blocks \<open>minq_new\<close> allocates, the seconds of \<open>time\<close>, the clock before
  the loop and the events, which depend on the seed of \<open>rand\<close>.
\<close>

record link_input =
  li_queue_ok :: bool
  li_slots :: "pkt_slot list option"
  li_time :: int
  li_clock :: "(int \<times> int) option"
  li_events :: "int \<Rightarrow> link_event list"

definition link_init :: "link_args \<Rightarrow> link" where
  "link_init la = \<lparr>l_delay = la_delay la, l_jitter = la_jitter la, l_err_rate = la_err_rate la,
     l_cut_rate = la_cut_rate la, l_loss_rate = la_loss_rate la, l_direction = la_direction la,
     l_queue = None, l_clock = Timeval 0 0, l_dest = (replicate 16 0, 0), l_src = None, l_rands = 0, l_sends = 0,
     l_errno = Sent, l_out = []\<rparr>"

definition proxy_traffic :: "endian \<Rightarrow> kernel \<Rightarrow> link_input \<Rightarrow> int \<Rightarrow> link_args \<Rightarrow> os \<Rightarrow> (int option \<times> link \<times> os) option" where
  "proxy_traffic e k w seed la os =
     (let st = link_init la in
      case get_socket e k la (l_dest st) os of (sfd, dest_addr, os) \<Rightarrow>
        if sfd < 0 then Some (Some 1, st\<lparr>l_dest := dest_addr\<rparr>, print_err ''Socket initialization failure!'' os)
        else let st = st\<lparr>l_dest := dest_addr\<rparr> in
          (case minq_new (Some pkt_slot_cmp) (li_queue_ok w) (li_slots w) of
             None \<Rightarrow> Some (Some 1, st, snd (sys_close sfd (print_err ''Cannot create priority queue!'' os)))
           | Some q \<Rightarrow> do {
               (rval, st) \<leftarrow> proxy_loop (li_clock w) (li_events w seed) (st\<lparr>l_queue := Some q\<rparr>);
               (case rval of None \<Rightarrow> Some (None, st, os)
                | Some rval \<Rightarrow>
                    let os = (if rval \<noteq> 0 then print_err ''The proxy loop crashed, had %zu element(s) left in pkt_queue'' os else os);
                        st = st\<lparr>l_queue := None\<rparr> in
                    Some (Some rval, st, snd (sys_close sfd os)))
             }))"

text \<open>Any positional argument is ignored, with a message.\<close>

definition link_main :: "endian \<Rightarrow> kernel \<Rightarrow> (char \<times> string) list \<Rightarrow> string list \<Rightarrow> link_input \<Rightarrow> os \<Rightarrow> (int option \<times> link \<times> os) option" where
  "link_main e k opts args w os =
     (case link_options opts link_defaults os of
        (None, os) \<Rightarrow> Some (Some 1, link_init link_defaults, print_err ''Link sim: A simple lossy link simulator.'' os)
      | (Some la, os) \<Rightarrow>
          let os = (if args \<noteq> [] then print_err ''!! Ignoring positional arguments: '' os else os);
              (seed, os) = (if la_seed la = -1 then (sint (word_of_int (li_time w) :: u32), print_err ''@@ Using random seed: %d'' os)
                            else (la_seed la, os));
              os = print_err ''@@ Using parameters:'' os in
          proxy_traffic e k w (sint (word_of_int seed :: u32)) la os)"

section \<open>Rates\<close>

lemma c_rem_bounds: "0 \<le> n \<Longrightarrow> 0 \<le> c_rem n 101 \<and> c_rem n 101 \<le> 100"
  "n < 0 \<Longrightarrow> - 100 \<le> c_rem n 101 \<and> c_rem n 101 \<le> 0" "n < 0 \<Longrightarrow> c_rem n 101 = 0 \<longleftrightarrow> 101 dvd n"
  by (auto simp: c_rem_def)

lemma negative_rate:
  assumes "- 100 \<le> r" "r < 0"
  shows "of_nat (k mod 101) < (word_of_int r :: u32)" "(word_of_int r :: u32) \<noteq> 0"
proof -
  have u: "uint (word_of_int r :: u32) = r + 2 ^ 32"
  proof -
    have "r mod 2 ^ 32 = (r + 2 ^ 32) mod 2 ^ 32" by simp
    also have "\<dots> = r + 2 ^ 32" using assms by (intro mod_pos_pos_trivial) simp_all
    finally show ?thesis by (simp add: uint_word_of_int)
  qed
  have k: "k mod 101 < 101" by simp
  then have "uint (of_nat (k mod 101) :: u32) = int (k mod 101)" by (simp add: uint_nat unat_of_nat)
  then show "of_nat (k mod 101) < (word_of_int r :: u32)" using u k assms by (simp add: word_less_def)
  show "(word_of_int r :: u32) \<noteq> 0" using u assms by auto
qed

text \<open>C34. The option \<open>-l n\<close>: a number from 0 on gives the rate \<open>n\<close> modulo 101, so that 101 means no loss
  at all; a negative one that 101 does not divide becomes an unsigned number near \<open>2 ^ 32\<close>, and
  every packet in a simulated direction is dropped.\<close>

theorem loss_rate_option:
  assumes "LONG_MIN \<le> n" "n \<le> LONG_MAX"
  shows "\<exists>la. link_options [(CHR ''l'', show_d n)] link_defaults os = (Some la, os) \<and>
    (0 \<le> n \<longrightarrow> unat (la_loss_rate la) = nat (n mod 101)) \<and>
    (n < 0 \<and> \<not> 101 dvd n \<longrightarrow> (\<forall>env buf d st. l_loss_rate st = la_loss_rate la \<longrightarrow>
       (\<exists>st'. simulate_link env buf d st = Some (0, st') \<and> l_out st' = l_out st \<and> l_queue st' = l_queue st)))"
proof -
  let ?r = "word_of_int (c_rem n 101) :: u32"
  have p: "link_options [(CHR ''l'', show_d n)] link_defaults os = (Some (link_defaults\<lparr>la_loss_rate := ?r\<rparr>), os)"
    by (simp add: link_option_def parse_number_def strtol_0_show_d [OF assms])
  have "unat ?r = nat (n mod 101)" if "0 \<le> n"
  proof -
    have "uint ?r = n mod 101" using c_rem_bounds(1) [OF that] that by (simp add: uint_word_of_int c_rem_def)
    then show ?thesis by (simp only: unat_eq_nat_uint)
  qed
  moreover have "\<exists>st'. simulate_link env buf d st = Some (0, st') \<and> l_out st' = l_out st \<and> l_queue st' = l_queue st"
    if "n < 0" "\<not> 101 dvd n" "l_loss_rate st = ?r" for env buf d st
  proof -
    have r: "- 100 \<le> c_rem n 101" "c_rem n 101 < 0" using c_rem_bounds(2,3) [OF that(1)] that(2) by auto
    obtain k where "chance env ?r st = (True, st\<lparr>l_rands := k\<rparr>)"
      using negative_rate [OF r] by (simp add: chance_def draw_def)
    then show ?thesis using that(3) by (simp add: simulate_link_def)
  qed
  ultimately show ?thesis using p by auto
qed

theorem loss_rate_option_witness:
  "\<exists>la. link_options [(CHR ''l'', show_d (-1))] link_defaults demo_os = (Some la, demo_os) \<and>
     (\<exists>st'. simulate_link demo_env (replicate 20 1) LINK_FORWARD (demo_link\<lparr>l_loss_rate := la_loss_rate la\<rparr>) = Some (0, st') \<and> l_out st' = [])"
proof -
  have "LONG_MIN \<le> -1" "-1 \<le> LONG_MAX" by (simp_all add: LONG_MIN_def LONG_MAX_def)
  from loss_rate_option [OF this, of demo_os] obtain la where
    p: "link_options [(CHR ''l'', show_d (-1))] link_defaults demo_os = (Some la, demo_os)"
    and q: "(-1 :: int) < 0 \<and> \<not> 101 dvd (-1 :: int) \<longrightarrow> (\<forall>env buf d st. l_loss_rate st = la_loss_rate la \<longrightarrow>
       (\<exists>st'. simulate_link env buf d st = Some (0, st') \<and> l_out st' = l_out st \<and> l_queue st' = l_queue st))" by blast
  let ?l = "demo_link\<lparr>l_loss_rate := la_loss_rate la\<rparr>"
  have "\<exists>st'. simulate_link demo_env (replicate 20 1) LINK_FORWARD ?l = Some (0, st') \<and> l_out st' = l_out ?l \<and> l_queue st' = l_queue ?l"
    by (rule q [THEN mp, rule_format]) simp_all
  then show ?thesis using p by (auto simp: demo_link_def)
qed

section \<open>What is released\<close>

lemma sys_setsockopt_cases:
  assumes "socket_of os fd = Some s"
  obtains s' where "sys_setsockopt k fd p os = (0, set_fd fd (Some (Sock s')) os)" | "sys_setsockopt k fd p os = (-1, os)"
  using assms by (cases "k_setsockopt k p") (auto simp: sys_setsockopt_def)

text \<open>Every failure after \<open>socket\<close> closes the descriptor.\<close>

lemma get_socket_cases:
  assumes "fresh_socket k os" "get_socket e k la dst os = (r, dst', os')"
  shows "os_files os' = os_files os \<and>
    (r = -1 \<and> os_fds os' = os_fds os \<or> 0 \<le> r \<and> os_fds os r = None \<and> (\<exists>s. os_fds os' = (os_fds os)(r \<mapsto> Sock s)))"
proof (cases "k_socket k = -1")
  case True
  then show ?thesis using assms(2) by (auto simp: get_socket_def sys_socket_def)
next
  case False
  define fd where "fd = k_socket k"
  have fd: "0 \<le> fd" "os_fds os fd = None" using assms(1) False by (auto simp: fresh_socket_def fd_def)
  have closed: "(os_fds os)(fd := None) = os_fds os" using fd(2) by auto
  note run = assms(2) [unfolded get_socket_def sys_socket_def, folded fd_def]
  show ?thesis using run fd False unfolding fd_def [symmetric]
    by (auto simp: sys_setsockopt_def sys_bind_def sys_fcntl_def fail_socket_def sys_close_def closed Let_def split: if_splits)
qed

text \<open>C33. When \<open>proxy_traffic\<close> ends, which is only on an error, it returns \<open>EXIT_FAILURE\<close> and has closed
  the socket, whatever failed: the descriptors are those from before, and the queue is gone.\<close>

theorem proxy_traffic_releases:
  assumes "fresh_socket k os" "proxy_traffic e k w seed la os = Some (Some r, st, os')"
  shows "r = 1 \<and> os_fds os' = os_fds os \<and> os_files os' = os_files os \<and> l_queue st = None"
proof -
  have ends: "proxy_turns evs l = Some (Some x, l') \<Longrightarrow> x = 1" for evs l x l'
    by (induction evs arbitrary: l) (auto simp: bind_eq_Some_conv split: link_event.splits if_splits)
  then have one: "proxy_loop c evs l = Some (Some x, l') \<Longrightarrow> x = 1" for c evs l x l'
    by (auto simp: proxy_loop_def split: option.splits)
  obtain fd dst os1 where g: "get_socket e k la (l_dest (link_init la)) os = (fd, dst, os1)"
    by (cases "get_socket e k la (l_dest (link_init la)) os")
  note c = get_socket_cases [OF assms(1) g]
  show ?thesis
  proof (cases "fd < 0 \<or> minq_new (Some pkt_slot_cmp) (li_queue_ok w) (li_slots w) = None")
    case True
    have q: "l_queue (link_init la) = None" by (simp add: link_init_def)
    have "(os_fds os)(fd := None) = os_fds os" if "os_fds os fd = None" using that by auto
    then show ?thesis using assms(2) c True q by (auto simp: proxy_traffic_def g sys_close_def Let_def split: if_splits)
  next
    case False
    then obtain q where q: "\<not> fd < 0" "minq_new (Some pkt_slot_cmp) (li_queue_ok w) (li_slots w) = Some q" by auto
    obtain s where s: "os_fds os fd = None" "os_fds os1 = (os_fds os)(fd \<mapsto> Sock s)" "os_files os1 = os_files os" using c q(1) by auto
    let ?l = "(link_init la)\<lparr>l_dest := dst, l_queue := Some q\<rparr>"
    obtain x l' where l: "proxy_loop (li_clock w) (li_events w seed) ?l = Some (x, l')"
      using assms(2) q by (cases "proxy_loop (li_clock w) (li_events w seed) ?l") (auto simp: proxy_traffic_def g Let_def)
    have "x \<noteq> None" using assms(2) q l by (cases x) (auto simp: proxy_traffic_def g Let_def)
    then have x: "x = Some 1" using one l by auto
    have "(os_fds os)(fd := None) = os_fds os" using s(1) by auto
    then show ?thesis using assms(2) q l x s by (auto simp: proxy_traffic_def g Let_def sys_close_def)
  qed
qed

text \<open>The allocations of the events give the blocks asked for, or fail.\<close>

definition event_ok :: "link_event \<Rightarrow> bool" where
  "event_ok ev = (case ev of Ready env _ _ \<Rightarrow> realloc_ok (e_realloc env) | _ \<Rightarrow> True)"

lemma queue_timeout_defined: "mq_inv pkt_slot_cmp (l_queue st) \<Longrightarrow> get_queue_timeout st \<noteq> None"
  using slots.queue.peek_least [of "l_queue st"] slots.queue.peek_empty [of "l_queue st"] mq_items_size [of pkt_slot_cmp "l_queue st"]
  by (fastforce simp: get_queue_timeout_def minq_empty_def minq_size_def Let_def split: option.splits)

lemma proxy_turns_defined:
  "mq_inv pkt_slot_cmp (l_queue st) \<Longrightarrow> delays_ok st \<Longrightarrow> (\<And>ev. ev \<in> set evs \<Longrightarrow> event_ok ev) \<Longrightarrow>
   \<exists>r st'. proxy_turns evs st = Some (r, st') \<and> mq_inv pkt_slot_cmp (l_queue st')"
proof (induction evs arbitrary: st)
  case Nil
  then show ?case using queue_timeout_defined [OF Nil(1)] by auto
next
  case (Cons ev evs)
  obtain t where t: "get_queue_timeout st = Some t" using queue_timeout_defined [OF Cons.prems(1)] by auto
  have rest: "\<exists>r st''. proxy_turns evs st' = Some (r, st'') \<and> mq_inv pkt_slot_cmp (l_queue st'')"
    if "mq_inv pkt_slot_cmp (l_queue st')" "delays_ok st'" for st'
    by (rule Cons.IH [OF that]) (simp add: Cons.prems(3))
  show ?case
  proof (cases ev)
    case (Ready env clock input)
    have "realloc_ok (e_realloc env)" using Cons.prems(3) [of ev] by (simp add: event_ok_def Ready)
    from proxy_turn_keeps [OF Cons.prems(1) this Cons.prems(2)] obtain go st' where
      p: "proxy_turn env (update_time clock) input st = Some (go, st')" "mq_inv pkt_slot_cmp (l_queue st')" "delays_ok st'" by blast
    then show ?thesis using rest [OF p(2,3)] t Ready by (cases go) auto
  qed (use t rest [OF Cons.prems(1,2)] Cons.prems(1) in auto)
qed


definition demo_link_input :: link_input where
  "demo_link_input = \<lparr>li_queue_ok = True, li_slots = Some (replicate 20 (demo_slot 0 0)), li_time = 7, li_clock = Some (1, 0),
     li_events = (\<lambda>_. [Ready demo_env (Some (1, 5000)) (Some (Recv ([2], 7) (replicate 12 5))), Interrupted])\<rparr>"


text \<open>The socket of the witness: \<open>bind\<close> fails, and the descriptor is closed.\<close>

theorem proxy_traffic_releases_witness:
  "\<exists>st os'. proxy_traffic Little (demo_kernel\<lparr>k_bind := False\<rparr>) demo_link_input 7 link_defaults demo_os = Some (Some 1, st, os') \<and>
     os_fds os' = os_fds demo_os \<and> os_err os' \<noteq> []"
proof -
  let ?k = "demo_kernel\<lparr>k_bind := False\<rparr>"
  have g: "get_socket Little ?k link_defaults d demo_os = (-1, d, fail_socket 3 ''Cannot bind socket''
      (set_fd 3 (Some (Sock (new_socket\<lparr>sk_opts := {V6only, Reuseaddr}\<rparr>))) demo_os))" for d
    by (simp add: get_socket_def sys_socket_def sys_setsockopt_def sys_bind_def new_socket_def demo_kernel_def)
  obtain st os' where p: "proxy_traffic Little ?k demo_link_input 7 link_defaults demo_os = Some (Some 1, st, os')" "os_err os' \<noteq> []"
    by (simp add: proxy_traffic_def g)
  have "fresh_socket ?k demo_os" by (simp add: fresh_socket_def)
  from proxy_traffic_releases [OF this p(1)] p show ?thesis by blast
qed

end
