(* ===== verification/Relay_Program.thy ===== *)
theory Relay_Program
  imports Relay Program_Run Link_Main
begin

text \<open>
  The three programs from their arguments on: \<open>main\<close> of the link simulator stands between \<open>main\<close> of the
  sender and \<open>main\<close> of the receiver. A schedule interleaves the turns of the three loops.
\<close>

section \<open>Schedules\<close>

definition link_turns :: "(link_event + (sturn + rturn)) list \<Rightarrow> link_event list" where
  "link_turns evs = map projl (filter isl evs)"

definition program_turns :: "(link_event + (sturn + rturn)) list \<Rightarrow> (sturn + rturn) list" where
  "program_turns evs = map projr (filter (\<lambda>x. \<not> isl x) evs)"

lemma event_turns_simps [simp]:
  "link_turns [] = []" "link_turns (Inl ev # evs) = ev # link_turns evs" "link_turns (Inr p # evs) = link_turns evs"
  "program_turns [] = []" "program_turns (Inl ev # evs) = program_turns evs" "program_turns (Inr p # evs) = p # program_turns evs"
  by (simp_all add: link_turns_def program_turns_def)

text \<open>As \<open>schedule\<close>, with what \<open>Relay\<close> asks of the datagrams; \<open>gl\<close>: the link simulator has stopped.\<close>

fun relay_schedule :: "(bytes \<Rightarrow> u32) \<Rightarrow> endian \<Rightarrow> (nat \<Rightarrow> bytes) \<Rightarrow> sockaddr \<Rightarrow> bool \<Rightarrow> bool \<Rightarrow> bool \<Rightarrow>
    (link_event + (sturn + rturn)) list \<Rightarrow> sender \<Rightarrow> link \<Rightarrow> rcv \<Rightarrow> (nat \<times> bytes) list \<Rightarrow> bool" where
  "relay_schedule crc e chunk a gs gl gr [] S L R acks \<longleftrightarrow> True"
| "relay_schedule crc e chunk a gs gl gr (Inl ev # evs) S L R acks \<longleftrightarrow> \<not> gl \<and>
     (case ev of
        Interrupted \<Rightarrow> relay_schedule crc e chunk a gs False gr evs S L R acks
      | Select_failed \<Rightarrow> relay_schedule crc e chunk a gs True gr evs S L R acks
      | Ready env clock input \<Rightarrow> realloc_ok (e_realloc env) \<and> heard a S acks L input \<and>
          (case proxy_turn env (update_time clock) input L of None \<Rightarrow> False
           | Some (go, L') \<Rightarrow> relay_schedule crc e chunk a gs (\<not> go) gr evs S L' R acks))"
| "relay_schedule crc e chunk a gs gl gr (Inr (Inl inp) # evs) S L R acks \<longleftrightarrow>
     \<not> gs \<and> sender_running S \<and> file_ok crc chunk S inp \<and> relayed_ack a acks L R inp \<and>
     (case sender_turn crc e inp S of None \<Rightarrow> False
      | Some (gone, S') \<Rightarrow> relay_schedule crc e chunk a gone gl gr evs S' L R acks)"
| "relay_schedule crc e chunk a gs gl gr (Inr (Inr inp) # evs) S L R acks \<longleftrightarrow>
     \<not> gr \<and> rcv_running R \<and> memory_ok R inp \<and> relayed_data crc e chunk S L inp \<and>
     (case rcv_turn crc e lenient inp R of None \<Rightarrow> False
      | Some (f, R') \<Rightarrow> relay_schedule crc e chunk a gs gl (f = Return) evs S L R'
          (acks @ map (Pair (nat (r_nb_writed R'))) (drop (length (r_acks R)) (r_acks R'))))"

text \<open>
  What is left of a schedule without the turns of the link is a schedule of the two programs; and
  the loop of the link over the events of the schedule leaves a state of a run of the three.
\<close>

lemma relayed_deliveries:
  assumes "checksum crc" "relayed crc e chunk a S up L R acks"
  shows "relayed_data crc e chunk S L inp \<Longrightarrow> data_delivery crc e chunk S inp"
    "relayed_ack a acks L R inp' \<Longrightarrow> ack_delivery crc e acks R inp'"
  using relayed_inv [OF assms] relayed_data_delivery [OF assms(1)] relayed_ack_delivery by blast+

lemma relay_schedule_runs:
  assumes "checksum crc"
  shows "relayed crc e chunk a S up L R acks \<Longrightarrow> gl \<or> up \<Longrightarrow> relay_schedule crc e chunk a gs gl gr evs S L R acks \<Longrightarrow>
    schedule crc e chunk gs gr (program_turns evs) S R acks \<and>
    (\<forall>r Lf. (if gl then Lf = L else proxy_turns (link_turns evs) L = Some (r, Lf)) \<longrightarrow>
      l_dest L = l_dest Lf \<and> (\<exists>S' up' R' acks'. relayed crc e chunk a S' up' Lf R' acks'))"
proof (induction evs arbitrary: up S L R acks gs gl gr)
  case Nil
  then show ?case by (auto simp: bind_eq_Some_conv)
next
  case (Cons ev evs)
  note run = Cons.prems(1) and deliver = relayed_deliveries [OF assms Cons.prems(1)]
  consider (link) l where "ev = Inl l" | (sender) i where "ev = Inr (Inl i)" | (receiver) j where "ev = Inr (Inr j)"
    by (metis sum.exhaust)
  then show ?case
  proof cases
    case link
    show ?thesis
    proof (cases l)
      case (Ready env clock input)
      then obtain go L' where t: "realloc_ok (e_realloc env)" "heard a S acks L input" "up" "proxy_turn env (update_time clock) input L = Some (go, L')"
        "relay_schedule crc e chunk a gs (\<not> go) gr evs S L' R acks" "\<not> gl"
        using Cons.prems(2,3) by (auto simp: link split: option.splits)
      have "relayed crc e chunk a S go L' R acks" using relayed.link [OF _ t(1,2,4)] run t(3) by simp
      from Cons.IH [OF this _ t(5)] have ih: "schedule crc e chunk gs gr (program_turns evs) S R acks"
        "\<And>r Lf. (if \<not> go then Lf = L' else proxy_turns (link_turns evs) L' = Some (r, Lf)) \<Longrightarrow>
          l_dest L' = l_dest Lf \<and> (\<exists>S' up' R' acks'. relayed crc e chunk a S' up' Lf R' acks')" by blast+
      have dest: "l_dest L' = l_dest L"
        using relayed_inv [OF assms run] relayed_turn [OF _ _ _ _ _ t(1,2,4)] by (auto simp: same_setup_def)
      have "l_dest L = l_dest Lf \<and> (\<exists>S' up' R' acks'. relayed crc e chunk a S' up' Lf R' acks')"
        if "proxy_turns (link_turns (ev # evs)) L = Some (r, Lf)" for r Lf
      proof -
        have "if \<not> go then Lf = L' else proxy_turns (link_turns evs) L' = Some (r, Lf)"
          using that t(4) by (auto simp: link Ready bind_eq_Some_conv split: if_splits)
        from ih(2) [OF this] show ?thesis by (simp add: dest)
      qed
      moreover have "program_turns (ev # evs) = program_turns evs" by (simp add: link)
      ultimately show ?thesis unfolding if_not_P [OF t(6)] using ih(1) by simp
    qed (use Cons.IH [OF run] run Cons.prems(2,3) in \<open>auto simp: link bind_eq_Some_conv\<close>)
  next
    case sender
    then obtain gone S' where t: "sender_running S" "file_ok crc chunk S i" "relayed_ack a acks L R i" "\<not> gs"
      "sender_turn crc e i S = Some (gone, S')" "relay_schedule crc e chunk a gone gl gr evs S' L R acks"
      using Cons.prems(3) by (auto split: option.splits)
    note ih = Cons.IH [OF relayed.sender [OF run t(1-3,5)] Cons.prems(2) t(6)]
    have "schedule crc e chunk gs gr (program_turns (ev # evs)) S R acks" using t deliver(2) [OF t(3)] conjunct1 [OF ih] by (simp add: sender)
    moreover have "link_turns (ev # evs) = link_turns evs" by (simp add: sender)
    ultimately show ?thesis using conjunct2 [OF ih] by (simp only: simp_thms)
  next
    case receiver
    then obtain f R' where t: "rcv_running R" "memory_ok R j" "relayed_data crc e chunk S L j" "\<not> gr"
      "rcv_turn crc e lenient j R = Some (f, R')" "relay_schedule crc e chunk a gs gl (f = Return) evs S L R'
          (acks @ map (Pair (nat (r_nb_writed R'))) (drop (length (r_acks R)) (r_acks R')))"
      using Cons.prems(3) by (auto split: option.splits)
    note ih = Cons.IH [OF relayed.receiver [OF run t(1-3,5)] Cons.prems(2) t(6)]
    have "schedule crc e chunk gs gr (program_turns (ev # evs)) S R acks" using t deliver(1) [OF t(3)] conjunct1 [OF ih] by (simp add: receiver)
    moreover have "link_turns (ev # evs) = link_turns evs" by (simp add: receiver)
    ultimately show ?thesis using conjunct2 [OF ih] by (simp only: simp_thms)
  qed
qed

section \<open>The link simulator from its options on\<close>

text \<open>The state in which \<open>proxy_traffic\<close> enters the loop, at the address of \<open>get_socket\<close>.\<close>

definition forward_addr :: "endian \<Rightarrow> link_args \<Rightarrow> sockaddr" where
  "forward_addr e la = (loopback, htons e (word_of_int (la_forward_port la)))"

definition entry_link :: "endian \<Rightarrow> link_args \<Rightarrow> link_input \<Rightarrow> link" where
  "entry_link e la w = (link_init la)\<lparr>l_dest := forward_addr e la,
     l_queue := minq_new (Some pkt_slot_cmp) (li_queue_ok w) (li_slots w),
     l_clock := (case update_time (li_clock w) of None \<Rightarrow> Timeval 0 0 | Some now \<Rightarrow> now)\<rparr>"

lemma get_socket_dest: "get_socket e k la dst os = (fd, dst', os') \<Longrightarrow> 0 \<le> fd \<Longrightarrow> dst' = forward_addr e la"
  by (auto simp: get_socket_def forward_addr_def Let_def split: prod.splits if_splits)

text \<open>As long as the program has not ended it is in the loop, and has a queue.\<close>

lemma link_main_loop:
  assumes "link_options opts link_defaults os = (Some la, os1)" "link_main e k opts args w os = Some (None, L, os')"
  shows "minq_new (Some pkt_slot_cmp) (li_queue_ok w) (li_slots w) \<noteq> None \<and>
    (\<exists>seed. proxy_turns (li_events w seed) (entry_link e la w) = Some (None, L))"
proof -
  obtain seed os2 where t: "proxy_traffic e k w seed la os2 = Some (None, L, os')"
    using assms by (auto simp: link_main_def Let_def split: if_splits)
  obtain fd dst os3 where g: "get_socket e k la (l_dest (link_init la)) os2 = (fd, dst, os3)"
    by (cases "get_socket e k la (l_dest (link_init la)) os2")
  have fd: "0 \<le> fd" using t by (auto simp: proxy_traffic_def g Let_def split: if_splits)
  obtain q where q: "minq_new (Some pkt_slot_cmp) (li_queue_ok w) (li_slots w) = Some q"
    using t fd by (auto simp: proxy_traffic_def g Let_def split: option.splits)
  have "proxy_loop (li_clock w) (li_events w seed) ((link_init la)\<lparr>l_dest := forward_addr e la, l_queue := Some q\<rparr>) = Some (None, L)"
    using t fd get_socket_dest [OF g fd] by (auto simp: proxy_traffic_def g q Let_def bind_eq_Some_conv split: option.splits)
  then show ?thesis by (auto simp: proxy_loop_def entry_link_def q split: option.splits)
qed

lemma entry_link_start:
  assumes "unat (la_delay la) + unat (la_jitter la) < 2 ^ 31" "la_direction la AND LINK_REVERSE = 0 \<or> la_err_rate la = 0"
    "forward_addr e la \<noteq> a" "\<forall>slots. li_slots w = Some slots \<longrightarrow> length slots = SLOTS_PER_MALLOC"
    "minq_new (Some pkt_slot_cmp) (li_queue_ok w) (li_slots w) \<noteq> None"
  shows "link_start a (entry_link e la w)"
  using assms
  by (auto simp: link_start_def entry_link_def link_init_def minq_new_def mq_inv_def mq_items_def heap_ok_def delays_ok_def way_back_def
      split: if_splits option.splits)

section \<open>From the arguments to the file\<close>


section \<open>A complete run\<close>

text \<open>The run of \<open>Relay\<close>, under the options of the link simulator given by none.\<close>

definition relay_event :: "link \<Rightarrow> nat \<Rightarrow> link_event" where
  "relay_event L k = Ready demo_env (Some (2, 900000000)) (Some (relay_input L k))"

definition three_events :: "link \<Rightarrow> (link_event + (sturn + rturn)) list" where
  "three_events L = [Inr (Inl (turn_s (Some sal) None 1)), Inl (relay_event L 0), Inr (Inr (turn_r (data_wire crc32 Little seg0 sal) 1)),
     Inl (relay_event L 1), Inr (Inl (turn_s None (Some (ack_wire crc32 Little ack1)) 2)), Inr (Inl (turn_s (Some []) None 2)),
     Inl (relay_event L 2), Inr (Inr (turn_r (eof_wire crc32 Little eof1) 2)), Inl (relay_event L 3),
     Inr (Inl (turn_s None (Some (ack_wire crc32 Little ack1)) 3))]"

lemma three_events_turns:
  "program_turns (three_events L) = demo_events" "link_turns (three_events L) = map (relay_event L) [0, 1, 2, 3]"
  by (simp_all add: three_events_def demo_events_def)

lemma relay_event_turn:
  assumes "clear_link L" "l_dest L \<noteq> sender_addr" "l_clock L = Timeval 2 900000" "k < 4"
  shows "proxy_turn demo_env (update_time (Some (2, 900000000))) (Some (relay_input L k)) (relay_state L k) = Some (True, relay_state L (Suc k))"
  using relay_steps [OF assms(1,2,4)] by (simp add: update_time_def assms(3))

lemma three_schedule:
  assumes "clear_link L" "l_dest L \<noteq> sender_addr" "l_clock L = Timeval 2 900000"
  shows "relay_schedule crc32 Little (\<lambda>_. sal) sender_addr False False False (three_events L) demo_sender (relay_state L 0) (rcv_init empty_heap) []"
proof -
  note t = relay_event_turn [OF assms]
  have t: "proxy_turn demo_env (update_time (Some (2, 900000000))) (Some (relay_input L 0)) (relay_state L 0) = Some (True, relay_state L 1)"
    "proxy_turn demo_env (update_time (Some (2, 900000000))) (Some (relay_input L 1)) (relay_state L 1) = Some (True, relay_state L 2)"
    "proxy_turn demo_env (update_time (Some (2, 900000000))) (Some (relay_input L 2)) (relay_state L 2) = Some (True, relay_state L 3)"
    "proxy_turn demo_env (update_time (Some (2, 900000000))) (Some (relay_input L 3)) (relay_state L 3) = Some (True, relay_state L 4)"
    using t [of 0] t [of 1] t [of 2] t [of 3] by (simp_all add: numeral_eq_Suc)
  show ?thesis
    by (simp add: three_events_def relay_event_def step1 step2 step3 step4 step5 step6 relay_programs_ok demo_env_ok(1)
        relay_heard [OF assms(2)] relay_data relay_ack t del: One_nat_def)
qed

lemma three_proxy_turns:
  assumes "clear_link L" "l_dest L \<noteq> sender_addr" "l_clock L = Timeval 2 900000" "mq_inv pkt_slot_cmp (l_queue L)"
  shows "proxy_turns (map (relay_event L) [0, 1, 2, 3]) (relay_state L 0) = Some (None, relay_state L 4)"
proof -
  have q: "l_queue (relay_state L k) = l_queue L" for k by (simp add: relay_state_def relay_link_def)
  have "\<exists>t. get_queue_timeout (relay_state L k) = Some t" for k
    using queue_timeout_defined [of "relay_state L k"] assms(4) by (simp add: q)
  then obtain w where w: "get_queue_timeout (relay_state L k) = Some (w k)" for k by metis
  note t = relay_event_turn [OF assms(1-3)]
  have "proxy_turns (map (relay_event L) [k..<4]) (relay_state L k) = Some (None, relay_state L 4)" if "k \<le> 4" for k
    using that
  proof (induction k rule: inc_induct)
    case base
    then show ?case by (simp add: w)
  next
    case (step k)
    then have "[k..<4] = k # [Suc k..<4]" by (simp add: upt_conv_Cons)
    then show ?case using step by (simp add: w relay_event_def t)
  qed
  moreover have "[0..<4] = [0, 1, 2, 3 :: nat]" by (simp add: upt_rec)
  ultimately show ?thesis using le0 by metis
qed

definition three_input :: link_input where
  "three_input = (let w = \<lparr>li_queue_ok = True, li_slots = Some (replicate 20 (demo_slot 0 0)), li_time = 7,
       li_clock = Some (2, 900000000), li_events = (\<lambda>_. [])\<rparr> in
     w\<lparr>li_events := (\<lambda>_. link_turns (three_events (entry_link Little link_defaults w)))\<rparr>)"

abbreviation three_link :: link where
  "three_link \<equiv> entry_link Little link_defaults three_input"

lemma three_input_fields: "li_queue_ok three_input" "li_slots three_input = Some (replicate 20 (demo_slot 0 0))"
  "li_clock three_input = Some (2, 900000000)" "li_events three_input = (\<lambda>_. link_turns (three_events three_link))"
  by (simp_all add: three_input_def Let_def entry_link_def)

lemma three_link_ok: "clear_link three_link" "l_dest three_link \<noteq> sender_addr" "l_clock three_link = Timeval 2 900000"
  "mq_inv pkt_slot_cmp (l_queue three_link)" "relay_state three_link 0 = three_link"
proof -
  show "l_dest three_link \<noteq> sender_addr"
    by (simp add: entry_link_def forward_addr_def loopback_def)
qed (simp_all add: entry_link_def clear_link_def link_init_def link_defaults_def minq_peek_def minq_empty_def minq_new_def
    three_input_fields(1-3) update_time_def mq_inv_def heap_ok_def SLOTS_PER_MALLOC_def relay_state_def relay_link_def relay_out_def)

lemma three_link_main: "\<exists>os'. link_main Little demo_kernel [] [] three_input demo_os = Some (None, relay_state three_link 4, os')"
proof -
  have g: "\<exists>os'. get_socket Little demo_kernel link_defaults dst os = (3, forward_addr Little link_defaults, os')"
    if "os_fds os = os_fds demo_os" for dst os
    using that
    by (simp add: get_socket_def forward_addr_def sys_socket_def sys_setsockopt_def sys_bind_def sys_fcntl_def new_socket_def demo_kernel_def)
  have p: "proxy_loop (Some (2, 900000000)) (link_turns (three_events three_link))
      ((link_init link_defaults)\<lparr>l_dest := forward_addr Little link_defaults, l_queue := minq_new (Some pkt_slot_cmp) True (Some (replicate 20 (demo_slot 0 0)))\<rparr>) =
    Some (None, relay_state three_link 4)"
    (is "proxy_loop _ _ ?l = _")
  proof -
    have "three_link = ?l\<lparr>l_clock := Timeval 2 900000\<rparr>" by (simp add: entry_link_def three_input_fields(1-3) update_time_def)
    then have "proxy_loop (Some (2, 900000000)) evs ?l = proxy_turns evs three_link" for evs by (simp add: proxy_loop_def update_time_def)
    then show ?thesis using three_proxy_turns [OF three_link_ok(1-4)] by (simp only: three_link_ok(5) three_events_turns)
  qed
  have q: "minq_new (Some pkt_slot_cmp) True (Some (replicate 20 (demo_slot 0 0))) =
      Some \<lparr>mq_cmp = pkt_slot_cmp, mq_size = 0, mq_alloc = SLOTS_PER_MALLOC, mq_e = replicate 20 (demo_slot 0 0)\<rparr>"
    by (simp add: minq_new_def)
  have "\<exists>os'. proxy_traffic Little demo_kernel three_input seed link_defaults os = Some (None, relay_state three_link 4, os')"
    if fds: "os_fds os = os_fds demo_os" for seed os
  proof -
    obtain os' where "get_socket Little demo_kernel link_defaults (l_dest (link_init link_defaults)) os = (3, forward_addr Little link_defaults, os')"
      using g [OF fds] by blast
    then show ?thesis using p by (simp add: proxy_traffic_def three_input_fields q)
  qed
  then show ?thesis by (simp add: link_main_def print_err_def Let_def link_defaults_def [symmetric])
qed


end
