(* ===== verification/Log.thy ===== *)
theory Log
  imports C_Library
begin

text \<open>
  The function of \<open>src/src/logs/log.c\<close> that prints a block of memory on the standard error. Its
  other macros print a message each, and the theories that have a standard error record them.
\<close>

definition hex_digit :: "nat \<Rightarrow> char" where
  "hex_digit d = (if d < 10 then digit_char d else char_of (87 + d))"

fun hex :: "nat \<Rightarrow> string" where
  "hex n = (if n < 16 then [hex_digit n] else hex (n div 16) @ [hex_digit (n mod 16)])"

declare hex.simps [simp del]

text \<open>The conversion \<open>%0wx\<close>.\<close>

definition hex_pad :: "nat \<Rightarrow> nat \<Rightarrow> string" where
  "hex_pad w n = replicate (w - length (hex n)) (CHR ''0'') @ hex n"

text \<open>One line: the position, up to 16 bytes in hexadecimal and as characters.\<close>

definition dump_line :: "nat \<Rightarrow> bytes \<Rightarrow> string" where
  "dump_line i row = hex_pad 4 i @ '':  '' @ concat (map (\<lambda>b. hex_pad 2 (unat b) @ '' '') row) @ [char_of (9 :: nat)] @
     concat (map (\<lambda>b. [char_of (unat b), CHR '' '']) row) @ [char_of (10 :: nat)]"

text \<open>The second inner loop advances \<open>i\<close> to the end of the line.\<close>

function dump_from :: "bytes \<Rightarrow> nat \<Rightarrow> nat \<Rightarrow> string option" where
  "dump_from m len i =
     (if i < len then do {
        row \<leftarrow> read_bytes m i (min 16 (len - i));
        rest \<leftarrow> dump_from m len (min (i + 16) len);
        Some (dump_line i row @ rest)
      } else Some [])"
  by pat_completeness auto
termination
  by (relation "measure (\<lambda>(m, len, i). len - i)") auto

declare dump_from.simps [simp del]

definition dump :: "bytes \<Rightarrow> nat \<Rightarrow> string option" where
  "dump m len = dump_from m len 0"

text \<open>The literal that \<open>main\<close> of \<open>sender.c\<close> dumps in a debug build, with its final zero.\<close>

definition some_bytes :: bytes where
  "some_bytes = map of_char ''Some bytes'' @ [0]"

lemma dump_from_outside: "i \<le> len \<Longrightarrow> dump_from m len i = None \<longleftrightarrow> i < len \<and> length m < len"
proof (induction m len i rule: dump_from.induct)
  case (1 m len i)
  show ?case
  proof (cases "i < len")
    case False
    then show ?thesis by (simp add: dump_from.simps)
  next
    case True
    have step: "dump_from m len i = do { row \<leftarrow> read_bytes m i (min 16 (len - i)); rest \<leftarrow> dump_from m len (min (i + 16) len);
        Some (dump_line i row @ rest) }"
      using True by (simp add: dump_from.simps [of m len i])
    show ?thesis
    proof (cases "read_bytes m i (min 16 (len - i))")
      case None
      with True have "length m < len" by (auto simp: read_bytes_def min_def split: if_splits)
      then show ?thesis using step None True by simp
    next
      case (Some row)
      have "dump_from m len (min (i + 16) len) = None \<longleftrightarrow> min (i + 16) len < len \<and> length m < len"
        using 1(1) [OF True Some] by simp
      moreover have "\<not> length m < len" if "\<not> min (i + 16) len < len"
        using that Some by (auto simp: read_bytes_def split: if_splits)
      ultimately show ?thesis using step Some True by (cases "dump_from m len (min (i + 16) len)") auto
    qed
  qed
qed

text \<open>C40. \<open>dump\<close> ends, and it reads outside the object exactly when it is asked for more bytes than the
  object has. The debug build of the sender does that: its \<open>main\<close> dumps 12 bytes of the literal
  \<open>Some bytes\<close>, which has 11.\<close>

theorem dump_outside_iff: "(dump m len = None \<longleftrightarrow> length m < len) \<and> dump some_bytes 12 = None"
  by (auto simp: dump_def dump_from_outside some_bytes_def)

end
