(* ===== verification/Segment_Exercise.thy ===== *)
theory Segment_Exercise
  imports Packet_Codec Buffer
begin

text \<open>
  The preparatory exercise on the segment format,
  \<open>src/Inginious/format_des_segments/packet_implem.c\<close>, from which \<open>packet.c\<close> was made. The
  structure is that of \<open>packet.c\<close>; the accessors, the decoder (here by stages), the encoder, the
  length of the header and \<open>main\<close> are modelled and compared with those of the program.
\<close>

section \<open>The accessors\<close>

text \<open>The structure is that of \<open>packet.c\<close>, field by field; the accessors are written out again.\<close>

definition pkt_new_implem :: "pkt option \<Rightarrow> pkt option" where
  "pkt_new_implem block = (case block of None \<Rightarrow> None | Some p \<Rightarrow> Some p)"

definition pkt_del_implem :: "heap \<Rightarrow> addr option \<Rightarrow> heap option" where
  "pkt_del_implem h p = (case p of None \<Rightarrow> Some h | Some a \<Rightarrow>
     do { _ \<leftarrow> pkts h a; Some (h\<lparr>pkts := (pkts h)(a := None)\<rparr>) })"

definition pkt_get_type_implem :: "pkt \<Rightarrow> u32" where
  "pkt_get_type_implem p = ucast (p_type p)"

definition pkt_get_tr_implem :: "pkt \<Rightarrow> u8" where
  "pkt_get_tr_implem p = ucast (p_tr p)"

definition pkt_get_window_implem :: "pkt \<Rightarrow> u8" where
  "pkt_get_window_implem p = ucast (p_window p)"

definition pkt_get_seqnum_implem :: "pkt \<Rightarrow> u8" where
  "pkt_get_seqnum_implem p = p_seqnum p"

definition pkt_get_length_implem :: "pkt \<Rightarrow> u16" where
  "pkt_get_length_implem p = p_length p"

definition pkt_get_timestamp_implem :: "pkt \<Rightarrow> u32" where
  "pkt_get_timestamp_implem p = p_timestamp p"

definition pkt_get_crc1_implem :: "pkt \<Rightarrow> u32" where
  "pkt_get_crc1_implem p = p_crc1 p"

definition pkt_get_crc2_implem :: "pkt \<Rightarrow> u32" where
  "pkt_get_crc2_implem p = p_crc2 p"

definition pkt_get_payload_implem :: "pkt \<Rightarrow> bytes option" where
  "pkt_get_payload_implem p = (if p_length p \<noteq> 0 then p_payload p else None)"

definition pkt_set_type_implem :: "pkt \<Rightarrow> u32 \<Rightarrow> pkt_status_code \<times> pkt" where
  "pkt_set_type_implem p type =
     (if type < 1 \<or> type > 3 then (E_TYPE, p) else (PKT_OK, p\<lparr>p_type := ucast type\<rparr>))"

definition pkt_set_tr_implem :: "pkt \<Rightarrow> u8 \<Rightarrow> pkt_status_code \<times> pkt" where
  "pkt_set_tr_implem p tr = (if tr > 1 then (E_TR, p) else (PKT_OK, p\<lparr>p_tr := ucast tr\<rparr>))"

definition pkt_set_window_implem :: "pkt \<Rightarrow> u8 \<Rightarrow> pkt_status_code \<times> pkt" where
  "pkt_set_window_implem p window =
     (if unat window > MAX_WINDOW_SIZE then (E_WINDOW, p) else (PKT_OK, p\<lparr>p_window := ucast window\<rparr>))"

definition pkt_set_seqnum_implem :: "pkt \<Rightarrow> u8 \<Rightarrow> pkt_status_code \<times> pkt" where
  "pkt_set_seqnum_implem p seqnum = (PKT_OK, p\<lparr>p_seqnum := seqnum\<rparr>)"

definition pkt_set_length_implem :: "pkt \<Rightarrow> u16 \<Rightarrow> pkt_status_code \<times> pkt" where
  "pkt_set_length_implem p len =
     (if unat len > MAX_PAYLOAD_SIZE then (E_LENGTH, p) else (PKT_OK, p\<lparr>p_length := len\<rparr>))"

definition pkt_set_timestamp_implem :: "pkt \<Rightarrow> u32 \<Rightarrow> pkt_status_code \<times> pkt" where
  "pkt_set_timestamp_implem p timestamp = (PKT_OK, p\<lparr>p_timestamp := timestamp\<rparr>)"

definition pkt_set_crc1_implem :: "pkt \<Rightarrow> u32 \<Rightarrow> pkt_status_code \<times> pkt" where
  "pkt_set_crc1_implem p crc1 = (PKT_OK, p\<lparr>p_crc1 := crc1\<rparr>)"

definition pkt_set_crc2_implem :: "pkt \<Rightarrow> u32 \<Rightarrow> pkt_status_code \<times> pkt" where
  "pkt_set_crc2_implem p crc2 = (PKT_OK, p\<lparr>p_crc2 := crc2\<rparr>)"

definition pkt_set_payload_implem :: "bool \<Rightarrow> pkt \<Rightarrow> bytes option \<Rightarrow> u16 \<Rightarrow> (pkt_status_code \<times> pkt) option" where
  "pkt_set_payload_implem ok p data len =
     (if unat len > MAX_PAYLOAD_SIZE then Some (E_LENGTH, p)
      else if \<not> ok then Some (E_NOMEM, p\<lparr>p_payload := None\<rparr>)
      else case pkt_set_length_implem p len of (st, q) \<Rightarrow>
        if st \<noteq> PKT_OK then Some (E_LENGTH, q)
        else if len = 0 then Some (PKT_OK, q\<lparr>p_payload := Some []\<rparr>)
        else case data of None \<Rightarrow> None
          | Some m \<Rightarrow> do {
              bs \<leftarrow> read_bytes m 0 (unat len);
              Some (PKT_OK, q\<lparr>p_payload := Some bs\<rparr>)
            })"

text \<open>They are the accessors of the program, which the models of the codec use for both.\<close>

lemma accessors_agree:
  "pkt_new_implem = pkt_new" "pkt_del_implem = pkt_del"
  "pkt_get_type_implem = pkt_get_type" "pkt_get_tr_implem = pkt_get_tr" "pkt_get_window_implem = pkt_get_window"
  "pkt_get_seqnum_implem = pkt_get_seqnum" "pkt_get_length_implem = pkt_get_length"
  "pkt_get_timestamp_implem = pkt_get_timestamp" "pkt_get_crc1_implem = pkt_get_crc1" "pkt_get_crc2_implem = pkt_get_crc2"
  "pkt_get_payload_implem = pkt_get_payload" "pkt_set_type_implem = pkt_set_type" "pkt_set_tr_implem = pkt_set_tr"
  "pkt_set_window_implem = pkt_set_window" "pkt_set_seqnum_implem = pkt_set_seqnum" "pkt_set_length_implem = pkt_set_length"
  "pkt_set_timestamp_implem = pkt_set_timestamp" "pkt_set_crc1_implem = pkt_set_crc1" "pkt_set_crc2_implem = pkt_set_crc2"
  by (intro ext, simp add: pkt_new_implem_def pkt_new_def pkt_del_implem_def pkt_del_def pkt_get_type_implem_def pkt_get_type_def
      pkt_get_tr_implem_def pkt_get_tr_def pkt_get_window_implem_def pkt_get_window_def pkt_get_seqnum_implem_def pkt_get_seqnum_def
      pkt_get_length_implem_def pkt_get_length_def pkt_get_timestamp_implem_def pkt_get_timestamp_def pkt_get_crc1_implem_def
      pkt_get_crc1_def pkt_get_crc2_implem_def pkt_get_crc2_def pkt_get_payload_implem_def pkt_get_payload_def
      pkt_set_type_implem_def pkt_set_type_def pkt_set_tr_implem_def pkt_set_tr_def pkt_set_window_implem_def pkt_set_window_def
      pkt_set_seqnum_implem_def pkt_set_seqnum_def pkt_set_length_implem_def pkt_set_length_def pkt_set_timestamp_implem_def
      pkt_set_timestamp_def pkt_set_crc1_implem_def pkt_set_crc1_def pkt_set_crc2_implem_def pkt_set_crc2_def)+

lemma set_payload_agrees: "pkt_set_payload_implem = pkt_set_payload"
  by (intro ext) (simp add: pkt_set_payload_implem_def pkt_set_payload_def accessors_agree)

section \<open>The decoder\<close>

lemma nums: "Suc (Suc (Suc 0)) = 3" "Suc (Suc (Suc (Suc 0))) = 4"
  by simp_all

text \<open>The fields before the checksum: the status, the structure and the position.\<close>

definition implem_fields :: "endian \<Rightarrow> bytes \<Rightarrow> (pkt_status_code \<times> pkt \<times> nat) option" where
  "implem_fields e m = do {
     hb \<leftarrow> read_bytes m 0 1;
     let head = hd hb;
     let p = zero_pkt\<lparr>p_type := ucast (drop_bit 6 (head AND 0xC0)), p_tr := ucast (drop_bit 5 (head AND 0x20)),
                       p_window := ucast (head AND 0x1F)\<rparr>;
     let (st, p) = pkt_set_type p (ucast (p_type p));
     if st \<noteq> PKT_OK then Some (st, p, 1) else do {
     let (st, p) = pkt_set_tr p (ucast (p_tr p));
     if st \<noteq> PKT_OK then Some (st, p, 1) else do {
     let (st, p) = pkt_set_window p (ucast (p_window p));
     if st \<noteq> PKT_OK then Some (st, p, 1) else do {
     (st, p, cur) \<leftarrow>
       (if ucast (p_type p) = PTYPE_DATA then do {
          lb \<leftarrow> read_bytes m 1 2;
          let (st, p) = pkt_set_length (p\<lparr>p_length := load16 e lb\<rparr>) (ntohs e (load16 e lb));
          Some (st, p, 3)
        } else Some (PKT_OK, p, 1));
     if st \<noteq> PKT_OK then Some (st, p, cur) else do {
     sb \<leftarrow> read_bytes m cur 1;
     tb \<leftarrow> read_bytes m (cur + 1) 4;
     Some (PKT_OK, p\<lparr>p_seqnum := hd sb, p_timestamp := load32 e tb\<rparr>, cur + 5)
     }}}}
   }"

text \<open>The payload and its checksum; \<open>tr\<close> is the truncation bit that was received.\<close>

definition implem_payload :: "(bytes \<Rightarrow> u32) \<Rightarrow> endian \<Rightarrow> bool \<Rightarrow> bytes \<Rightarrow> u8 \<Rightarrow> pkt \<Rightarrow> nat \<Rightarrow> (pkt_status_code \<times> pkt) option" where
  "implem_payload crc e ok m tr p cur = do {
     (st, p) \<leftarrow> pkt_set_payload ok p (Some (drop cur m)) (p_length p);
     if st \<noteq> PKT_OK then Some (st, p)
     else do {
       db \<leftarrow> read_bytes m (cur + unat (p_length p)) 4;
       let p = p\<lparr>p_crc2 := ntohl e (load32 e db)\<rparr>;
       bad \<leftarrow> (if tr = 0 \<and> p_length p \<noteq> 0 then do {
                pb \<leftarrow> read_bytes m 12 (unat (p_length p));
                Some (p_crc2 p \<noteq> crc pb)
              } else Some False);
       if bad then Some (E_CRC, p)
       else do {
         let p = snd (pkt_set_tr p tr);
         if ucast (p_type p) \<noteq> PTYPE_DATA \<and> p_tr p \<noteq> 0 then Some (E_UNCONSISTENT, p) else Some (PKT_OK, p)
       }
     }
   }"

definition pkt_decode_implem ::
  "(bytes \<Rightarrow> u32) \<Rightarrow> endian \<Rightarrow> bool \<Rightarrow> bytes option \<Rightarrow> nat \<Rightarrow> pkt \<Rightarrow> (pkt_status_code \<times> pkt) option" where
  "pkt_decode_implem crc e ok data len p0 =
     (case data of None \<Rightarrow> Some (E_UNCONSISTENT, p0)
      | Some m \<Rightarrow>
        if len > MAX_PAYLOAD_SIZE + 16 \<or> len < 10 then Some (E_LENGTH, p0)
        else do {
          (st, p, cur) \<leftarrow> implem_fields e m;
          if st \<noteq> PKT_OK then Some (st, p)
          else do {
            cb \<leftarrow> read_bytes m cur 4;
            let tr = ucast (p_tr p);
            let p = snd (pkt_set_tr (p\<lparr>p_crc1 := ntohl e (load32 e cb)\<rparr>) 0);
            hdr \<leftarrow> read_bytes m 0 cur;
            if p_crc1 p \<noteq> crc hdr then Some (E_CRC, p)
            else if ucast (p_type p) \<noteq> PTYPE_DATA then Some (PKT_OK, snd (pkt_set_tr p tr))
            else implem_payload crc e ok m tr p (cur + 4)
          }
        })"

section \<open>The encoder\<close>

definition pkt_encode_implem ::
  "(bytes \<Rightarrow> u32) \<Rightarrow> endian \<Rightarrow> pkt option \<Rightarrow> bytes option \<Rightarrow> nat option
   \<Rightarrow> (pkt_status_code \<times> bytes option \<times> nat option) option" where
  "pkt_encode_implem crc e po buf lenp =
     (case po of None \<Rightarrow> Some (E_UNCONSISTENT, buf, lenp)
      | Some p \<Rightarrow>
        if pkt_get_type p \<noteq> PTYPE_DATA \<and> pkt_get_tr p \<noteq> 0 then Some (E_UNCONSISTENT, buf, lenp)
        else case buf of None \<Rightarrow> Some (E_NOMEM, buf, lenp)
        | Some b \<Rightarrow> (case lenp of None \<Rightarrow> Some (E_LENGTH, buf, lenp)
        | Some n \<Rightarrow> do {
          b \<leftarrow> write_bytes b 0 [head_byte p];
          if ucast (p_type p) \<noteq> PTYPE_DATA then do {
            b \<leftarrow> write_bytes b 1 [p_seqnum p];
            b \<leftarrow> write_bytes b 2 (store32 e (p_timestamp p));
            hdr \<leftarrow> read_bytes b 0 6;
            b \<leftarrow> write_bytes b 6 (store32 e (ntohl e (crc hdr)));
            Some (PKT_OK, Some b, Some 10)
          } else
          let len = unat (pkt_get_length p) in
          if n < 3 * 4 + len + 4 * unat (pkt_get_tr p) then Some (E_NOMEM, Some b, lenp)
          else do {
          b \<leftarrow> write_bytes b 1 (store16 e (htons e (pkt_get_length p)));
          b \<leftarrow> write_bytes b 3 [p_seqnum p];
          b \<leftarrow> write_bytes b 4 (store32 e (pkt_get_timestamp p));
          hdr \<leftarrow> read_bytes b 0 8;
          b \<leftarrow> write_bytes b 8 (store32 e (htonl e (crc hdr)));
          let charWritten = 3 * 4;
          if pkt_get_tr p \<noteq> 0 then
            if pkt_get_length p \<noteq> 0 then Some (E_UNCONSISTENT, Some b, lenp)
            else Some (PKT_OK, Some b, Some charWritten)
          else do {
          b \<leftarrow> (case pkt_get_payload p of None \<Rightarrow> Some b
               | Some pl \<Rightarrow> do { src \<leftarrow> read_bytes pl 0 len; write_bytes b 12 src });
          let charWritten = charWritten + len;
          body \<leftarrow> read_bytes b 12 len;
          let pktn_crc2 = htonl e (crc body);
          if pktn_crc2 \<noteq> 0 \<and> pkt_get_tr p = 0 then do {
            b \<leftarrow> write_bytes b charWritten (store32 e pktn_crc2);
            Some (PKT_OK, Some b, Some (charWritten + 4))
          } else Some (PKT_OK, Some b, Some charWritten)
          }}
        }))"

definition predict_header_length_implem :: "pkt \<Rightarrow> int" where
  "predict_header_length_implem p =
     (if ucast (p_type p) = PTYPE_DATA then if unat (p_length p) > MAX_PAYLOAD_SIZE then -1 else 8
      else if p_length p \<noteq> 0 then -1 else 6)"


lemma decode_implem_equal: "pkt_decode_implem crc e ok data len p = pkt_decode crc e ok data len p"
proof (cases data)
  case (Some m)
  have tr: "((ucast (t :: 1 word) :: u8) = 0) = (t = 0)" for t
    using ucast_eq_up_iff [of t 0, where ?'b = 8] by simp
  show ?thesis
    unfolding Some
    by (simp add: pkt_decode_implem_def pkt_decode_def implem_fields_def implem_payload_def Let_def split_def pkt_set_seqnum_def pkt_set_timestamp_def read_bytes_def pkt_set_length_def nums tr ucast_type_eq cong: if_cong)
qed (simp add: pkt_decode_implem_def pkt_decode_def)


lemma encode_outside:
  assumes "sendable crc p pl" "length b < 16 + length pl"
  shows "pkt_encode crc e (Some p) (Some b) (Some n) = None"
proof (rule ccontr)
  have p: "p_type p = 1" "p_tr p = 0" "p_payload p = Some pl" "unat (p_length p) = length pl" "pl \<noteq> []"
    using assms(1) by (auto simp: sendable_def)
  assume "pkt_encode crc e (Some p) (Some b) (Some n) \<noteq> None"
  then show False using p assms length_pos_iff [OF p(4)]
    by (auto simp: pkt_encode_def pkt_get_tr_def ucast_type_eq Let_def pkt_get_length_def
        pkt_get_payload_def write_bytes_def read_bytes_def sendable_def split: if_splits)
qed

lemma implem_encodes_data:
  assumes "sendable crc p pl" "16 + length pl \<le> length b" "12 + length pl \<le> n"
  shows "pkt_encode_implem crc e (Some p) (Some b) (Some n) =
    Some (PKT_OK, Some (data_wire crc e p pl @ drop (16 + length pl) b), Some (16 + length pl))"
proof -
  have p: "p_type p = 1" "p_tr p = 0" "p_payload p = Some pl" "unat (p_length p) = length pl"
    "pl \<noteq> []" "length pl \<le> MAX_PAYLOAD_SIZE" "crc pl \<noteq> 0"
    using assms(1) by (auto simp: sendable_def)
  show ?thesis
    using p assms(2,3) length_pos_iff [OF p(4)]
    by (simp add: pkt_encode_implem_def pkt_get_tr_def ucast_type_eq data_wire_def data_header_def
        wire_simps nums Let_def pkt_get_length_def pkt_get_payload_def pkt_get_timestamp_def
        del: append_assoc append_Cons) simp
qed

lemma implem_encode_outside:
  assumes "sendable crc p pl" "length b < 16 + length pl" "12 + length pl \<le> n"
  shows "pkt_encode_implem crc e (Some p) (Some b) (Some n) = None"
proof (rule ccontr)
  have p: "p_type p = 1" "p_tr p = 0" "p_payload p = Some pl" "unat (p_length p) = length pl"
    "pl \<noteq> []" "length pl \<le> MAX_PAYLOAD_SIZE"
    using assms(1) by (auto simp: sendable_def)
  assume "pkt_encode_implem crc e (Some p) (Some b) (Some n) \<noteq> None"
  then show False using p assms length_pos_iff [OF p(4)]
    by (auto simp: pkt_encode_implem_def pkt_get_tr_def ucast_type_eq Let_def pkt_get_length_def
        pkt_get_payload_def write_bytes_def read_bytes_def sendable_def split: if_splits)
qed

lemma implem_encode_short:
  assumes "sendable crc p pl" "b \<noteq> []" "n < 12 + length pl"
  shows "pkt_encode_implem crc e (Some p) (Some b) (Some n) = Some (E_NOMEM, Some (b[0 := head_byte p]), Some n)"
proof -
  have "p_type p = 1" "p_tr p = 0" "unat (p_length p) = length pl" using assms(1) by (simp_all add: sendable_def)
  then show ?thesis using assms(2,3)
    by (cases b) (simp_all add: pkt_encode_implem_def pkt_get_type_def pkt_get_tr_def ucast_type_eq Let_def pkt_get_length_def write_bytes_def)
qed

section \<open>The main program\<close>

text \<open>
  \<open>main\<close> encodes a packet into 100 bytes, whose contents \<open>junk\<close> are what \<open>malloc\<close> returned, and
  decodes it again, giving the decoder the length of the array. \<open>block1\<close>, \<open>block2\<close>: the structures
  of the two calls of \<open>pkt_new\<close>. The result is the structure that is printed last.
\<close>

definition salut :: bytes where
  "salut = [83, 97, 108, 117, 116, 83, 97, 108, 117, 116, 65, 114, 98, 105, 116, 114, 101, 0]"

definition exercise_packet :: "pkt \<Rightarrow> pkt option" where
  "exercise_packet block1 = do {
     (_, p) \<leftarrow> pkt_set_payload True block1 (Some salut) 18;
     Some (p\<lparr>p_type := 1, p_tr := 0, p_window := 10, p_seqnum := 123, p_timestamp := 11\<rparr>)
   }"

definition exercise_main :: "(bytes \<Rightarrow> u32) \<Rightarrow> endian \<Rightarrow> bytes \<Rightarrow> pkt \<Rightarrow> pkt \<Rightarrow> (pkt_status_code \<times> pkt) option" where
  "exercise_main crc e junk block1 block2 = do {
     p \<leftarrow> exercise_packet block1;
     (_, buffer, _) \<leftarrow> pkt_encode_implem crc e (Some p) (Some junk) (Some (4 * 4 + unat (p_length p)));
     pkt_decode_implem crc e True buffer 100 block2
   }"

text \<open>
  The header the first checksum covers has the length \<open>predict_header_length\<close> gives here; that
  of \<open>packet.c\<close> gives 10 for acknowledgements, whose checksum covers 6 bytes.
\<close>

lemma checksum_covers_header:
  assumes "pkt_decode_implem crc e ok (Some m) len q = Some (PKT_OK, p)"
  shows "p_crc1 p = crc (take (nat (predict_header_length_implem p)) m)"
  using decode_accepted [OF assms [unfolded decode_implem_equal]]
  by (auto simp: predict_header_length_implem_def ucast_type_eq)

section \<open>Properties\<close>


text \<open>C29. The encoder of the exercise does look at the capacity \<open>*len\<close>, but asks for 4 bytes too few,
  as it counts the payload checksum only for truncated packets: it answers \<open>E_NOMEM\<close> below
  \<open>12 + length\<close>, having written the first byte, and else writes \<open>16 + length\<close> bytes, the same the
  encoder of the program writes, also where the array is shorter.\<close>

theorem encode_implem_capacity:
  assumes "sendable crc p pl" "b \<noteq> []"
  shows "pkt_encode_implem crc e (Some p) (Some b) (Some n) =
    (if n < 12 + length pl then Some (E_NOMEM, Some (b[0 := head_byte p]), Some n)
     else pkt_encode crc e (Some p) (Some b) (Some n))"
proof (cases "n < 12 + length pl")
  case True
  then show ?thesis using implem_encode_short [OF assms] by simp
next
  case n: False
  show ?thesis
  proof (cases "length b < 16 + length pl")
    case True
    then have "pkt_encode crc e (Some p) (Some b) (Some n) = None"
      using encode_outside [OF assms(1)] by blast
    then show ?thesis using implem_encode_outside [OF assms(1) True] n by simp
  next
    case False
    then show ?thesis using implem_encodes_data [OF assms(1)] pkt_encode_data [OF assms(1)] n by simp
  qed
qed

theorem encode_implem_capacity_witness:
  "pkt_encode_implem crc32 Little (Some demo_pkt) (Some (replicate 15 0)) (Some 15) = None \<and>
   pkt_encode_implem crc32 Little (Some demo_pkt) (Some [7, 7]) (Some 2) = Some (E_NOMEM, Some [head_byte demo_pkt, 7], Some 2)"
proof -
  have "pkt_encode crc32 Little (Some demo_pkt) (Some (replicate 15 0)) (Some 15) = None"
    using encode_outside [OF demo_sendable] by simp
  then show ?thesis
    using encode_implem_capacity [OF demo_sendable, of "replicate 15 0" Little 15]
      encode_implem_capacity [OF demo_sendable, of "[7, 7]" Little 2] by simp
qed

text \<open>\<open>main\<close> prints the packet it started from, whatever the allocator returned, although the
  decoder is told of 100 bytes.\<close>

theorem exercise_main_prints_packet:
  assumes "crc salut \<noteq> 0" "length junk = 100"
  shows "\<exists>p q. exercise_packet block1 = Some p \<and> exercise_main crc e junk block1 block2 = Some (PKT_OK, q) \<and>
    q = p\<lparr>p_crc1 := crc (data_header e p), p_crc2 := crc salut\<rparr>"
proof -
  define p where "p = block1\<lparr>p_type := 1, p_tr := 0, p_window := 10, p_length := 18, p_seqnum := 123, p_timestamp := 11,
    p_payload := Some salut\<rparr>"
  have l: "length salut = 18" by (simp add: salut_def)
  have x: "exercise_packet block1 = Some p"
    using l by (simp add: exercise_packet_def pkt_set_payload_def pkt_set_length_def read_bytes_def p_def)
  have s: "sendable crc p salut" using assms(1) l by (auto simp: sendable_def p_def)
  have enc: "pkt_encode_implem crc e (Some p) (Some junk) (Some (4 * 4 + unat (p_length p))) =
      Some (PKT_OK, Some (data_wire crc e p salut @ drop 34 junk), Some 34)"
    using implem_encodes_data [OF s, of junk "4 * 4 + unat (p_length p)" e] assms(2) l by (simp add: p_def)
  have "data_wire crc e p salut @ drop 34 junk =
      data_header e p @ rev (le32 (crc (data_header e p))) @ salut @ rev (le32 (crc salut)) @ drop 34 junk"
    by (simp add: data_wire_def)
  then have "pkt_decode crc e True (Some (data_wire crc e p salut @ drop 34 junk)) 100 block2 =
      Some (PKT_OK, p\<lparr>p_crc1 := crc (data_header e p), p_crc2 := crc salut\<rparr>)"
    using l by (simp add: pkt_decode_data Let_def zero_pkt_def p_def)
  then show ?thesis using x enc by (auto simp: exercise_main_def decode_implem_equal)
qed

theorem exercise_main_prints_packet_witness:
  "\<exists>q. exercise_main crc32 Little (replicate 100 0) zero_pkt zero_pkt = Some (PKT_OK, q) \<and> p_payload q = Some salut"
proof -
  have "crc32 salut \<noteq> 0" by (simp add: crc32_eval salut_def)
  then obtain p q where "exercise_packet zero_pkt = Some p"
    "exercise_main crc32 Little (replicate 100 0) zero_pkt zero_pkt = Some (PKT_OK, q)"
    "q = p\<lparr>p_crc1 := crc32 (data_header Little p), p_crc2 := crc32 salut\<rparr>"
    using exercise_main_prints_packet [of crc32 "replicate 100 0" zero_pkt Little zero_pkt] by auto
  then show ?thesis by (auto simp: exercise_packet_def pkt_set_payload_def pkt_set_length_def read_bytes_def salut_def)
qed

end
