(* ===== verification/Record_Exercise.thy ===== *)
theory Record_Exercise
  imports Prelude
begin

text \<open>
  The preparatory exercise on records, \<open>src/Inginious/encoder_decoder/record.c\<close>. The data pointer
  of a record points into a memory of allocated blocks, so that leaks and wild frees show; an open
  file is what was written and the room that is left, or what is left to read. \<open>None\<close> stands for
  undefined behaviour, as in the other theories.
\<close>

section \<open>Records\<close>

type_synonym block = nat
type_synonym memory = "block \<Rightarrow> bytes option"

record record_t =
  rd_type :: "15 word"
  rd_has_footer :: "1 word"
  rd_length :: u16
  rd_data :: "block option"
  rd_UUID :: u32

text \<open>\<open>free\<close>: nothing for the null pointer, undefined for a block that is not allocated.\<close>

definition free_block :: "memory \<Rightarrow> block option \<Rightarrow> memory option" where
  "free_block m p = (case p of None \<Rightarrow> Some m | Some a \<Rightarrow> do { _ \<leftarrow> m a; Some (m(a := None)) })"

definition record_init :: "record_t \<Rightarrow> int \<times> record_t" where
  "record_init r = (0, r\<lparr>rd_type := 0, rd_has_footer := 0, rd_length := 0, rd_data := None\<rparr>)"

definition record_free :: "memory \<Rightarrow> record_t \<Rightarrow> memory option" where
  "record_free m r = (if rd_data r \<noteq> None then free_block m (rd_data r) else Some m)"

definition record_get_type :: "record_t \<Rightarrow> int" where
  "record_get_type r = uint (rd_type r)"

definition record_set_type :: "record_t \<Rightarrow> int \<Rightarrow> record_t" where
  "record_set_type r type = r\<lparr>rd_type := word_of_int type\<rparr>"

definition record_get_length :: "record_t \<Rightarrow> int" where
  "record_get_length r = uint (rd_length r)"

text \<open>An \<open>int\<close> that is used as a size becomes a \<open>size_t\<close>.\<close>

definition size_of_int :: "int \<Rightarrow> nat" where
  "size_of_int n = nat (n mod 2 ^ 64)"

text \<open>\<open>new\<close>: what \<open>malloc\<close> returns; \<open>buf\<close>: the bytes at the argument.\<close>

definition record_set_payload ::
  "memory \<Rightarrow> record_t \<Rightarrow> bytes option \<Rightarrow> int \<Rightarrow> block option \<Rightarrow> (int \<times> memory \<times> record_t) option" where
  "record_set_payload m r buf n new =
     (case new of None \<Rightarrow> Some (-1, m, r)
      | Some data \<Rightarrow> do {
          src \<leftarrow> (case buf of None \<Rightarrow> if size_of_int n = 0 then Some [] else None
                 | Some b \<Rightarrow> read_bytes b 0 (size_of_int n));
          let m = m(data \<mapsto> src);
          let r = r\<lparr>rd_length := word_of_int n\<rparr>;
          m \<leftarrow> (if rd_data r \<noteq> None then free_block m (rd_data r) else Some m);
          Some (0, m, r\<lparr>rd_data := Some data\<rparr>)
        })"

text \<open>The number of bytes and the bytes copied to the caller's buffer.\<close>

definition record_get_payload :: "memory \<Rightarrow> record_t \<Rightarrow> int \<Rightarrow> (int \<times> bytes) option" where
  "record_get_payload m r n =
     (let value = (if uint (rd_length r) < n then uint (rd_length r) else n) in
      case rd_data r of None \<Rightarrow> if size_of_int value = 0 then Some (value, []) else None
      | Some a \<Rightarrow> do {
          b \<leftarrow> m a;
          bs \<leftarrow> read_bytes b 0 (size_of_int value);
          Some (value, bs)
        })"

definition record_has_footer :: "record_t \<Rightarrow> int" where
  "record_has_footer r = uint (rd_has_footer r)"

definition record_delete_footer :: "record_t \<Rightarrow> record_t" where
  "record_delete_footer r = r\<lparr>rd_has_footer := 0, rd_UUID := 0\<rparr>"

definition record_set_uuid :: "record_t \<Rightarrow> u32 \<Rightarrow> record_t" where
  "record_set_uuid r uuid =
     (let r = (if rd_has_footer r = 0 then r\<lparr>rd_has_footer := 1\<rparr> else r) in r\<lparr>rd_UUID := uuid\<rparr>)"

definition record_get_uuid :: "record_t \<Rightarrow> u32" where
  "record_get_uuid r = rd_UUID r"

section \<open>Files\<close>

record out_file =
  f_bytes :: bytes
  f_room :: nat

text \<open>\<open>fwrite\<close> of one item: the number of items written in full. \<open>fread\<close> of single bytes into an
  object that holds \<open>old\<close>: their number, the object and what is left.\<close>

definition fwrite1 :: "bytes \<Rightarrow> out_file \<Rightarrow> nat \<times> out_file" where
  "fwrite1 bs f =
     (let k = min (length bs) (f_room f) in
      (if k = length bs then 1 else 0, f\<lparr>f_bytes := f_bytes f @ take k bs, f_room := f_room f - k\<rparr>))"

definition fread_into :: "bytes \<Rightarrow> bytes \<Rightarrow> nat \<times> bytes \<times> bytes" where
  "fread_into old f =
     (let k = min (length old) (length f) in (k, take k f @ drop k old, drop k f))"

definition record_write :: "endian \<Rightarrow> memory \<Rightarrow> record_t \<Rightarrow> out_file \<Rightarrow> (nat \<times> out_file) option" where
  "record_write e m r f = do {
     let l = htons e (rd_length r);
     let type = (push_bit 1 (ucast (rd_type r)) :: u16);
     let type = (if rd_has_footer r \<noteq> 0 then type + 1 else type);
     let type = htons e type;
     let (k, f) = fwrite1 (store16 e type) f;
     let sum = 2 * k;
     let (k, f) = fwrite1 (store16 e l) f;
     let sum = sum + 2 * k;
     (sum, f) \<leftarrow>
       (if rd_length r \<noteq> 0 then do {
          a \<leftarrow> rd_data r;
          b \<leftarrow> m a;
          bs \<leftarrow> read_bytes b 0 (unat (rd_length r));
          let (k, f) = fwrite1 bs f;
          Some (sum + unat (rd_length r) * k, f)
        } else Some (sum, f));
     (if rd_has_footer r \<noteq> 0 then
        let (k, f) = fwrite1 (store32 e (rd_UUID r)) f in Some (sum + 4 * k, f)
      else Some (sum, f))
   }"

text \<open>
  \<open>i_type\<close>, \<open>i_length\<close>, \<open>i_footer\<close>: the local variables before they are read into; \<open>i_new\<close> and
  \<open>i_old\<close>: the block of the \<open>malloc\<close> in \<open>record_read\<close> and what it holds; \<open>i_new2\<close>: that of
  \<open>record_set_payload\<close>.
\<close>

record read_input =
  i_type :: bytes
  i_length :: bytes
  i_footer :: bytes
  i_new :: "block option"
  i_old :: bytes
  i_new2 :: "block option"

definition record_read ::
  "endian \<Rightarrow> read_input \<Rightarrow> memory \<Rightarrow> record_t \<Rightarrow> bytes \<Rightarrow> (int \<times> memory \<times> record_t \<times> bytes) option" where
  "record_read e inp m r f = do {
     let (k, tb, f) = fread_into (i_type inp) f;
     let sum = k;
     let type = ntohs e (load16 e tb);
     let r = r\<lparr>rd_has_footer := ucast (type AND 1), rd_type := ucast (drop_bit 1 type)\<rparr>;
     let (k, lb, f) = fread_into (i_length inp) f;
     let sum = sum + k;
     let r = r\<lparr>rd_length := ntohs e (load16 e lb)\<rparr>;
     (if rd_length r \<noteq> 0 \<and> i_new inp = None then Some (-1, m, r, f)
      else do {
        (sum, m, r, f) \<leftarrow>
          (if rd_length r \<noteq> 0 then do {
             d \<leftarrow> i_new inp;
             let (k, bs, f) = fread_into (take (unat (rd_length r)) (i_old inp)) f;
             (_, m, r) \<leftarrow> record_set_payload (m(d \<mapsto> bs)) r (Some bs) (uint (rd_length r)) (i_new2 inp);
             Some (sum + k, m, r, f)
           } else Some (sum, m, r\<lparr>rd_data := None\<rparr>, f));
        (if rd_has_footer r \<noteq> 0 then
           let (k, ub, f) = fread_into (i_footer inp) f in
           Some (int (sum + k), m, record_set_uuid r (load32 e ub), f)
         else Some (int sum, m, r\<lparr>rd_UUID := 0\<rparr>, f))
      })
   }"


section \<open>The layout of a record\<close>

definition type_field :: "record_t \<Rightarrow> u16" where
  "type_field r = (if rd_has_footer r \<noteq> 0 then push_bit 1 (ucast (rd_type r)) + 1 else push_bit 1 (ucast (rd_type r)))"

definition record_wire :: "endian \<Rightarrow> record_t \<Rightarrow> bytes \<Rightarrow> bytes" where
  "record_wire e r bs = rev (le16 (type_field r)) @ rev (le16 (rd_length r)) @ bs @
     (if rd_has_footer r \<noteq> 0 then store32 e (rd_UUID r) else [])"

text \<open>The payload of a record.\<close>

definition holds_payload :: "memory \<Rightarrow> record_t \<Rightarrow> bytes \<Rightarrow> bool" where
  "holds_payload m r bs \<longleftrightarrow> length bs = unat (rd_length r) \<and>
     (rd_length r \<noteq> 0 \<longrightarrow> (\<exists>a b. rd_data r = Some a \<and> m a = Some b \<and> bs = take (unat (rd_length r)) b))"

lemma bit_1_word: "w = 0 \<or> w = 1" for w :: "1 word"
proof -
  have "unat w < 2" using unsigned_less [of w, where ?'a = nat] by simp
  then have "unat w = 0 \<or> unat w = 1" by linarith
  then show ?thesis by (auto simp: word_unat_eq_iff)
qed

lemma type_field_parts: "ucast (type_field r AND 1) = rd_has_footer r" "ucast (drop_bit 1 (type_field r)) = rd_type r"
proof -
  have z: "push_bit 1 (ucast t :: u16) AND 1 = 0" for t :: "15 word"
    by (rule bit_word_eqI) (auto simp: bit_simps simp del: push_bit_Suc drop_bit_Suc)
  have a: "push_bit 1 (ucast t) + 1 = push_bit 1 (ucast t) OR (1 :: u16)" for t :: "15 word"
    by (rule disjunctive_add_eq_or [OF z])
  have "(push_bit 1 (ucast t :: u16) OR 1) AND 1 = 1" "push_bit 1 (ucast t :: u16) AND 1 = 0"
    "ucast (drop_bit 1 (push_bit 1 (ucast t :: u16) OR 1)) = t" "ucast (drop_bit 1 (push_bit 1 (ucast t :: u16))) = t" for t :: "15 word"
    by (rule bit_word_eqI; auto simp: bit_simps simp del: push_bit_Suc drop_bit_Suc)+
  then have parts: "(push_bit 1 (ucast t :: u16) + 1) AND 1 = 1" "push_bit 1 (ucast t :: u16) AND 1 = 0"
    "ucast (drop_bit 1 (push_bit 1 (ucast t :: u16) + 1)) = t" "ucast (drop_bit 1 (push_bit 1 (ucast t :: u16))) = t" for t :: "15 word"
    unfolding a by blast+
  show "ucast (type_field r AND 1) = rd_has_footer r" "ucast (drop_bit 1 (type_field r)) = rd_type r"
    unfolding type_field_def using bit_1_word [of "rd_has_footer r"] parts(3,4) [of "rd_type r"]
    by (auto simp only: parts(1,2) if_True if_False one_neq_zero simp_thms unsigned_0 unsigned_1)
qed

lemma fwrite1_fits: "length bs \<le> f_room f \<Longrightarrow>
    fwrite1 bs f = (1, f\<lparr>f_bytes := f_bytes f @ bs, f_room := f_room f - length bs\<rparr>)"
  by (simp add: fwrite1_def)

lemma fread_into_all: "length old = length bs \<Longrightarrow> fread_into old (bs @ f) = (length bs, bs, f)"
  by (simp add: fread_into_def)

lemma record_write_wire:
  assumes "holds_payload m r bs" "length (record_wire e r bs) \<le> f_room f"
  shows "record_write e m r f = Some (length (record_wire e r bs),
    f\<lparr>f_bytes := f_bytes f @ record_wire e r bs, f_room := f_room f - length (record_wire e r bs)\<rparr>)"
proof -
  have len: "length bs = unat (rd_length r)" using assms(1) by (simp add: holds_payload_def)
  have t: "store16 e (htons e (type_field r)) = rev (le16 (type_field r))" by simp
  show ?thesis
  proof (cases "rd_length r = 0")
    case True
    then show ?thesis using assms(2) len
      by (auto simp: record_write_def record_wire_def type_field_def Let_def fwrite1_fits)
  next
    case False
    then obtain a b where "rd_data r = Some a" "m a = Some b" "bs = take (unat (rd_length r)) b"
      using assms(1) by (auto simp: holds_payload_def)
    moreover from this have "read_bytes b 0 (unat (rd_length r)) = Some bs" using len by (simp add: read_bytes_def)
    ultimately show ?thesis using assms(2) len False
      by (auto simp: record_write_def record_wire_def type_field_def Let_def fwrite1_fits)
  qed
qed


lemma size_of_int_small: "0 \<le> n \<Longrightarrow> n < 2 ^ 64 \<Longrightarrow> size_of_int n = nat n"
  unfolding size_of_int_def by (simp only: mod_pos_pos_trivial)

lemma size_of_length: "size_of_int (uint (rd_length r)) = unat (rd_length r)"
proof -
  have "uint (rd_length r) < 2 ^ 16" using unsigned_less [of "rd_length r", where ?'a = int] by simp
  also have "(2 :: int) ^ 16 < 2 ^ 64" by simp
  finally show ?thesis using size_of_int_small [OF uint_ge_0] by (simp only: unat_eq_nat_uint)
qed

lemma record_read_wire:
  assumes p: "length bs = unat (rd_length r)"
    and inp: "length (i_type inp) = 2" "length (i_length inp) = 2" "length (i_footer inp) = 4"
      "i_new inp = Some d" "i_new2 inp = Some d2" "d \<noteq> d2" "unat (rd_length r) \<le> length (i_old inp)"
    and r0: "rd_data r0 = None"
  shows "\<exists>m' r'. record_read e inp m r0 (record_wire e r bs @ rest) = Some (int (length (record_wire e r bs)), m', r', rest) \<and>
    rd_type r' = rd_type r \<and> rd_has_footer r' = rd_has_footer r \<and> rd_length r' = rd_length r \<and> holds_payload m' r' bs \<and>
    rd_UUID r' = (if rd_has_footer r = 0 then 0 else rd_UUID r)"
proof -
  have f1: "fread_into (i_type inp) (rev (le16 (type_field r)) @ xs) = (2, rev (le16 (type_field r)), xs)"
    "fread_into (i_length inp) (rev (le16 (rd_length r)) @ xs) = (2, rev (le16 (rd_length r)), xs)"
    "fread_into (i_footer inp) (store32 e (rd_UUID r) @ xs) = (4, store32 e (rd_UUID r), xs)"
    "fread_into (take (length bs) (i_old inp)) (bs @ xs) = (length bs, bs, xs)" for xs
    using inp p by (simp_all add: fread_into_all)
  have ty: "ntohs e (load16 e (rev (le16 (type_field r)))) = type_field r"
    "ntohs e (load16 e (rev (le16 (rd_length r)))) = rd_length r" by simp_all
  have sz: "size_of_int (uint (rd_length r)) = length bs"
    using size_of_length [of r] p by simp
  let ?r = "r0\<lparr>rd_has_footer := rd_has_footer r, rd_type := rd_type r, rd_length := rd_length r\<rparr>"
  let ?tail = "if rd_has_footer r \<noteq> 0 then store32 e (rd_UUID r) else []"
  have head: "record_read e inp m r0 (record_wire e r bs @ rest) = do {
      (sum, m, q, f) \<leftarrow>
        (if rd_length r \<noteq> 0 then do {
           (_, m, q) \<leftarrow> record_set_payload (m(d \<mapsto> bs)) ?r (Some bs) (uint (rd_length r)) (Some d2);
           Some (4 + length bs, m, q, ?tail @ rest)
         } else Some (4, m, ?r\<lparr>rd_data := None\<rparr>, ?tail @ rest));
      (if rd_has_footer q \<noteq> 0 then
         let (k, ub, f) = fread_into (i_footer inp) f in Some (int (sum + k), m, record_set_uuid q (load32 e ub), f)
       else Some (int sum, m, q\<lparr>rd_UUID := 0\<rparr>, f)) }"
  proof -
    have w: "record_wire e r bs @ rest = rev (le16 (type_field r)) @ rev (le16 (rd_length r)) @ bs @ ?tail @ rest"
      by (simp only: record_wire_def append_assoc)
    have "length bs = 0" if "rd_length r = 0" using p that by simp
    then show ?thesis unfolding w record_read_def Let_def f1 ty prod.case type_field_parts
      by (cases "rd_length r = 0") (simp_all add: inp(4,5) f1 flip: p)
  qed
  show ?thesis
  proof (cases "rd_length r = 0")
    case True
    then show ?thesis unfolding head using p r0
      by (cases "rd_has_footer r = 0") (simp_all add: record_wire_def f1 record_set_uuid_def holds_payload_def)
  next
    case False
    have "read_bytes bs 0 (length bs) = Some bs" by (simp add: read_bytes_def)
    then have set: "record_set_payload (m(d \<mapsto> bs)) ?r (Some bs) (uint (rd_length r)) (Some d2) =
        Some (0, m(d \<mapsto> bs, d2 \<mapsto> bs), ?r\<lparr>rd_data := Some d2\<rparr>)"
      using r0 by (simp add: record_set_payload_def sz Let_def)
    show ?thesis unfolding head set using False p
      by (cases "rd_has_footer r = 0") (simp_all add: record_wire_def f1 record_set_uuid_def holds_payload_def)
  qed
qed


section \<open>Properties\<close>

text \<open>What \<open>record_read\<close> needs of its surroundings: local variables of the right size and memory.\<close>

definition input_fits :: "read_input \<Rightarrow> record_t \<Rightarrow> bool" where
  "input_fits inp r \<longleftrightarrow> length (i_type inp) = 2 \<and> length (i_length inp) = 2 \<and> length (i_footer inp) = 4 \<and>
     unat (rd_length r) \<le> length (i_old inp) \<and> (\<exists>d d2. i_new inp = Some d \<and> i_new2 inp = Some d2 \<and> d \<noteq> d2)"

text \<open>C28. A record survives being written and read: with room in the file and memory, \<open>record_write\<close>
  returns the number of bytes it has written, and \<open>record_read\<close> on an initialised record takes
  exactly those, returns their number and gives back type, footer, length and payload, and the
  UUID, or 0 without footer.\<close>

theorem record_roundtrip:
  assumes "holds_payload m r bs" "length (record_wire e r bs) \<le> room" "input_fits inp r"
  shows "\<exists>n f m' r'. record_write e m r \<lparr>f_bytes = [], f_room = room\<rparr> = Some (n, f) \<and> n = length (f_bytes f) \<and>
    record_read e inp m2 (snd (record_init r0)) (f_bytes f @ rest) = Some (int n, m', r', rest) \<and>
    record_get_type r' = record_get_type r \<and> record_has_footer r' = record_has_footer r \<and>
    record_get_length r' = record_get_length r \<and> holds_payload m' r' bs \<and>
    record_get_uuid r' = (if rd_has_footer r = 0 then 0 else record_get_uuid r)"
proof -
  have p: "length bs = unat (rd_length r)" using assms(1) by (simp add: holds_payload_def)
  obtain d d2 where d: "i_new inp = Some d" "i_new2 inp = Some d2" "d \<noteq> d2" using assms(3) by (auto simp: input_fits_def)
  have l: "length (i_type inp) = 2" "length (i_length inp) = 2" "length (i_footer inp) = 4" "unat (rd_length r) \<le> length (i_old inp)"
    using assms(3) by (simp_all add: input_fits_def)
  have "rd_data (snd (record_init r0)) = None" by (simp add: record_init_def)
  from record_read_wire [OF p l(1-3) d l(4) this, of e m2 rest] record_write_wire [OF assms(1), of e "\<lparr>f_bytes = [], f_room = room\<rparr>"] assms(2)
  show ?thesis by (auto simp: record_get_type_def record_has_footer_def record_get_length_def record_get_uuid_def)
qed

definition demo_record :: record_t where
  "demo_record = \<lparr>rd_type = 23, rd_has_footer = 1, rd_length = 3, rd_data = Some 7, rd_UUID = 1234\<rparr>"

definition demo_input :: read_input where
  "demo_input = \<lparr>i_type = [9, 9], i_length = [9, 9], i_footer = [9, 9, 9, 9], i_new = Some 1, i_old = replicate 8 9, i_new2 = Some 2\<rparr>"

theorem record_roundtrip_witness:
  "\<exists>n f m' r'. record_write Little [7 \<mapsto> [83, 97, 108]] demo_record \<lparr>f_bytes = [], f_room = 100\<rparr> = Some (n, f) \<and>
    record_read Little demo_input Map.empty (snd (record_init demo_record)) (f_bytes f @ [5]) = Some (int n, m', r', [5]) \<and>
    record_get_uuid r' = 1234 \<and> holds_payload m' r' [83, 97, 108]"
proof -
  have "holds_payload [7 \<mapsto> [83, 97, 108]] demo_record [83, 97, 108]" by (simp add: holds_payload_def demo_record_def)
  moreover have "length (record_wire Little demo_record [83, 97, 108]) \<le> 100" by (simp add: record_wire_def demo_record_def)
  moreover have "input_fits demo_input demo_record" by (simp add: input_fits_def demo_input_def demo_record_def)
  ultimately show ?thesis
    using record_roundtrip [of "[7 \<mapsto> [83, 97, 108]]" demo_record "[83, 97, 108]" Little 100 demo_input Map.empty demo_record "[5]"]
    by (auto simp: demo_record_def record_get_uuid_def)
qed

text \<open>\<open>record_set_payload\<close> copies \<open>n\<close> bytes, keeps the length modulo 65536, as \<open>record.h\<close> says, frees
  the block it replaces and no other, and \<open>record_get_payload\<close> then gives the first bytes of the
  payload, at most as many as asked for.\<close>

theorem set_payload_get_payload:
  assumes "0 \<le> n" "n \<le> int (length buf)" "n < 2 ^ 31"
    "rd_data r = None \<or> (\<exists>b. rd_data r = Some b \<and> b \<noteq> a \<and> m b \<noteq> None)" "0 \<le> k" "k < 2 ^ 31"
  shows "\<exists>m' r'. record_set_payload m r (Some buf) n (Some a) = Some (0, m', r') \<and>
    record_get_length r' = n mod 65536 \<and>
    record_get_payload m' r' k = Some (min k (n mod 65536), take (nat (min k (n mod 65536))) buf) \<and>
    dom m' = insert a (dom m - set_option (rd_data r))"
proof -
  have sz: "size_of_int n = nat n" using assms(1,3) by (intro size_of_int_small) simp_all
  have rb: "read_bytes buf 0 (nat n) = Some (take (nat n) buf)" using assms(1,2) by (simp add: read_bytes_def nat_le_iff)
  define r' where "r' = r\<lparr>rd_length := word_of_int n, rd_data := Some a\<rparr>"
  define m' where "m' = (case rd_data r of None \<Rightarrow> m(a \<mapsto> take (nat n) buf) | Some b \<Rightarrow> (m(a \<mapsto> take (nat n) buf))(b := None))"
  have set: "record_set_payload m r (Some buf) n (Some a) = Some (0, m', r')"
    using assms(4) by (auto simp: record_set_payload_def sz rb Let_def free_block_def m'_def r'_def)
  have ma: "m' a = Some (take (nat n) buf)" using assms(4) by (auto simp: m'_def)
  have len: "uint (rd_length r') = n mod 65536" by (simp add: r'_def uint_word_of_int)
  let ?v = "min k (n mod 65536)"
  have v: "0 \<le> ?v" "?v \<le> k" "?v \<le> n" using assms(1,5) zmod_le_nonneg_dividend [of n 65536] by (auto simp: min_def)
  have sv: "size_of_int ?v = nat ?v" using v assms(6) by (intro size_of_int_small) simp_all
  have vi: "(if n mod 65536 < k then n mod 65536 else k) = ?v" by (simp add: min_def)
  have rd: "rd_data r' = Some a" by (simp add: r'_def)
  have "read_bytes (take (nat n) buf) 0 (nat ?v) = Some (take (nat ?v) buf)"
  proof -
    have "nat ?v \<le> nat n" using v(3) by (simp add: nat_mono)
    moreover have "nat n \<le> length buf" using assms(2) by (simp add: nat_le_iff)
    ultimately show ?thesis by (simp add: read_bytes_def min_absorb1)
  qed
  then have "record_get_payload m' r' k = Some (?v, take (nat ?v) buf)"
    unfolding record_get_payload_def len Let_def vi rd by (simp only: option.case ma Option.bind.simps sv)
  moreover have "dom m' = insert a (dom m - set_option (rd_data r))" using assms(4) by (auto simp: m'_def split: option.splits if_splits)
  ultimately show ?thesis using set len by (auto simp: record_get_length_def)
qed

theorem set_payload_get_payload_witness:
  "\<exists>m' r'. record_set_payload [7 \<mapsto> [1, 2, 3]] demo_record (Some [83, 97, 108, 0]) 4 (Some 1) = Some (0, m', r') \<and>
    record_get_payload m' r' 2 = Some (2, [83, 97]) \<and> dom m' = {1}"
  using set_payload_get_payload [of 4 "[83, 97, 108, 0]" demo_record 1 "[7 \<mapsto> [1, 2, 3]]" 2]
  by (auto simp: demo_record_def)

text \<open>The UUID travels in the byte order of the host: a host of the other order reads it reversed.\<close>

lemma record_uuid_host_order:
  assumes "length bs = unat (rd_length r)" "input_fits inp r" "rd_has_footer r \<noteq> 0" "rd_data r0 = None"
  shows "\<exists>m' r'. record_read Big inp m r0 (record_wire Little r bs @ rest) = Some (int (length (record_wire Little r bs)), m', r', rest) \<and>
    rd_type r' = rd_type r \<and> rd_UUID r' = htonl Little (rd_UUID r)"
proof -
  let ?r = "r\<lparr>rd_UUID := htonl Little (rd_UUID r)\<rparr>"
  have "store32 Big (htonl Little (rd_UUID r)) = store32 Little (rd_UUID r)" by (simp add: store32_def htonl_def le32_of_le32)
  then have w: "record_wire Big ?r bs = record_wire Little r bs" by (simp add: record_wire_def type_field_def)
  obtain d d2 where d: "i_new inp = Some d" "i_new2 inp = Some d2" "d \<noteq> d2" using assms(2) by (auto simp: input_fits_def)
  have l: "length (i_type inp) = 2" "length (i_length inp) = 2" "length (i_footer inp) = 4" "unat (rd_length ?r) \<le> length (i_old inp)"
    using assms(2) by (simp_all add: input_fits_def)
  have "length bs = unat (rd_length ?r)" using assms(1) by simp
  from record_read_wire [OF this l(1-3) d l(4) assms(4), of Big m rest] assms(3) show ?thesis unfolding w by auto
qed

text \<open>Reading a record into one that has a payload loses the block it points to when the new one has none.\<close>

lemma record_read_leaks:
  assumes "length (i_type inp) = 2" "length (i_length inp) = 2" "rd_data r0 = Some a"
  shows "\<exists>r'. record_read e inp m r0 [0, 0, 0, 0] = Some (4, m, r', []) \<and> rd_data r' = None"
proof -
  have "rev (le16 0) = [0, 0]" by (simp add: le16_def)
  then have z: "htons e (load16 e [0, 0]) = 0" using load_rev_le(1) [of e 0] by simp
  have f: "fread_into (i_type inp) [0, 0, 0, 0] = (2, [0, 0], [0, 0])" "fread_into (i_length inp) [0, 0] = (2, [0, 0], [])"
    using assms(1,2) by (simp_all add: fread_into_def)
  show ?thesis unfolding record_read_def Let_def f prod.case z by simp
qed

end
