(* ===== verification/Chat.thy ===== *)
theory Chat
  imports Sockets
begin

text \<open>
  The exercise on sending and receiving data, \<open>src/Inginious/envoyer_recevoir_donnees\<close>: a program
  that relays its standard input to a socket and the socket to its standard output. Its socket
  functions are those of \<open>socket_manager.c\<close> with other messages; both give the contract
  \<open>socket_api\<close>.
\<close>

section \<open>The socket functions of the exercise\<close>

definition wait_for_client_exercise :: "kernel \<Rightarrow> int \<Rightarrow> os \<Rightarrow> (int \<times> os) option" where
  "wait_for_client_exercise k sfd os = do {
     (sock, os) \<leftarrow> sys_peek k sfd os;
     (case sock of None \<Rightarrow> Some (-1, print_err ''Error using recvfrom'' os)
      | Some sock \<Rightarrow>
          (case sys_connect k sfd sock os of (done, os) \<Rightarrow>
             if done = -1 then Some (-1, print_err ''Error using connect'' os) else Some (0, os)))
   }"

definition real_address_exercise :: "kernel \<Rightarrow> string \<Rightarrow> sockaddr_in6 \<Rightarrow> (string option \<times> sockaddr_in6) option" where
  "real_address_exercise k address rval =
     (case k_getaddrinfo k address of (s, result) \<Rightarrow>
        if s \<noteq> 0 then Some (Some (k_gai_strerror k s), rval)
        else (case result of [] \<Rightarrow> None | a # _ \<Rightarrow> Some (None, a)))"

definition create_socket_exercise ::
  "endian \<Rightarrow> kernel \<Rightarrow> sockaddr_in6 option \<Rightarrow> int \<Rightarrow> sockaddr_in6 option \<Rightarrow> int \<Rightarrow> os \<Rightarrow>
   int \<times> sockaddr_in6 option \<times> sockaddr_in6 option \<times> os" where
  "create_socket_exercise e k source_addr src_port dest_addr dst_port os =
     (case sys_socket k os of (sock, os) \<Rightarrow>
        if sock = -1 then (-1, source_addr, dest_addr, print_err ''socket returned a -1 descriptor'' os)
        else
          let source_addr = map_option (with_port e src_port) source_addr;
              (bound, os) = (case source_addr of None \<Rightarrow> (0, os) | Some a \<Rightarrow> sys_bind k sock a os) in
          if bound \<noteq> 0 then (-1, source_addr, dest_addr, print_err ''bind returned -1 '' os)
          else
            let dest_addr = map_option (with_port e dst_port) dest_addr;
                (connected, os) = (case dest_addr of None \<Rightarrow> (0, os) | Some a \<Rightarrow> sys_connect k sock a os) in
            if connected \<noteq> 0 then (-1, source_addr, dest_addr, print_err ''connect returned -1'' os)
            else (sock, source_addr, dest_addr, os))"

section \<open>The relay\<close>

text \<open>
  What one turn of the loop meets: \<open>poll\<close> fails; the standard input is readable and \<open>read\<close> gives
  bytes, none at its end, or fails (the inner \<open>None\<close>); the same for a datagram on the socket;
  whether \<open>write\<close> on the socket succeeds, and how many bytes \<open>write\<close> on the standard output takes.
\<close>

record chat_turn =
  ct_poll_fails :: bool
  ct_stdin :: "bytes option option"
  ct_sock :: "bytes option option"
  ct_send :: bool
  ct_write :: "nat option"

text \<open>The datagrams written to the socket and the bytes written to the standard output.\<close>

record chat =
  ch_sent :: "bytes list"
  ch_out :: bytes

datatype chat_end = Running | Returned | Exited

definition relay_stdin :: "chat_turn \<Rightarrow> chat \<Rightarrow> chat_end \<times> chat" where
  "relay_stdin t st = (case ct_stdin t of None \<Rightarrow> (Running, st)
     | Some None \<Rightarrow> (Exited, st)
     | Some (Some buf) \<Rightarrow>
         if \<not> ct_send t then (Returned, st)
         else (Running, st\<lparr>ch_sent := ch_sent st @ [take 1024 buf]\<rparr>))"

definition relay_sock :: "chat_turn \<Rightarrow> chat \<Rightarrow> chat_end \<times> chat" where
  "relay_sock t st = (case ct_sock t of None \<Rightarrow> (Running, st)
     | Some None \<Rightarrow> (Exited, st)
     | Some (Some buf) \<Rightarrow> (case ct_write t of None \<Rightarrow> (Returned, st)
         | Some n \<Rightarrow> (Running, st\<lparr>ch_out := ch_out st @ take n (take 1024 buf)\<rparr>)))"

primrec read_write_loop :: "chat_turn list \<Rightarrow> chat \<Rightarrow> chat_end \<times> chat" where
  "read_write_loop [] st = (Running, st)"
| "read_write_loop (t # ts) st =
     (if ct_poll_fails t then (Exited, st)
      else case relay_stdin t st of (r, st) \<Rightarrow>
        if r \<noteq> Running then (r, st)
        else case relay_sock t st of (r, st) \<Rightarrow>
          if r \<noteq> Running then (r, st) else read_write_loop ts st)"

section \<open>The program\<close>

record chat_args =
  ca_client :: int
  ca_port :: int
  ca_host :: string

definition chat_defaults :: chat_args where
  "chat_defaults = \<lparr>ca_client = 0, ca_port = 12345, ca_host = ''::1''\<rparr>"

text \<open>Any other letter prints the usage, and the program goes on.\<close>

fun chat_options :: "(char \<times> string) list \<Rightarrow> chat_args \<Rightarrow> os \<Rightarrow> chat_args \<times> os" where
  "chat_options [] ca os = (ca, os)"
| "chat_options ((opt, optarg) # opts) ca os =
     (if opt = CHR ''s'' then chat_options opts (ca\<lparr>ca_client := 0\<rparr>) os
      else if opt = CHR ''c'' then chat_options opts (ca\<lparr>ca_client := 1\<rparr>) os
      else if opt = CHR ''p'' then chat_options opts (ca\<lparr>ca_port := atoi optarg\<rparr>) os
      else if opt = CHR ''h'' then chat_options opts (ca\<lparr>ca_host := optarg\<rparr>) os
      else chat_options opts ca (print_err ''Usage:'' os))"

text \<open>The exit status when the program ends, what was relayed and the system.\<close>

definition chat_main :: "endian \<Rightarrow> kernel \<Rightarrow> (char \<times> string) list \<Rightarrow> sockaddr_in6 \<Rightarrow> (int \<Rightarrow> chat_turn list) \<Rightarrow> os \<Rightarrow>
    (int option \<times> chat \<times> os) option" where
  "chat_main e k opts addr turns os = (let st = \<lparr>ch_sent = [], ch_out = []\<rparr> in
     case chat_options opts chat_defaults (print_err ''ok'' os) of (ca, os) \<Rightarrow> do {
       let os = print_err ''test'' os;
       (err, addr) \<leftarrow> real_address_exercise k (ca_host ca) addr;
       if err \<noteq> None then Some (Some 1, st, print_err ''Could not resolve hostname %s: %s'' os)
       else do {
         (sfd, failed, os) \<leftarrow>
           (if ca_client ca \<noteq> 0 then
              (case create_socket_exercise e k None (-1) (Some addr) (ca_port ca) os of (sfd, _, _, os) \<Rightarrow> Some (sfd, False, os))
            else
              (case create_socket_exercise e k (Some addr) (ca_port ca) None (-1) os of (sfd, _, _, os) \<Rightarrow>
                 if sfd > 0 then do {
                   (r, os) \<leftarrow> wait_for_client_exercise k sfd os;
                   Some (sfd, r < 0, os)
                 } else Some (sfd, False, os)));
         if failed then
           Some (Some 1, st, snd (sys_close sfd (print_err ''Could not connect the socket after the first message.'' os)))
         else if sfd < 0 then Some (Some 1, st, print_err ''Failed to create the socket!'' os)
         else (case read_write_loop (turns sfd) st of
             (Running, st) \<Rightarrow> Some (None, st, os)
           | (Exited, st) \<Rightarrow> Some (Some 1, st, os)
           | (Returned, st) \<Rightarrow> Some (Some 0, st, snd (sys_close sfd os)))
       }
     })"

section \<open>The contract\<close>

text \<open>Two systems that differ at most in the words of the last message.\<close>

definition same_but_message :: "os \<Rightarrow> os \<Rightarrow> bool" where
  "same_but_message os os' \<longleftrightarrow> os = os' \<or> (\<exists>o1 m m'. os = print_err m o1 \<and> os' = print_err m' o1)"

lemma same_refl [simp]: "same_but_message os os" "same_but_message (print_err m os) (print_err m' os)"
  by (auto simp: same_but_message_def)

lemma same_fields:
  assumes "same_but_message os os'"
  shows "os_fds os = os_fds os'" "os_files os = os_files os'" "length (os_err os) = length (os_err os')"
  using assms by (auto simp: same_but_message_def)

lemma failed_make_same: "failed_make k os os' \<Longrightarrow> same_but_message os'' os' \<Longrightarrow> failed_make k os os''"
  by (auto simp: failed_make_def same_but_message_def)

lemma create_socket_same:
  "create_socket_exercise e k src sp dst dp os = (r, src', dst', os') \<Longrightarrow>
   \<exists>os''. create_socket e k src sp dst dp os = (r, src', dst', os'') \<and> same_but_message os' os'' \<and> (r \<noteq> -1 \<longrightarrow> os' = os'')"
  unfolding create_socket_exercise_def create_socket_def
  by (cases src; cases dst) (auto simp: make_steps Let_def split: prod.splits if_splits)

lemma wait_for_client_same:
  "rel_option (rel_prod (=) same_but_message) (wait_for_client_exercise k fd os) (wait_for_client k fd os)"
  "wait_for_client_exercise k fd os = Some (r, os') \<Longrightarrow>
   \<exists>os''. wait_for_client k fd os = Some (r, os'') \<and> same_but_message os' os''"
proof -
  show 1: "rel_option (rel_prod (=) same_but_message) (wait_for_client_exercise k fd os) (wait_for_client k fd os)"
  proof (cases "sys_peek k fd os")
    case None
    then show ?thesis by (simp add: wait_for_client_exercise_def wait_for_client_def)
  next
    case (Some x)
    obtain a o1 where x: "x = (a, o1)" by (cases x)
    show ?thesis
    proof (cases a)
      case None
      then show ?thesis using Some x by (simp add: wait_for_client_exercise_def wait_for_client_def)
    next
      case a: (Some b)
      obtain r o2 where "sys_connect k fd b o1 = (r, o2)" by (cases "sys_connect k fd b o1")
      then show ?thesis using Some x a by (simp add: wait_for_client_exercise_def wait_for_client_def)
    qed
  qed
  show "\<exists>os''. wait_for_client k fd os = Some (r, os'') \<and> same_but_message os' os''"
    if "wait_for_client_exercise k fd os = Some (r, os')"
    using 1 that by (auto simp: option_rel_Some1)
qed

interpretation chat_sock: socket_api create_socket_exercise wait_for_client_exercise
proof
  fix k src dst e sp dp os
  obtain r src' dst' os' where c: "create_socket_exercise e k src sp dst dp os = (r, src', dst', os')"
    by (cases "create_socket_exercise e k src sp dst dp os")
  obtain os'' where c': "create_socket e k src sp dst dp os = (r, src', dst', os'')" "same_but_message os' os''" "r \<noteq> -1 \<longrightarrow> os' = os''"
    using create_socket_same [OF c] by blast
  show "create_socket_exercise e k src sp dst dp os =
      (k_socket k, map_option (with_port e sp) src, map_option (with_port e dp) dst,
       set_fd (k_socket k) (Some (Sock (made_socket (map_option (with_port e sp) src) (map_option (with_port e dp) dst)))) os)"
    if "make_succeeds k src dst"
    using sock.make_ok [OF that, of e sp dp os] c c' that by (auto simp: make_succeeds_def)
  show "\<exists>src' dst' os'. create_socket_exercise e k src sp dst dp os = (-1, src', dst', os') \<and> failed_make k os os'"
    if "\<not> make_succeeds k src dst"
    using sock.make_fails [OF that, of e sp dp os] c c' failed_make_same by auto
next
  fix os fd s a0 d q and k :: kernel
  assume "socket_of os fd = Some s" "k_recvfrom k" "k_connect k" "sk_queue s @ k_arrive k = (a0, d) # q"
  then show "wait_for_client_exercise k fd os = Some (0, set_fd fd (Some (Sock (s\<lparr>sk_queue := (a0, d) # q, sk_peer := Some a0\<rparr>))) os)"
    by (simp add: wait_for_client_exercise_def sys_peek_cases(3) sys_connect_new)
next
  fix os fd r os' and k :: kernel
  assume a: "socket_of os fd = None \<or> \<not> k_recvfrom k \<or> \<not> k_connect k" "wait_for_client_exercise k fd os = Some (r, os')"
  obtain os'' where "wait_for_client k fd os = Some (r, os'')" "same_but_message os' os''"
    using wait_for_client_same(2) [OF a(2)] by blast
  with sock.wait_fails [OF a(1) this(1)]
  show "r = -1 \<and> (\<exists>m. os_err os' = os_err os @ [m]) \<and> os_files os' = os_files os \<and>
      (\<forall>x. x \<noteq> fd \<longrightarrow> os_fds os' x = os_fds os x) \<and> (os_fds os' fd = None \<longleftrightarrow> os_fds os fd = None)"
    by (auto simp: same_but_message_def)
next
  fix os fd s and k :: kernel
  assume "socket_of os fd = Some s" "k_recvfrom k" "sk_queue s @ k_arrive k = []"
  then show "wait_for_client_exercise k fd os = None" by (simp add: wait_for_client_exercise_def sys_peek_cases(2))
qed

section \<open>Properties\<close>

text \<open>The socket functions of the exercise and those of the program are the same: the same results,
  the same addresses and the same descriptors in every case, with the same number of lines on the
  standard error.\<close>

theorem exercise_sockets_agree:
  "(\<exists>r src' dst' os1 os2. create_socket_exercise e k src sp dst dp os = (r, src', dst', os1) \<and>
      create_socket e k src sp dst dp os = (r, src', dst', os2) \<and> same_but_message os1 os2) \<and>
   real_address_exercise k name a = real_address k name a \<and>
   rel_option (rel_prod (=) same_but_message) (wait_for_client_exercise k fd os) (wait_for_client k fd os)"
proof -
  have c: "\<exists>r src' dst' os1 os2. create_socket_exercise e k src sp dst dp os = (r, src', dst', os1) \<and>
      create_socket e k src sp dst dp os = (r, src', dst', os2) \<and> same_but_message os1 os2"
    using create_socket_same by (metis prod_cases4)
  show ?thesis using c wait_for_client_same(1) by (simp add: real_address_exercise_def real_address_def)
qed

text \<open>The relay, while all goes well: what was read and what it wrote.\<close>

definition turn_fine :: "chat_turn \<Rightarrow> bool" where
  "turn_fine t \<longleftrightarrow> \<not> ct_poll_fails t \<and> ct_stdin t \<noteq> Some None \<and> ct_sock t \<noteq> Some None \<and> ct_send t \<and>
     (\<exists>n \<ge> 1024. ct_write t = Some n)"

definition read_of :: "bytes option option \<Rightarrow> bytes list" where
  "read_of r = (case r of Some (Some bs) \<Rightarrow> [take 1024 bs] | _ \<Rightarrow> [])"

lemma relay_fine:
  assumes "turn_fine t"
  shows "relay_stdin t st = (Running, st\<lparr>ch_sent := ch_sent st @ read_of (ct_stdin t)\<rparr>)"
    "relay_sock t st = (Running, st\<lparr>ch_out := ch_out st @ concat (read_of (ct_sock t))\<rparr>)"
  using assms by (auto simp: turn_fine_def relay_stdin_def relay_sock_def read_of_def split: option.splits)

text \<open>C39. As long as no call fails, the relay goes on for ever, and each read of the standard input is one
  datagram, in order, and each datagram is written to the standard output, in order, cut to 1024
  bytes. The end of the standard input is a read of no bytes: the relay sends an empty datagram for
  it, again and again, and never returns, while its comment says that it returns at once.\<close>

theorem relay_goes_on:
  assumes "\<forall>t \<in> set ts. turn_fine t"
  shows "read_write_loop ts st = (Running, st\<lparr>ch_sent := ch_sent st @ concat (map (read_of \<circ> ct_stdin) ts),
    ch_out := ch_out st @ concat (concat (map (read_of \<circ> ct_sock) ts))\<rparr>)"
  using assms
proof (induction ts arbitrary: st)
  case (Cons t ts)
  have "\<not> ct_poll_fails t" using Cons.prems by (simp add: turn_fine_def)
  then show ?case using Cons relay_fine [of t] by simp
qed simp

definition eof_turn :: chat_turn where
  "eof_turn = \<lparr>ct_poll_fails = False, ct_stdin = Some (Some []), ct_sock = None, ct_send = True, ct_write = Some 1024\<rparr>"

theorem relay_goes_on_witness:
  "read_write_loop (replicate 5 eof_turn) \<lparr>ch_sent = [], ch_out = []\<rparr> = (Running, \<lparr>ch_sent = replicate 5 [], ch_out = []\<rparr>)"
  by (subst relay_goes_on) (auto simp: eof_turn_def turn_fine_def read_of_def numeral_eq_Suc)

text \<open>The exercise as a server: when no call fails, \<open>main\<close> relays over a socket that is bound to the
  port asked for in network order and connected to the client whose datagram came first, and that
  datagram is still there to be read.\<close>

theorem chat_server_connects:
  assumes "chat_options opts chat_defaults (print_err ''ok'' os) = (ca, os1)" "ca_client ca = 0" "0 < ca_port ca"
    "k_getaddrinfo k (ca_host ca) = (0, [a])" "make_succeeds k (Some a) None" "k_socket k > 0" "k_connect k" "k_recvfrom k"
    "k_arrive k = (client, d) # q" "read_write_loop (turns (k_socket k)) \<lparr>ch_sent = [], ch_out = []\<rparr> = (Running, st)"
  shows "\<exists>os' s a'. chat_main e k opts x turns os = Some (None, st, os') \<and> socket_of os' (k_socket k) = Some s \<and>
    sk_bound s = Some a' \<and> store16 e (sin6_port a') = rev (le16 (word_of_int (ca_port ca))) \<and>
    sk_peer s = Some client \<and> sk_queue s = (client, d) # q"
proof -
  obtain fd src' dst' os2 where c: "create_socket_exercise e k (Some a) (ca_port ca) None (-1) (print_err ''test'' os1) = (fd, src', dst', os2)"
    by (cases "create_socket_exercise e k (Some a) (ca_port ca) None (-1) (print_err ''test'' os1)")
  have fd: "fd = k_socket k" using chat_sock.make_result [of e k "Some a" "ca_port ca" None "-1" "print_err ''test'' os1"] c assms(5) by simp
  note w = chat_sock.serve [OF assms(5,8,7,9) c]
  have "real_address_exercise k (ca_host ca) x = Some (None, a)" using assms(4) by (simp add: real_address_exercise_def)
  then have "chat_main e k opts x turns os = Some (None, st, set_fd fd (Some (Sock \<lparr>sk_bound = Some (with_port e (ca_port ca) a),
      sk_peer = Some client, sk_queue = k_arrive k, sk_opts = {}\<rparr>)) (print_err ''test'' os1))"
    using assms(1,2,6,10) c w fd by (simp add: chat_main_def)
  moreover have "store16 e (sin6_port (with_port e (ca_port ca) a)) = rev (le16 (word_of_int (ca_port ca)))"
    using assms(3) by (simp add: with_port_def)
  ultimately show ?thesis using fd assms(9) by auto
qed

theorem chat_server_connects_witness:
  "\<exists>os' s. chat_main Big demo_kernel [(CHR ''p'', show_d 4242)] demo_addr (\<lambda>_. replicate 2 eof_turn) demo_os =
     Some (None, \<lparr>ch_sent = [[], []], ch_out = []\<rparr>, os') \<and> socket_of os' 3 = Some s \<and> sk_peer s = Some demo_addr"
proof -
  have p: "atoi (show_d 4242) = 4242" by (rule atoi_show_d) simp_all
  have o: "chat_options [(CHR ''p'', show_d 4242)] chat_defaults (print_err ''ok'' demo_os) =
      (chat_defaults\<lparr>ca_port := 4242\<rparr>, print_err ''ok'' demo_os)" by (simp add: p)
  have r: "read_write_loop (replicate 2 eof_turn) \<lparr>ch_sent = [], ch_out = []\<rparr> = (Running, \<lparr>ch_sent = [[], []], ch_out = []\<rparr>)"
    by (simp add: eof_turn_def relay_stdin_def relay_sock_def numeral_2_eq_2)
  show ?thesis
    using chat_server_connects [OF o, of demo_kernel demo_addr demo_addr "[1, 2]" "[]" "\<lambda>_. replicate 2 eof_turn" "\<lparr>ch_sent = [[], []], ch_out = []\<rparr>"
        Big demo_addr] r
    by (auto simp: chat_defaults_def demo_kernel_def make_succeeds_def)
qed

end
