(* ===== verification/Tests.thy ===== *)
theory Tests
  imports Transfer_Run
begin

text \<open>
  The unit tests, \<open>src/tests/buffer_tests.c\<close> and \<open>packet_tests.c\<close>. A test is the list of what its
  assertions evaluate to, in their order; it is \<open>None\<close> where it dereferences a null or dangling
  pointer. Memory is given out at the addresses 1, 2, ...; a new packet holds whatever its block
  held. \<open>CUnit\<close>, which runs the tests and prints the failures, is left out.
\<close>

definition passes :: "bool list option \<Rightarrow> bool" where
  "passes t \<longleftrightarrow> (case t of None \<Rightarrow> False | Some checks \<Rightarrow> list_all (\<lambda>c. c) checks)"

section \<open>The buffer\<close>

text \<open>\<open>pkt_new\<close>, \<open>pkt_set_seqnum\<close> and \<open>pkt_set_timestamp\<close>, as at the start of each test.\<close>

definition new_packet :: "pkt \<Rightarrow> addr \<Rightarrow> u8 \<Rightarrow> u32 \<Rightarrow> heap \<Rightarrow> heap" where
  "new_packet block a seqnum timestamp h =
     (let p = snd (pkt_set_timestamp (snd (pkt_set_seqnum block seqnum)) timestamp) in h\<lparr>pkts := (pkts h)(a \<mapsto> p)\<rparr>)"

text \<open>\<open>buffer_enqueue(buffer, packet)\<close> for each packet.\<close>

fun enqueue_all :: "addr list \<Rightarrow> heap \<times> buffer \<Rightarrow> (heap \<times> buffer) option" where
  "enqueue_all [] (h, b) = Some (h, b)"
| "enqueue_all (a # as) (h, b) = do {
     (_, h, b) \<leftarrow> buffer_enqueue h b a (Some a);
     enqueue_all as (h, b)
   }"

definition three_packets :: "pkt \<Rightarrow> u32 \<Rightarrow> u32 \<Rightarrow> u32 \<Rightarrow> (heap \<times> buffer) option" where
  "three_packets block t1 t2 t3 =
     (let h = new_packet block 1 1 t1 empty_heap;
          h = new_packet block 2 2 t2 h;
          h = new_packet block 3 3 t3 h in
      enqueue_all [1, 2, 3] (h, buffer_init))"

definition deref :: "heap \<Rightarrow> addr option \<Rightarrow> pkt option" where
  "deref h p = Option.bind p (pkts h)"

definition test_buffer_enqueue :: "pkt \<Rightarrow> bool list option" where
  "test_buffer_enqueue block = do {
     (h, b) \<leftarrow> three_packets block 11111 22222 33333;
     s1 \<leftarrow> node_seq h (b_first b);
     n1 \<leftarrow> node_at h (b_first b);
     s2 \<leftarrow> node_seq h (n_next n1);
     n2 \<leftarrow> node_at h (n_next n1);
     s3 \<leftarrow> node_seq h (n_next n2);
     _ \<leftarrow> buffer_free h b;
     Some [s1 = 1, s2 = 2, s3 = 3]
   }"

definition test_buffer_size :: "pkt \<Rightarrow> bool list option" where
  "test_buffer_size block = do {
     (h, b) \<leftarrow> three_packets block 11111 22222 33333;
     _ \<leftarrow> buffer_free h b;
     Some [buffer_size b = 3, buffer_size b \<noteq> 5]
   }"

definition test_buffer_remove_first :: "pkt \<Rightarrow> bool list option" where
  "test_buffer_remove_first block = do {
     (h, b) \<leftarrow> three_packets block 11111 22222 33333;
     (p, h, bo) \<leftarrow> buffer_remove_first h (Some b);
     q1 \<leftarrow> deref h p; b1 \<leftarrow> bo;
     (p, h, bo) \<leftarrow> buffer_remove_first h bo;
     q2 \<leftarrow> deref h p; b2 \<leftarrow> bo;
     (p, h, bo) \<leftarrow> buffer_remove_first h bo;
     q3 \<leftarrow> deref h p; b3 \<leftarrow> bo;
     (p, h, bo) \<leftarrow> buffer_remove_first h bo;
     h \<leftarrow> pkt_del h p;
     b \<leftarrow> bo;
     _ \<leftarrow> buffer_free h b;
     Some [pkt_get_seqnum q1 = 1, pkt_get_timestamp q1 = 11111, buffer_size b1 = 2,
           pkt_get_seqnum q2 = 2, pkt_get_timestamp q2 = 22222, buffer_size b2 = 1,
           pkt_get_seqnum q3 = 3, pkt_get_timestamp q3 = 33333, buffer_size b3 = 0, p = None]
   }"

definition test_buffer_remove :: "pkt \<Rightarrow> bool list option" where
  "test_buffer_remove block = do {
     let h = new_packet block 1 1 11111 empty_heap;
     let h = new_packet block 2 2 22222 h;
     (h, b) \<leftarrow> enqueue_all [1, 2] (h, buffer_init);
     (p, h, b1) \<leftarrow> buffer_remove h b 2;
     q1 \<leftarrow> deref h p;
     (p, h, b2) \<leftarrow> buffer_remove h b1 1;
     q2 \<leftarrow> deref h p;
     h \<leftarrow> pkt_del h p;
     _ \<leftarrow> buffer_free h b2;
     Some [pkt_get_seqnum q1 = 2, pkt_get_timestamp q1 = 22222, buffer_size b1 = 1,
           pkt_get_seqnum q2 = 1, pkt_get_timestamp q2 = 11111, buffer_size b2 = 0]
   }"

definition test_buffer_remove_acked :: "pkt \<Rightarrow> bool list option" where
  "test_buffer_remove_acked block = do {
     let h = new_packet block 1 1 11111 empty_heap;
     let h = new_packet block 2 2 22222 h;
     let h = new_packet block 3 3 33333 h;
     let h = new_packet block 4 4 44444 h;
     let h = new_packet block 5 5 55555 h;
     (h, b) \<leftarrow> enqueue_all [1, 2, 3, 4, 5] (h, buffer_init);
     (count, h, b) \<leftarrow> buffer_remove_acked h b 3;
     n \<leftarrow> node_at h (b_first b);
     q \<leftarrow> pkts h (n_pkt n);
     _ \<leftarrow> buffer_free h b;
     Some [count = 2, buffer_size b = 3, pkt_get_timestamp q = 33333]
   }"

definition test_buffer_get_pkt :: "pkt \<Rightarrow> bool list option" where
  "test_buffer_get_pkt block = do {
     (h, b) \<leftarrow> three_packets block 11111 22222 33333;
     p1 \<leftarrow> buffer_get_pkt h b 1; q1 \<leftarrow> deref h p1;
     p2 \<leftarrow> buffer_get_pkt h b 2; q2 \<leftarrow> deref h p2;
     p3 \<leftarrow> buffer_get_pkt h b 3; q3 \<leftarrow> deref h p3;
     p4 \<leftarrow> buffer_get_pkt h b 4;
     p0 \<leftarrow> buffer_get_pkt h b 0;
     _ \<leftarrow> buffer_free h b;
     Some [pkt_get_timestamp q1 = 11111, pkt_get_timestamp q2 = 22222, pkt_get_timestamp q3 = 33333, p4 = None, p0 = None]
   }"

text \<open>\<open>clock k i\<close>: what \<open>time\<close> returns in round \<open>i\<close> of the scan of call \<open>k\<close>.\<close>

definition test_buffer_timedout_packet :: "pkt \<Rightarrow> u32 \<Rightarrow> (nat \<Rightarrow> nat \<Rightarrow> u32) \<Rightarrow> bool list option" where
  "test_buffer_timedout_packet block now_s clock = do {
     let scan = (\<lambda>k h b. look_for_timedout_packet (turn_s None None 0\<lparr>u_times := clock k\<rparr>) h (Some b));
     (h, b) \<leftarrow> three_packets block (now_s - 10) (now_s - 10) (now_s - 10);
     (p1, h) \<leftarrow> scan 1 h b; q1 \<leftarrow> deref h p1;
     (p2, h) \<leftarrow> scan 2 h b; q2 \<leftarrow> deref h p2;
     (p3, h) \<leftarrow> scan 3 h b; q3 \<leftarrow> deref h p3;
     (p4, h) \<leftarrow> scan 4 h b;
     _ \<leftarrow> buffer_free h b;
     Some [pkt_get_seqnum q1 = 1, pkt_get_seqnum q2 = 2, pkt_get_seqnum q3 = 3, p4 = None]
   }"

definition test_buffer_contains :: "pkt \<Rightarrow> bool list option" where
  "test_buffer_contains block = do {
     let h = new_packet block 1 1 11111 empty_heap;
     let h = new_packet block 2 2 22222 h;
     (h, b) \<leftarrow> enqueue_all [1, 2] (h, buffer_init);
     c1 \<leftarrow> is_in_buffer h (Some b) 1;
     c2 \<leftarrow> is_in_buffer h (Some b) 2;
     c99 \<leftarrow> is_in_buffer h (Some b) 99;
     c100 \<leftarrow> is_in_buffer h (Some b) 100;
     _ \<leftarrow> buffer_free h b;
     Some [c1, c2, \<not> c99, \<not> c100]
   }"

text \<open>The tests \<open>main\<close> registers, in the order they are run.\<close>

definition buffer_suite :: "pkt \<Rightarrow> u32 \<Rightarrow> (nat \<Rightarrow> nat \<Rightarrow> u32) \<Rightarrow> bool list option list" where
  "buffer_suite block now_s clock =
     [test_buffer_enqueue block, test_buffer_size block, test_buffer_remove block, test_buffer_remove_first block,
      test_buffer_remove_acked block, test_buffer_get_pkt block, test_buffer_contains block,
      test_buffer_timedout_packet block now_s clock]"

section \<open>The packet\<close>

text \<open>An assertion on what a setter returns, or on what a getter does.\<close>

definition sets :: "(pkt \<Rightarrow> pkt_status_code \<times> pkt) \<Rightarrow> pkt_status_code \<Rightarrow> pkt \<Rightarrow> bool \<times> pkt" where
  "sets setter expected p = (case setter p of (status, p) \<Rightarrow> (status = expected, p))"

definition gets :: "(pkt \<Rightarrow> 'a) \<Rightarrow> 'a \<Rightarrow> pkt \<Rightarrow> bool \<times> pkt" where
  "gets getter expected p = (getter p = expected, p)"

primrec assertions :: "(pkt \<Rightarrow> bool \<times> pkt) list \<Rightarrow> pkt \<Rightarrow> bool list \<times> pkt" where
  "assertions [] p = ([], p)"
| "assertions (s # ss) p = (case s p of (c, p) \<Rightarrow> case assertions ss p of (cs, p) \<Rightarrow> (c # cs, p))"

definition field_assertions :: "(pkt \<Rightarrow> bool \<times> pkt) list" where
  "field_assertions = [
     sets (\<lambda>p. pkt_set_type p 4) E_TYPE, sets (\<lambda>p. pkt_set_type p 0) E_TYPE,
     sets (\<lambda>p. pkt_set_type p (- 500)) E_TYPE, sets (\<lambda>p. pkt_set_type p 500) E_TYPE,
     sets (\<lambda>p. pkt_set_type p PTYPE_ACK) PKT_OK, gets pkt_get_type PTYPE_ACK,
     sets (\<lambda>p. pkt_set_type p PTYPE_NACK) PKT_OK, gets pkt_get_type PTYPE_NACK,
     sets (\<lambda>p. pkt_set_type p PTYPE_DATA) PKT_OK, gets pkt_get_type PTYPE_DATA,
     sets (\<lambda>p. pkt_set_tr p 2) E_TR, sets (\<lambda>p. pkt_set_tr p 240) E_TR,
     sets (\<lambda>p. pkt_set_tr p 0) PKT_OK, gets pkt_get_tr 0,
     sets (\<lambda>p. pkt_set_tr p 1) PKT_OK, gets pkt_get_tr 1,
     sets (\<lambda>p. pkt_set_window p (of_nat MAX_WINDOW_SIZE + 1)) E_WINDOW,
     sets (\<lambda>p. pkt_set_window p 0) PKT_OK, gets pkt_get_window 0,
     sets (\<lambda>p. pkt_set_window p (of_nat MAX_WINDOW_SIZE)) PKT_OK, gets pkt_get_window (of_nat MAX_WINDOW_SIZE),
     sets (\<lambda>p. pkt_set_seqnum p 0) PKT_OK, gets pkt_get_seqnum 0,
     sets (\<lambda>p. pkt_set_seqnum p 200) PKT_OK, gets pkt_get_seqnum 200,
     sets (\<lambda>p. pkt_set_length p (of_nat MAX_PAYLOAD_SIZE + 1)) E_LENGTH, sets (\<lambda>p. pkt_set_length p 1500) E_LENGTH,
     sets (\<lambda>p. pkt_set_length p 100) PKT_OK, gets pkt_get_length 100,
     sets (\<lambda>p. pkt_set_length p (of_nat MAX_PAYLOAD_SIZE)) PKT_OK, gets pkt_get_length (of_nat MAX_PAYLOAD_SIZE),
     sets (\<lambda>p. pkt_set_timestamp p 11111) PKT_OK, gets pkt_get_timestamp 11111,
     sets (\<lambda>p. pkt_set_timestamp p 55555) PKT_OK, gets pkt_get_timestamp 55555,
     sets (\<lambda>p. pkt_set_crc1 p 11111) PKT_OK, gets pkt_get_crc1 11111,
     sets (\<lambda>p. pkt_set_crc1 p 55555) PKT_OK, gets pkt_get_crc1 55555,
     sets (\<lambda>p. pkt_set_crc2 p 11111) PKT_OK, gets pkt_get_crc2 11111,
     sets (\<lambda>p. pkt_set_crc2 p 55555) PKT_OK, gets pkt_get_crc2 55555]"

text \<open>The bytes of a string literal, its length, and \<open>memcmp\<close> of two blocks, up to its sign.\<close>

definition c_string :: "string \<Rightarrow> bytes" where
  "c_string s = map of_char s @ [0]"

definition strlen :: "string \<Rightarrow> nat" where
  "strlen s = size s"

definition same_bytes :: "bytes option \<Rightarrow> bytes \<Rightarrow> nat \<Rightarrow> bool option" where
  "same_bytes a b n = do { m \<leftarrow> a; x \<leftarrow> read_bytes m 0 n; y \<leftarrow> read_bytes b 0 n; Some (x = y) }"

definition test_pkt_getters_setters :: "pkt \<Rightarrow> bool list option" where
  "test_pkt_getters_setters block = do {
     let (fields, p) = assertions field_assertions block;
     let payload = c_string ''SalutSalutArbitre'';
     let length = strlen ''SalutSalutArbitre'';
     (st1, p1) \<leftarrow> pkt_set_payload True p (Some payload) (of_nat length);
     same1 \<leftarrow> same_bytes (pkt_get_payload p1) payload length;
     same2 \<leftarrow> same_bytes (pkt_get_payload p1) (c_string ''zzzzzzzzzzzzzzzzzz'') length;
     same3 \<leftarrow> same_bytes (pkt_get_payload p1) (c_string ''SalutSalutArbitre'') length;
     (st2, p2) \<leftarrow> pkt_set_payload True p1 None 0;
     (st3, p3) \<leftarrow> pkt_set_payload True p2 None (of_nat MAX_PAYLOAD_SIZE + 1);
     Some ([pkt_new (Some block) \<noteq> None] @ fields @ [st1 = PKT_OK, pkt_get_length p1 = of_nat length, same1, \<not> same2, same3,
       st2 = PKT_OK, pkt_get_length p2 = 0, st3 = E_LENGTH])
   }"

text \<open>\<open>block\<close> and \<open>block'\<close>: the two packets; \<open>array\<close>: the 50 bytes of \<open>buffer\<close>.\<close>

definition test_pkt_encode_decode ::
  "(bytes \<Rightarrow> u32) \<Rightarrow> endian \<Rightarrow> pkt \<Rightarrow> pkt \<Rightarrow> bytes \<Rightarrow> bool list option" where
  "test_pkt_encode_decode crc e block block' array = do {
     let payload = c_string ''SalutSalutArbitre'';
     let length = strlen ''SalutSalutArbitre'';
     let (c1, p) = pkt_set_type block PTYPE_DATA;
     let (c2, p) = pkt_set_tr p 0;
     let (c3, p) = pkt_set_seqnum p 69;
     let (c4, p) = pkt_set_window p 23;
     (c5, p) \<leftarrow> pkt_set_payload True p (Some payload) (of_nat length);
     let (c6, p) = pkt_set_timestamp p 10012000;
     let len = 50;
     let p = snd (pkt_set_tr p 1);
     let p = snd (pkt_set_type p 2);
     (e1, _, _) \<leftarrow> pkt_encode crc e (Some p) (Some array) (Some len);
     let p = snd (pkt_set_type p 3);
     (e2, _, _) \<leftarrow> pkt_encode crc e (Some p) (Some array) (Some len);
     let p = snd (pkt_set_type p PTYPE_DATA);
     let p = snd (pkt_set_tr p 0);
     (e3, _, _) \<leftarrow> pkt_encode crc e None (Some array) (Some len);
     (e4, _, _) \<leftarrow> pkt_encode crc e (Some p) None (Some len);
     (e5, _, _) \<leftarrow> pkt_encode crc e (Some p) (Some array) None;
     (e6, array, lenp) \<leftarrow> pkt_encode crc e (Some p) (Some array) (Some len);
     len \<leftarrow> lenp;
     (d1, pkt_test) \<leftarrow> pkt_decode crc e True array len block';
     same \<leftarrow> same_bytes (Some payload) (case pkt_get_payload p of None \<Rightarrow> [] | Some m \<Rightarrow> m) length;
     Some [pkt_new (Some block) \<noteq> None, c1 = PKT_OK, c2 = PKT_OK, c3 = PKT_OK, c4 = PKT_OK, c5 = PKT_OK, c6 = PKT_OK,
       e1 = E_UNCONSISTENT, e2 = E_UNCONSISTENT, e3 = E_UNCONSISTENT, e4 = E_NOMEM, e5 = E_LENGTH, e6 = PKT_OK, d1 = PKT_OK,
       pkt_get_type p = PTYPE_DATA, pkt_get_tr p = 0, pkt_get_seqnum p = 69, pkt_get_window p = 23,
       pkt_get_length p = of_nat length, same, pkt_get_timestamp p = 10012000]
   }"

definition packet_suite :: "(bytes \<Rightarrow> u32) \<Rightarrow> endian \<Rightarrow> pkt \<Rightarrow> pkt \<Rightarrow> bytes \<Rightarrow> bool list option list" where
  "packet_suite crc e block block' array = [test_pkt_getters_setters block, test_pkt_encode_decode crc e block block' array]"

section \<open>Evaluation\<close>

lemma is_in_loop_numeral: "is_in_loop h s (numeral k) current = do {
     q \<leftarrow> node_seq h current;
     if q = s then Some True
     else do { n \<leftarrow> node_at h current; is_in_loop h s (pred_numeral k) (n_next n) }
   }"
  by (simp add: numeral_eq_Suc)

lemma is_in_loop_1: "is_in_loop h s 1 current = do {
     q \<leftarrow> node_seq h current;
     if q = s then Some True
     else do { n \<leftarrow> node_at h current; is_in_loop h s 0 (n_next n) }
   }"
  by simp

lemmas test_eval = new_packet_def three_packets_def deref_def empty_heap_def buffer_init_def Let_def
  pkt_set_seqnum_def pkt_set_timestamp_def pkt_get_seqnum_def pkt_get_timestamp_def buffer_eval
  enq_backward.simps is_in_loop.simps(1) is_in_loop_1 is_in_loop_numeral find_node.simps acked_loop.simps buffer_free.simps

lemma three_packets_filled:
  "three_packets block t1 t2 t3 = Some (\<lparr>nodes = [1 \<mapsto> \<lparr>n_next = Some 2, n_prev = Some 3, n_pkt = 1\<rparr>,
      2 \<mapsto> \<lparr>n_next = Some 3, n_prev = Some 1, n_pkt = 2\<rparr>, 3 \<mapsto> \<lparr>n_next = Some 1, n_prev = Some 2, n_pkt = 3\<rparr>],
     stale = Map.empty, pkts = [1 \<mapsto> block\<lparr>p_seqnum := 1, p_timestamp := t1\<rparr>,
       2 \<mapsto> block\<lparr>p_seqnum := 2, p_timestamp := t2\<rparr>, 3 \<mapsto> block\<lparr>p_seqnum := 3, p_timestamp := t3\<rparr>]\<rparr>,
    \<lparr>b_first = Some 1, b_last = Some 3, b_size = 3\<rparr>)"
  by (simp add: test_eval fun_eq_iff del: One_nat_def)

lemma test_enqueue: "passes (test_buffer_enqueue block)"
  by (simp add: test_buffer_enqueue_def three_packets_filled passes_def) (simp add: test_eval)

lemma test_size: "passes (test_buffer_size block)"
  by (simp add: test_buffer_size_def three_packets_filled passes_def) (simp add: test_eval)

lemma test_remove_first: "passes (test_buffer_remove_first block)"
  by (simp add: test_buffer_remove_first_def three_packets_filled passes_def) (simp add: test_eval buffer_remove_first_def)

lemma test_remove: "passes (test_buffer_remove block)"
  by (simp add: test_buffer_remove_def passes_def test_eval del: One_nat_def)

lemma test_remove_acked: "passes (test_buffer_remove_acked block)"
  by (simp add: test_buffer_remove_acked_def passes_def test_eval del: One_nat_def)

lemma test_get_pkt: "passes (test_buffer_get_pkt block)"
  by (simp add: test_buffer_get_pkt_def three_packets_filled passes_def) (simp add: test_eval)

lemma test_contains: "passes (test_buffer_contains block)"
  by (simp add: test_buffer_contains_def passes_def test_eval del: One_nat_def)


section \<open>The test on expired packets\<close>

lemma scan_eval:
  assumes "now_s \<noteq> 10" "\<And>i. clock 1 i - (now_s - 10) > 2"
    "\<And>i j. \<not> clock 2 i - clock 1 j > 2" "\<And>i j. \<not> clock 2 i - (clock 1 j - 1) > 2"
  shows "test_buffer_timedout_packet block now_s clock = None"
proof -
  have "now_s - 10 \<noteq> 0" using assms(1) by simp
  then show ?thesis using assms(2-4)
    by (simp add: test_buffer_timedout_packet_def three_packets_filled look_for_timedout_packet_def deref_def numeral_3_eq_3
        node_at_def turn_s_def RTO_def packet_eval del: One_nat_def)
qed

section \<open>The tests on packets\<close>

lemma read_prefix: "n \<le> length m \<Longrightarrow> read_bytes m 0 n = Some (take n m)"
  by (simp add: read_bytes_def)

lemma field_assertions_hold: "list_all (\<lambda>c. c) (fst (assertions field_assertions block))"
  by (simp add: field_assertions_def sets_def gets_def packet_eval pkt_set_crc1_def pkt_get_crc1_def pkt_set_crc2_def pkt_get_crc2_def)

definition salut :: bytes where
  "salut = map of_char ''SalutSalutArbitre''"

lemma literals:
  "c_string ''SalutSalutArbitre'' = salut @ [0]" "strlen ''SalutSalutArbitre'' = 17" "length salut = 17"
  "take 17 (c_string ''zzzzzzzzzzzzzzzzzz'') \<noteq> salut" "17 \<le> length (c_string ''zzzzzzzzzzzzzzzzzz'')" "salut \<noteq> []"
  by (simp_all add: c_string_def salut_def strlen_def)

lemma set_salut: "pkt_set_payload True p (Some (salut @ [0])) 17 = Some (PKT_OK, p\<lparr>p_length := 17, p_payload := Some salut\<rparr>)"
  by (simp add: pkt_set_payload_def pkt_set_length_def literals read_prefix)

lemma same_salut: "same_bytes (Some salut) (salut @ [0]) 17 = Some True" "same_bytes (Some (salut @ [0])) salut 17 = Some True"
  "same_bytes (Some salut) (c_string ''zzzzzzzzzzzzzzzzzz'') 17 = Some False"
  using literals(3-5) by (simp_all add: same_bytes_def read_prefix)

lemma test_getters_setters: "passes (test_pkt_getters_setters block)"
proof -
  obtain fields p where f: "assertions field_assertions block = (fields, p)" by (cases "assertions field_assertions block")
  then have "list_all (\<lambda>c. c) fields" using field_assertions_hold [of block] by simp
  then show ?thesis
    by (simp add: test_pkt_getters_setters_def f literals(1,2) set_salut pkt_get_payload_def same_salut pkt_get_length_def
        pkt_set_payload_def [of _ _ None] pkt_set_length_def pkt_new_def passes_def Let_def)
qed

text \<open>The packet of the test, and that it is encoded and decoded.\<close>

lemma test_encode_decode:
  assumes "crc salut \<noteq> 0" "length array = 50"
  shows "passes (test_pkt_encode_decode crc e block block' array)"
proof -
  have enc: "pkt_encode crc e (Some p) (Some array) (Some 50) = Some (PKT_OK, Some (data_wire crc e p salut @ drop 33 array), Some 33)"
    and dec: "pkt_decode crc e True (Some (data_wire crc e p salut @ junk)) 33 block' =
      Some (PKT_OK, p\<lparr>p_crc1 := crc (data_header e p), p_crc2 := crc salut\<rparr>)"
    if "p_type p = 1" "p_tr p = 0" "p_payload p = Some salut" "p_length p = 17" for p junk
  proof -
    have s: "sendable crc p salut" using that assms(1) by (simp add: sendable_def literals(3,6))
    show "pkt_encode crc e (Some p) (Some array) (Some 50) = Some (PKT_OK, Some (data_wire crc e p salut @ drop 33 array), Some 33)"
      using pkt_encode_data [OF s, of array e 50] assms(2) by (simp add: literals(3))
    show "pkt_decode crc e True (Some (data_wire crc e p salut @ junk)) 33 block' =
        Some (PKT_OK, p\<lparr>p_crc1 := crc (data_header e p), p_crc2 := crc salut\<rparr>)"
      using decode_data_wire [OF s, of e junk block'] by (simp add: literals(3))
  qed
  have bad: "pkt_encode crc e (Some q) (Some array) (Some 50) = Some (E_UNCONSISTENT, Some array, Some 50)"
    if "p_type q = 2 \<or> p_type q = 3" "p_tr q = 1" for q
    using that by (auto simp: pkt_encode_def pkt_get_type_def pkt_get_tr_def)
  have null: "pkt_encode crc e None (Some array) (Some 50) = Some (E_UNCONSISTENT, Some array, Some 50)"
    "p_type p = 1 \<Longrightarrow> pkt_encode crc e (Some p) None (Some 50) = Some (E_NOMEM, None, Some 50)"
    "p_type p = 1 \<Longrightarrow> pkt_encode crc e (Some p) (Some array) None = Some (E_LENGTH, Some array, None)" for p
    by (simp_all add: pkt_encode_def pkt_get_type_def)
  show ?thesis
    by (simp add: enc dec null bad test_pkt_encode_decode_def literals(1,2) pkt_set_type_def pkt_set_tr_def pkt_set_window_def pkt_set_seqnum_def
        pkt_set_timestamp_def set_salut Let_def pkt_new_def passes_def same_salut pkt_get_payload_def pkt_get_type_def
        pkt_get_tr_def pkt_get_seqnum_def pkt_get_window_def pkt_get_length_def pkt_get_timestamp_def)
qed

section \<open>Properties\<close>



text \<open>The last test of the buffer, on expired packets, cannot pass. It wants one scan after the other to return the three
  packets; but the first scan, which returns packet 1, gives the others a new timestamp too,
  and the second returns the null pointer, which the test dereferences. This is for scans that
  are made within one second or the next, by a clock that is not at 10 seconds, for which the
  packets would count as not sent.\<close>

theorem timedout_test_crashes:
  assumes "now_s \<noteq> 10" "\<And>k i. clock k i = now_s + of_nat (elapsed k i)" "\<And>k i. elapsed k i \<le> 1"
    "\<And>i j. elapsed 1 i \<le> elapsed 2 j"
  shows "last (buffer_suite block now_s clock) = None"
proof -
  have "test_buffer_timedout_packet block now_s clock = None"
  proof (rule scan_eval [OF assms(1)])
    have bit: "elapsed k i = 0 \<or> elapsed k i = 1" for k i using assms(3) [of k i] by linarith
    show "clock 1 i - (now_s - 10) > 2" for i using bit [of 1 i] by (auto simp: assms(2))
    have le: "elapsed 2 i = elapsed 1 j \<or> elapsed 2 i = 1 \<and> elapsed 1 j = 0" for i j
      using bit [of 2 i] bit [of 1 j] assms(4) [of j i] by auto
    show "\<not> clock 2 i - clock 1 j > 2" for i j using le [of i j] by (auto simp: assms(2))
    show "\<not> clock 2 i - (clock 1 j - 1) > 2" for i j using le [of i j] by (auto simp: assms(2))
  qed
  then show ?thesis by (simp add: buffer_suite_def)
qed

theorem timedout_test_crashes_witness: "last (buffer_suite zero_pkt 1000 (\<lambda>_ _. 1000)) = None"
  using timedout_test_crashes [of 1000 "\<lambda>_ _. 1000" "\<lambda>_ _. 0" zero_pkt] by simp

end
