(* ===== verification/Spec2Isabelle.thy ===== *)
theory Spec2Isabelle
  imports Packet_Codec Packet_Queue Seq_Order Min_Queue Link_Sim Receiver Sender
    File_Transfer Transfer_Run Lossy_Link Packet_Types Programs Program_Run Completion Delivery Relay Relay_Program Link_Main Log
    Segment_Exercise Record_Exercise Chat Tests
begin

text \<open>
  A file transfer over UDP by selective repeat: the program \<open>sender\<close> reads a file in pieces of at
  most 512 bytes and sends each in a data segment numbered modulo 256, the program \<open>receiver\<close>
  writes the payloads in order and acknowledges. A third program, the link simulator, relays
  datagrams between them and loses, delays, truncates and corrupts some.

  \<^bold>\<open>Parts and theories.\<close>

  \<^item> \<open>src/src/packet/packet.c\<close>, the segment format. \<open>Packet\<close>: the structure (bit-fields at their
    width), setters, getters, \<open>pkt_encode\<close>, \<open>pkt_decode\<close>. \<open>Packet_Codec\<close>: the layout of the three
    kinds of segment, round trips, what the checksums notice, error codes, accesses outside of
    the arrays. \<open>Packet_Types\<close>: the typing of the structure, and \<open>pkt_print\<close>. The CRC-32 of zlib
    is a parameter \<open>crc\<close>; \<open>Checksum\<close> states what is asked of it as a locale and interprets it with
    the polynomial of zlib, \<open>crc32\<close>.
  \<^item> \<open>src/src/buffer/buffer.c\<close>, the window of both programs. \<open>Buffer\<close>: the circular doubly linked
    list over an explicit heap of nodes and packets, every function with its pointer updates.
    \<open>Buffer_Refine\<close>, \<open>Packet_Queue\<close>: \<open>holds h b ps\<close> says that the list represents the packets
    \<open>ps\<close>; each operation refines one on lists. The locale \<open>packet_queue\<close> is the interface its clients
    use. \<open>Seq_Order\<close>: where \<open>buffer_enqueue\<close> puts a number when the numbers wrap around.
  \<^item> \<open>src/src/receiver.c\<close>. \<open>Receiver\<close>: the globals and locals as the record \<open>rcv\<close>, the system calls
    of a turn as \<open>rturn\<close>; \<open>is_in_window\<close>, \<open>write_buffer_to_file\<close>, \<open>send_ack\<close> and a turn of
    \<open>read_write_loop_receiver\<close> (\<open>rcv_turn\<close>); runs as the inductive \<open>rcv_run\<close>, the invariant
    \<open>rcv_inv\<close>. \<open>Receiver_Control\<close>: which acknowledgements a turn sends, when the end is learned.
  \<^item> \<open>src/src/sender.c\<close>. \<open>Sender\<close>: likewise \<open>sender\<close>, \<open>sturn\<close>, \<open>read_file\<close>, \<open>send_pkt\<close>, the scan for
    expired packets, \<open>handle_ack\<close>, a turn of \<open>read_write_loop_sender\<close> (\<open>sender_turn\<close>), \<open>sender_run\<close>,
    \<open>snd_inv\<close>. \<open>Sender_Control\<close>: when the counter that ends the loop changes.
  \<^item> The two programs together. \<open>File_Transfer\<close>: the inductive \<open>transfer\<close> interleaves turns of the two
    over a network, and \<open>transfer_inv\<close> is its invariant. \<open>Transfer_Run\<close>: the correctness of the
    transfer, and a complete run of six turns, evaluated. \<open>Completion\<close> and
    \<open>Delivery\<close>: for every file a complete run, of the two loops and of the two programs.
  \<^item> \<open>src/link_simulator/min_queue.c\<close>, \<open>link_sim.c\<close>. \<open>Min_Queue\<close>: the array heap with \<open>sift_up\<close> and
    \<open>sift_down\<close>, its interface as the locale \<open>priority_queue\<close>. \<open>Link_Sim\<close>: losses, truncation,
    corruption, delays, delivery and a turn of \<open>proxy_loop\<close>. \<open>Lossy_Link\<close>: the simulated link is a
    network as \<open>transfer\<close> asks for. \<open>Link_Main\<close>: the options, \<open>get_socket\<close>, the loop over what
    \<open>select\<close> returns, \<open>proxy_traffic\<close> and \<open>main\<close>.
  \<^item> The three programs. \<open>Relay\<close>: the inductive \<open>relayed\<close> interleaves turns of the sender, of the
    receiver and of the link simulator between them, with the sockets of the two speaking to the
    simulator only; every run is a run of \<open>transfer\<close>. \<open>Relay_Program\<close>: the mains of the three.
  \<^item> \<open>src/src/socket/socket_manager.c\<close>. \<open>Sockets\<close>: the descriptors, files and standard error of a
    process as the record \<open>os\<close>, the answers of its system calls as the record \<open>kernel\<close>;
    \<open>create_socket\<close>, \<open>real_address\<close>, \<open>wait_for_client\<close>, and their contract as the locale
    \<open>socket_api\<close>, which the exercise on sockets satisfies too.
  \<^item> The whole programs. \<open>Programs\<close>: \<open>main\<close> of \<open>sender.c\<close> and of \<open>receiver.c\<close>, with the options,
    the sockets, the loops and the statistics files. \<open>Program_Run\<close>: the two mains run against each
    other, from their arguments to the file written, and such a run evaluated.
  \<^item> \<open>src/src/logs/log.c\<close>. \<open>Log\<close>: \<open>dump\<close> and when it leaves the object it prints.
  \<^item> \<open>src/Inginious\<close>, preparatory exercises. \<open>Segment_Exercise\<close>: \<open>packet_implem.c\<close>, compared with
    \<open>packet.c\<close>. \<open>Record_Exercise\<close>: \<open>record.c\<close>, records written to and read from a file. \<open>Chat\<close>: a
    relay between standard input and a socket, \<open>envoyer_recevoir_donnees\<close>.
  \<^item> \<open>src/tests\<close>, the unit tests. \<open>Tests\<close>: each test as the list of what its assertions evaluate to.
  \<^item> \<open>Prelude\<close>: bytes, the byte order of the host, reads and writes of arrays that check bounds.
    \<open>C_Library\<close>: \<open>strtol\<close>, \<open>atoi\<close> and the conversions of \<open>printf\<close> on lists of characters.

  \<^bold>\<open>Conventions.\<close> Results are options; \<open>None\<close> is undefined behaviour of the C code: an access outside of
  an array, a null or dangling pointer, a remainder by zero. Errors the code handles are values
  (status codes, -1). What the environment decides (system calls, \<open>malloc\<close>, \<open>rand\<close>, clocks) is an
  argument. Integers that can wrap have their width; the counters of the programs are \<open>int\<close>.

  \<^bold>\<open>What is shown.\<close> End to end: the output is at all times the beginning of
  the file; what is read and not yet written is in the buffer of the sender; when either program
  stops because the end of the file was acknowledged, the output is the whole file, and every file
  has such a run; when the mains of the two programs return 0, the file named by the option of the
  receiver begins with pieces of the file of the sender, with all of them if the end was
  acknowledged, and keeps what it had beyond. The same holds when the main of the link
  simulator stands between the two, for all its options but those that damage datagrams on the
  way back. The unit tests of the repository hold, but for one. The receiver alone, and the sender alone, have the
  corresponding theorems over all their runs. Turns of the receiver always end and are defined,
  but for one read of a freed node, which the parameter \<open>dang\<close> makes explicit; turns
  of the sender are defined exactly when the packet to send again is in the buffer, and an
  acknowledgement of any other number crashes it. The buffer and the heap of the simulator refine
  lists and multisets. The simulator as a program is defined for all events and releases what it
  took. Where the code does not do what it means to, a theorem shows it: insertion around the wrap
  of numbers, the test for truncated packets, the bounds of the arrays, acknowledgements after the
  wrap.

  \<^bold>\<open>Bounds.\<close> Loops that follow pointers are \<open>partial_function\<close>s and are proved to end on every well
  formed list; scans that count are recursive on the count, the size of the buffer, as in the
  code; the loops of the programs, which may not end, run over a list of turns and say whether they
  were left. \<open>lifetime\<close> = 225 in \<open>File_Transfer\<close>: numbers count modulo 256 and a window has 31, so an
  older datagram could be taken for a new one, and the theorems on the transfer assume that none
  is delivered. They also assume that \<open>write\<close> writes all it is given or fails, that \<open>malloc\<close> gives
  fresh memory, and that the read of the freed node gives what was there.

  \<^bold>\<open>Not modelled.\<close> What the loops print for debugging, with \<open>sockaddr6_to_human\<close> and the macros that
  print; the usage texts beyond their first line; \<open>print_data\<close> of the exercise on segments, which
  prints as \<open>pkt_print\<close> does; \<open>minq_del\<close>, which frees memory; \<open>database.c\<close>, a
  program to be filled in that calls \<open>record_init\<close>; the framework that runs the unit tests. \<open>getopt\<close> is the
  list of the options it returns. Elapsed time is compared exactly, where the code rounds to
  single precision.
\<close>

end
